theory Spec2Isabelle
  imports Main "HOL-Library.Word" "HOL-Library.Monad_Syntax"
begin

section \<open>Data model\<close>

text \<open>
  Pointers are addresses; \<open>nullptr\<close> is address 0. \<open>size_t\<close> is a 64-bit word, so
  that \<open>+=\<close> on the memory counters wraps as in the source. A size class of the
  allocator is an opaque index.
\<close>

type_synonym addr = nat
type_synonym size_t = "64 word"
type_synonym sizeclass_t = nat

definition nullptr :: addr where
  "nullptr = 0"

text \<open>
  Modelled from the spec: \<open>object.h\<close> (the object header, its class tag and its
  descriptor) is not part of the source tree. Sections 3, 4.1 and 6 of the
  specification give the class tags, the descriptor record
  \<open>{size, trace, finaliser | none, destructor | none}\<close> and the rule that an object is
  trivial iff its descriptor has neither finaliser nor destructor nor subregion
  references. The trace function of a descriptor is represented by the list
  \<open>flds\<close> of the references it enumerates for the object.
\<close>

datatype RegionMD = ISO | UNMARKED | MARKED | SCC_PTR | RC | COWN

record Descriptor =
  size_d :: size_t
  finaliser :: bool
  destructor :: bool
  subregions :: bool

record Object =
  descriptor :: Descriptor
  "next" :: addr
  cls :: RegionMD
  flds :: "addr list"
  ext_ref :: bool

text \<open>
  The members of \<open>class RegionTrace\<close>. The header that the metadata object inherits
  from \<open>Object\<close> (descriptor, \<open>next\<close> slot) lives in the heap at the address of the
  region, like the header of any object. \<open>hash_set\<close> is the remembered set of
  \<open>RegionBase\<close> (entry and mark bit), \<open>ext_refs\<close> its external reference table.
\<close>

record RegionTrace =
  next_not_root :: addr
  last_not_root :: addr
  current_memory_used :: size_t
  previous_memory_used :: sizeclass_t
  hash_set :: "addr \<rightharpoonup> bool"
  ext_refs :: "addr set"

text \<open>
  Calls whose order the collector promises are recorded in \<open>events\<close>, oldest first.
\<close>

datatype event =
    Finalise addr
  | FindIsoFields addr
  | Destructor addr
  | Dealloc addr
  | SweepSet addr size_t

record State =
  heap :: "addr \<rightharpoonup> Object"
  regions :: "addr \<rightharpoonup> RegionTrace"
  events :: "event list"

text \<open>
  Every operation returns an \<open>option\<close>: \<open>None\<close> stands for a run without a defined
  result, which is a dereference of memory that is not allocated, a failed
  \<open>assert\<close>, or a loop that does not terminate.
\<close>

definition assert :: "bool \<Rightarrow> unit option" where
  "assert b = (if b then Some () else None)"

section \<open>Object header operations\<close>

text \<open>
  Modelled from the spec: the methods of \<open>Object\<close> (\<open>object.h\<close>, not in the source
  tree), after section 4.1: \<open>init_next\<close> stores the successor and leaves the object
  UNMARKED, \<open>set_next\<close> rewrites the successor and keeps the tag, \<open>mark\<close> and
  \<open>unmark\<close> flip the tag in place, \<open>get_next_any_mark\<close> reads the successor whatever
  the tag, \<open>get_next\<close> is legal on non-ISO objects only, and for an iso the slot
  holds the region metadata.
\<close>

definition trivial :: "Descriptor \<Rightarrow> bool" where
  "trivial d \<longleftrightarrow> \<not> finaliser d \<and> \<not> destructor d \<and> \<not> subregions d"

definition upd_obj :: "addr \<Rightarrow> (Object \<Rightarrow> Object) \<Rightarrow> State \<Rightarrow> State option" where
  "upd_obj p f s =
     (case heap s p of None \<Rightarrow> None
      | Some ob \<Rightarrow> Some (s\<lparr>heap := (heap s)(p \<mapsto> f ob)\<rparr>))"

definition get_class :: "addr \<Rightarrow> State \<Rightarrow> RegionMD option" where
  "get_class p s = map_option cls (heap s p)"

definition is_trivial :: "addr \<Rightarrow> State \<Rightarrow> bool option" where
  "is_trivial p s = map_option (\<lambda>ob. trivial (descriptor ob)) (heap s p)"

definition obj_size :: "addr \<Rightarrow> State \<Rightarrow> size_t option" where
  "obj_size p s = map_option (\<lambda>ob. size_d (descriptor ob)) (heap s p)"

definition has_ext_ref :: "addr \<Rightarrow> State \<Rightarrow> bool option" where
  "has_ext_ref p s = map_option ext_ref (heap s p)"

definition get_next :: "addr \<Rightarrow> State \<Rightarrow> addr option" where
  "get_next p s =
     (case heap s p of None \<Rightarrow> None
      | Some ob \<Rightarrow> if cls ob = ISO then None else Some (next ob))"

definition get_next_any_mark :: "addr \<Rightarrow> State \<Rightarrow> addr option" where
  "get_next_any_mark p s = map_option next (heap s p)"

definition get_region :: "addr \<Rightarrow> State \<Rightarrow> addr option" where
  "get_region p s =
     (case heap s p of None \<Rightarrow> None
      | Some ob \<Rightarrow> if cls ob = ISO then Some (next ob) else None)"

definition init_next :: "addr \<Rightarrow> addr \<Rightarrow> State \<Rightarrow> State option" where
  "init_next p q = upd_obj p (\<lambda>ob. ob\<lparr>next := q, cls := UNMARKED\<rparr>)"

definition set_next :: "addr \<Rightarrow> addr \<Rightarrow> State \<Rightarrow> State option" where
  "set_next p q = upd_obj p (\<lambda>ob. ob\<lparr>next := q\<rparr>)"

definition init_iso :: "addr \<Rightarrow> State \<Rightarrow> State option" where
  "init_iso p = upd_obj p (\<lambda>ob. ob\<lparr>cls := ISO\<rparr>)"

definition set_region :: "addr \<Rightarrow> addr \<Rightarrow> State \<Rightarrow> State option" where
  "set_region p r s =
     (case heap s p of None \<Rightarrow> None
      | Some ob \<Rightarrow>
          if cls ob = ISO then Some (s\<lparr>heap := (heap s)(p \<mapsto> ob\<lparr>next := r\<rparr>)\<rparr>)
          else None)"

definition set_descriptor :: "addr \<Rightarrow> Descriptor \<Rightarrow> State \<Rightarrow> State option" where
  "set_descriptor p d = upd_obj p (\<lambda>ob. ob\<lparr>descriptor := d\<rparr>)"

definition obj_mark :: "addr \<Rightarrow> State \<Rightarrow> State option" where
  "obj_mark p = upd_obj p (\<lambda>ob. ob\<lparr>cls := MARKED\<rparr>)"

definition obj_unmark :: "addr \<Rightarrow> State \<Rightarrow> State option" where
  "obj_unmark p = upd_obj p (\<lambda>ob. ob\<lparr>cls := UNMARKED\<rparr>)"

text \<open>
  Modelled from the spec: the allocator (section 6) hands out memory that is not in
  use and frees it again. The address it returns is an argument of the model;
  fresh memory holds no reference yet.
\<close>

definition raw_object :: Object where
  "raw_object =
     \<lparr>descriptor = \<lparr>size_d = 0, finaliser = False, destructor = False, subregions = False\<rparr>,
      next = nullptr, cls = UNMARKED, flds = [], ext_ref = False\<rparr>"

definition Alloc_alloc :: "addr \<Rightarrow> State \<Rightarrow> State option" where
  "Alloc_alloc a s =
     (if a = nullptr \<or> heap s a \<noteq> None then None
      else Some (s\<lparr>heap := (heap s)(a \<mapsto> raw_object)\<rparr>))"

definition dealloc :: "addr \<Rightarrow> State \<Rightarrow> State option" where
  "dealloc p s =
     (case heap s p of None \<Rightarrow> None
      | Some ob \<Rightarrow> Some (s\<lparr>heap := (heap s)(p := None), events := events s @ [Dealloc p]\<rparr>))"

section \<open>Region metadata\<close>

definition upd_region :: "addr \<Rightarrow> (RegionTrace \<Rightarrow> RegionTrace) \<Rightarrow> State \<Rightarrow> State option" where
  "upd_region this f s =
     (case regions s this of None \<Rightarrow> None
      | Some r \<Rightarrow> Some (s\<lparr>regions := (regions s)(this \<mapsto> f r)\<rparr>))"

definition desc :: "size_t \<Rightarrow> Descriptor" where
  "desc sizeof_RegionTrace =
     \<lparr>size_d = sizeof_RegionTrace, finaliser = False, destructor = False, subregions = False\<rparr>"

text \<open>
  The constructor \<open>RegionTrace(Object* o)\<close>, run by placement new at \<open>this\<close>:
  both secondary anchors point at the metadata, the counters start at 0, the
  descriptor is stamped and the primary ring is \<open>this \<rightarrow> o\<close>.
\<close>

definition RegionTrace_init :: "size_t \<Rightarrow> addr \<Rightarrow> addr \<Rightarrow> State \<Rightarrow> State option" where
  "RegionTrace_init sizeof_RegionTrace this o' s = do {
     let s = s\<lparr>regions := (regions s)(this \<mapsto>
                \<lparr>next_not_root = this, last_not_root = this, current_memory_used = 0,
                 previous_memory_used = 0, hash_set = Map.empty, ext_refs = {}\<rparr>)\<rparr>;
     s \<leftarrow> set_descriptor this (desc sizeof_RegionTrace) s;
     init_next this o' s
   }"

definition use_memory :: "addr \<Rightarrow> size_t \<Rightarrow> State \<Rightarrow> State option" where
  "use_memory this sz =
     upd_region this (\<lambda>r. r\<lparr>current_memory_used := current_memory_used r + sz\<rparr>)"

text \<open>
  \<open>create\<close>: \<open>o'\<close> and \<open>p\<close> are the addresses the allocator returns for the object
  and for the metadata.
\<close>

definition create :: "size_t \<Rightarrow> Descriptor \<Rightarrow> addr \<Rightarrow> addr \<Rightarrow> State \<Rightarrow> (addr \<times> State) option" where
  "create sizeof_RegionTrace dsc o' p s = do {
     s \<leftarrow> Alloc_alloc o' s;
     s \<leftarrow> Alloc_alloc p s;
     s \<leftarrow> RegionTrace_init sizeof_RegionTrace p o' s;
     s \<leftarrow> use_memory p (size_d dsc) s;
     s \<leftarrow> set_descriptor o' dsc s;
     s \<leftarrow> init_iso o' s;
     s \<leftarrow> set_region o' p s;
     Some (o', s)
   }"

section \<open>Ring management\<close>

definition append :: "addr \<Rightarrow> addr \<Rightarrow> addr \<Rightarrow> State \<Rightarrow> State option" where
  "append this hd' tl' s = do {
     p \<leftarrow> get_next this s;
     ht \<leftarrow> is_trivial hd' s;
     pt \<leftarrow> is_trivial p s;
     if ht = pt then do {
       s \<leftarrow> init_next tl' p s;
       set_next this hd' s
     } else do {
       r \<leftarrow> regions s this;
       s \<leftarrow> init_next tl' (next_not_root r) s;
       s \<leftarrow> upd_region this (\<lambda>r. r\<lparr>next_not_root := hd'\<rparr>) s;
       if last_not_root r = this
       then upd_region this (\<lambda>r. r\<lparr>last_not_root := tl'\<rparr>) s
       else Some s
     }
   }"

text \<open>
  \<open>size_to_sizeclass\<close> and \<open>sizeclass_to_size\<close> belong to the allocator library;
  they are arguments of the model.
\<close>

definition merge_internal ::
  "(size_t \<Rightarrow> sizeclass_t) \<Rightarrow> (sizeclass_t \<Rightarrow> size_t) \<Rightarrow>
   addr \<Rightarrow> addr \<Rightarrow> addr \<Rightarrow> State \<Rightarrow> State option" where
  "merge_internal size_to_sizeclass sizeclass_to_size this o' other s = do {
     reg \<leftarrow> get_region o' s;
     s \<leftarrow> (if reg = other then Some s else None);
     head \<leftarrow> get_next other s;
     s \<leftarrow> (if head \<noteq> other then append this head o' s else Some s);
     ro \<leftarrow> regions s other;
     s \<leftarrow> (if next_not_root ro \<noteq> other
           then append this (next_not_root ro) (last_not_root ro) s else Some s);
     ro \<leftarrow> regions s other;
     s \<leftarrow> upd_region this
           (\<lambda>r. r\<lparr>current_memory_used := current_memory_used r + current_memory_used ro\<rparr>) s;
     ro \<leftarrow> regions s other;
     upd_region this
       (\<lambda>r. r\<lparr>previous_memory_used :=
               size_to_sizeclass (sizeclass_to_size (previous_memory_used ro) +
                                  sizeclass_to_size (previous_memory_used ro))\<rparr>) s
   }"


text \<open>
  \<open>swap_root_internal\<close>. The debug walk \<open>debug_is_in_region\<close> is the iterator of
  the region in its all-objects mode.
\<close>

definition iterator_incr :: "addr \<Rightarrow> addr \<Rightarrow> State \<Rightarrow> addr option" where
  "iterator_incr reg ptr s = do {
     q \<leftarrow> get_next_any_mark ptr s;
     if q \<noteq> reg then Some q
     else do {
       r \<leftarrow> regions s reg;
       if ptr \<noteq> last_not_root r \<and> next_not_root r \<noteq> reg then do {
         c \<leftarrow> get_class ptr s;
         _ \<leftarrow> assert (c = ISO);
         Some (next_not_root r)
       } else Some nullptr
     }
   }"

partial_function (option) debug_is_in_region_loop ::
  "addr \<Rightarrow> addr \<Rightarrow> addr \<Rightarrow> State \<Rightarrow> bool option" where
  "debug_is_in_region_loop this ptr o' s =
     (if ptr = nullptr then Some False
      else if ptr = o' then Some True
      else do {
        ptr \<leftarrow> iterator_incr this ptr s;
        debug_is_in_region_loop this ptr o' s
      })"

definition debug_is_in_region :: "addr \<Rightarrow> addr \<Rightarrow> State \<Rightarrow> bool option" where
  "debug_is_in_region this o' s = do {
     q \<leftarrow> get_next this s;
     debug_is_in_region_loop this (if q = this then nullptr else q) o' s
   }"

definition swap_root_internal :: "addr \<Rightarrow> addr \<Rightarrow> addr \<Rightarrow> State \<Rightarrow> State option" where
  "swap_root_internal this oroot nroot s = do {
     member \<leftarrow> debug_is_in_region this nroot s;
     _ \<leftarrow> assert member;
     ot \<leftarrow> is_trivial oroot s;
     nt \<leftarrow> is_trivial nroot s;
     (oroot, s) \<leftarrow>
       (if ot \<noteq> nt then do {
          r \<leftarrow> regions s this;
          ln \<leftarrow> get_next (last_not_root r) s;
          _ \<leftarrow> assert (ln = this);
          t \<leftarrow> get_next this s;
          s \<leftarrow> set_next this (next_not_root r) s;
          s \<leftarrow> upd_region this (\<lambda>r. r\<lparr>next_not_root := t\<rparr>) s;
          r \<leftarrow> regions s this;
          let t = last_not_root r;
          s \<leftarrow> upd_region this (\<lambda>r. r\<lparr>last_not_root := oroot\<rparr>) s;
          s \<leftarrow> init_next oroot this s;
          Some (t, s)
        } else Some (oroot, s));
     s \<leftarrow>
       (if oroot \<noteq> nroot then do {
          _ \<leftarrow> assert (oroot \<noteq> this);
          on \<leftarrow> get_next_any_mark oroot s;
          _ \<leftarrow> assert (on = this);
          nn \<leftarrow> get_next nroot s;
          _ \<leftarrow> assert (nn \<noteq> this);
          x \<leftarrow> get_next this s;
          y \<leftarrow> get_next nroot s;
          s \<leftarrow> init_next oroot x s;
          set_next this y s
        } else Some s);
     s \<leftarrow> init_iso nroot s;
     set_region nroot this s
   }"

text \<open>
  Modelled from the spec: \<open>debug_is_iso\<close> and \<open>debug_is_mutable\<close> of \<open>object.h\<close>
  test the class tag (ISO, and UNMARKED for an ordinary mutable member);
  \<open>is_type(desc())\<close> holds exactly of the metadata objects of trace regions.
\<close>

definition is_trace_region :: "addr \<Rightarrow> State \<Rightarrow> bool" where
  "is_trace_region r s \<longleftrightarrow> regions s r \<noteq> None"

definition get :: "addr \<Rightarrow> State \<Rightarrow> addr option" where
  "get o' s = do {
     c \<leftarrow> get_class o' s;
     _ \<leftarrow> assert (c = ISO);
     r \<leftarrow> get_region o' s;
     _ \<leftarrow> assert (is_trace_region r s);
     Some r
   }"

definition swap_root :: "addr \<Rightarrow> addr \<Rightarrow> State \<Rightarrow> State option" where
  "swap_root prev next' s = do {
     _ \<leftarrow> assert (prev \<noteq> next');
     c \<leftarrow> get_class prev s;
     _ \<leftarrow> assert (c = ISO);
     cn \<leftarrow> get_class next' s;
     _ \<leftarrow> assert (cn = UNMARKED);
     r \<leftarrow> get_region prev s;
     _ \<leftarrow> assert (r \<noteq> next');
     reg \<leftarrow> get prev s;
     swap_root_internal reg prev next' s
   }"

definition alloc :: "Descriptor \<Rightarrow> addr \<Rightarrow> addr \<Rightarrow> State \<Rightarrow> (addr \<times> State) option" where
  "alloc dsc in' o' s = do {
     reg \<leftarrow> get in' s;
     s \<leftarrow> Alloc_alloc o' s;
     s \<leftarrow> set_descriptor o' dsc s;
     s \<leftarrow> append reg o' o' s;
     s \<leftarrow> use_memory reg (size_d dsc) s;
     Some (o', s)
   }"

section \<open>Mark\<close>

text \<open>
  Modelled from the spec: \<open>Object::trace\<close> pushes the references the descriptor's
  trace function enumerates; \<open>Object::immutable\<close> resolves an SCC pointer to the root
  of its component in one step, through the header slot; \<open>RememberedSet::mark\<close> sets
  the mark of the entry and increments the counter of entries marked in this cycle
  (sections 4.4 and 6, glossary). The work list is a list with its top at the head.
\<close>

definition trace :: "addr \<Rightarrow> addr list \<Rightarrow> State \<Rightarrow> addr list option" where
  "trace p dfs s = map_option (\<lambda>ob. rev (flds ob) @ dfs) (heap s p)"

definition immutable :: "addr \<Rightarrow> State \<Rightarrow> addr option" where
  "immutable p s = map_option next (heap s p)"

definition RememberedSet_mark :: "addr \<Rightarrow> addr \<Rightarrow> size_t \<Rightarrow> State \<Rightarrow> (size_t \<times> State) option" where
  "RememberedSet_mark this p marked s = do {
     r \<leftarrow> regions s this;
     if hash_set r p = Some True then Some (marked, s)
     else do {
       s \<leftarrow> upd_region this (\<lambda>r. r\<lparr>hash_set := (hash_set r)(p \<mapsto> True)\<rparr>) s;
       Some (marked + 1, s)
     }
   }"

partial_function (option) mark_loop ::
  "addr \<Rightarrow> addr list \<Rightarrow> size_t \<Rightarrow> State \<Rightarrow> (size_t \<times> State) option" where
  "mark_loop this dfs marked s =
     (case dfs of
        [] \<Rightarrow> Some (marked, s)
      | p # dfs \<Rightarrow> do {
          c \<leftarrow> get_class p s;
          case c of
            ISO \<Rightarrow> mark_loop this dfs marked s
          | MARKED \<Rightarrow> mark_loop this dfs marked s
          | UNMARKED \<Rightarrow> do {
              s \<leftarrow> obj_mark p s;
              dfs \<leftarrow> trace p dfs s;
              mark_loop this dfs marked s
            }
          | SCC_PTR \<Rightarrow> do {
              p \<leftarrow> immutable p s;
              (marked, s) \<leftarrow> RememberedSet_mark this p marked s;
              mark_loop this dfs marked s
            }
          | RC \<Rightarrow> do {
              (marked, s) \<leftarrow> RememberedSet_mark this p marked s;
              mark_loop this dfs marked s
            }
          | COWN \<Rightarrow> do {
              (marked, s) \<leftarrow> RememberedSet_mark this p marked s;
              mark_loop this dfs marked s
            }
        })"

definition mark :: "addr \<Rightarrow> addr \<Rightarrow> addr list \<Rightarrow> size_t \<Rightarrow> State \<Rightarrow> (size_t \<times> State) option" where
  "mark this o' dfs marked s = do {
     dfs \<leftarrow> trace o' dfs s;
     mark_loop this dfs marked s
   }"

section \<open>Sweep\<close>

datatype RingKind = TrivialRing | NonTrivialRing

datatype SweepAll = Yes | No

text \<open>
  Modelled from the spec: the callbacks and tables that \<open>sweep\<close> calls are in
  \<open>object.h\<close> and \<open>region_base.h\<close>, not in the source tree. \<open>finalise\<close> and
  \<open>destructor\<close> run the descriptor's callbacks on an allocated object; a finaliser
  may read but not change the region, a destructor is pure teardown (section 9), so
  both only leave their event. \<open>find_iso_fields(o, f, collect)\<close> pushes onto
  \<open>collect\<close> every field that carries the ISO tag and is not the iso \<open>o\<close> of the
  region being swept: it traces the object into the work list \<open>f\<close> and pops the
  list empty, reading the header of each entry. \<open>ExternalReferenceTable::erase\<close> removes the entry of the object.
  \<open>sweep_set(marked)\<close> drops every entry that is not marked (section 4.4: "drop any
  entry not marked this cycle"), whatever the counter \<open>marked\<close> it is passed; an entry
  that stays starts the next cycle unmarked.
  \<open>RegionBase::dealloc\<close> frees the metadata object with its tables.
\<close>

definition finalise :: "addr \<Rightarrow> State \<Rightarrow> State option" where
  "finalise p s =
     (case heap s p of None \<Rightarrow> None
      | Some ob \<Rightarrow> Some (s\<lparr>events := events s @ [Finalise p]\<rparr>))"

definition obj_destructor :: "addr \<Rightarrow> State \<Rightarrow> State option" where
  "obj_destructor p s =
     (case heap s p of None \<Rightarrow> None
      | Some ob \<Rightarrow> Some (s\<lparr>events := events s @ [Destructor p]\<rparr>))"

fun push_iso_fields :: "addr \<Rightarrow> addr list \<Rightarrow> addr list \<Rightarrow> State \<Rightarrow> addr list option" where
  "push_iso_fields o' [] collect s = Some collect"
| "push_iso_fields o' (q # qs) collect s = do {
     c \<leftarrow> get_class q s;
     push_iso_fields o' qs (if c = ISO \<and> q \<noteq> o' then q # collect else collect) s
   }"

definition find_iso_fields ::
  "addr \<Rightarrow> addr \<Rightarrow> addr list \<Rightarrow> addr list \<Rightarrow> State \<Rightarrow> (addr list \<times> addr list \<times> State) option" where
  "find_iso_fields p o' f collect s = do {
     f \<leftarrow> trace p f s;
     collect \<leftarrow> push_iso_fields o' f collect s;
     Some ([], collect, s\<lparr>events := events s @ [FindIsoFields p]\<rparr>)
   }"

definition ExternalReferenceTable_erase :: "addr \<Rightarrow> addr \<Rightarrow> State \<Rightarrow> State option" where
  "ExternalReferenceTable_erase this p = upd_region this (\<lambda>r. r\<lparr>ext_refs := ext_refs r - {p}\<rparr>)"

definition sweep_set :: "addr \<Rightarrow> size_t \<Rightarrow> State \<Rightarrow> State option" where
  "sweep_set this marked s = do {
     s \<leftarrow> upd_region this
           (\<lambda>r. r\<lparr>hash_set :=
                   (\<lambda>a. if hash_set r a = Some True then Some False else None)\<rparr>) s;
     Some (s\<lparr>events := events s @ [SweepSet this marked]\<rparr>)
   }"

definition region_dealloc :: "addr \<Rightarrow> State \<Rightarrow> State option" where
  "region_dealloc this s =
     (case (heap s this, regions s this) of
        (Some ob, Some r) \<Rightarrow>
          Some (s\<lparr>heap := (heap s)(this := None), regions := (regions s)(this := None),
                  events := events s @ [Dealloc this]\<rparr>)
      | _ \<Rightarrow> None)"

text \<open>
  \<open>sweep_object\<close>: \<open>gc\<close> is the head of the list of objects awaiting destruction,
  passed by pointer in the source and returned here.
\<close>

definition sweep_object :: "RingKind \<Rightarrow> addr \<Rightarrow> addr \<Rightarrow> addr \<Rightarrow> State \<Rightarrow> (addr \<times> State) option" where
  "sweep_object ring this p gc s = do {
     c \<leftarrow> get_class p s;
     _ \<leftarrow> assert (c = ISO \<or> c = UNMARKED);
     t \<leftarrow> is_trivial p s;
     if ring = TrivialRing then do {
       _ \<leftarrow> assert t;
       e \<leftarrow> has_ext_ref p s;
       s \<leftarrow> (if e then ExternalReferenceTable_erase this p s else Some s);
       s \<leftarrow> dealloc p s;
       Some (gc, s)
     } else do {
       _ \<leftarrow> assert (\<not> t);
       s \<leftarrow> finalise p s;
       s \<leftarrow> init_next p gc s;
       Some (p, s)
     }
   }"

text \<open>
  One iteration of the \<open>while (p != this)\<close> loop of \<open>sweep_ring\<close>: the \<open>switch\<close> on
  the class of \<open>p\<close>, on the loop variables \<open>prev\<close>, \<open>p\<close>, \<open>gc\<close>.
\<close>

definition sweep_ring_body ::
  "RingKind \<Rightarrow> SweepAll \<Rightarrow> RingKind \<Rightarrow> addr \<Rightarrow> addr \<Rightarrow> addr \<Rightarrow> addr \<Rightarrow> State \<Rightarrow>
   (addr \<times> addr \<times> addr \<times> State) option" where
  "sweep_ring_body ring sweep_all primary_ring this prev p gc s = do {
     c \<leftarrow> get_class p s;
     case c of
       ISO \<Rightarrow> do {
         n \<leftarrow> get_next_any_mark p s;
         _ \<leftarrow> assert (n = this);
         rg \<leftarrow> get_region p s;
         _ \<leftarrow> assert (rg = this);
         (gc, s) \<leftarrow>
           (if sweep_all = Yes then sweep_object ring this p gc s
            else do {
              sz \<leftarrow> obj_size p s;
              s \<leftarrow> use_memory this sz s;
              Some (gc, s)
            });
         Some (prev, this, gc, s)
       }
     | MARKED \<Rightarrow> do {
         _ \<leftarrow> assert (sweep_all = No);
         sz \<leftarrow> obj_size p s;
         s \<leftarrow> use_memory this sz s;
         s \<leftarrow> obj_unmark p s;
         q \<leftarrow> get_next p s;
         Some (p, q, gc, s)
       }
     | UNMARKED \<Rightarrow> do {
         q \<leftarrow> get_next p s;
         (gc, s) \<leftarrow> sweep_object ring this p gc s;
         s \<leftarrow> (if ring \<noteq> primary_ring \<and> prev = this
               then upd_region this (\<lambda>r. r\<lparr>next_not_root := q\<rparr>) s
               else set_next prev q s);
         r \<leftarrow> regions s this;
         s \<leftarrow> (if ring \<noteq> primary_ring \<and> last_not_root r = p
               then upd_region this (\<lambda>r. r\<lparr>last_not_root := prev\<rparr>) s
               else Some s);
         Some (prev, q, gc, s)
       }
     | _ \<Rightarrow> None
   }"

partial_function (option) sweep_ring_loop ::
  "RingKind \<Rightarrow> SweepAll \<Rightarrow> RingKind \<Rightarrow> addr \<Rightarrow> addr \<Rightarrow> addr \<Rightarrow> addr \<Rightarrow> State \<Rightarrow>
   (addr \<times> State) option" where
  "sweep_ring_loop ring sweep_all primary_ring this prev p gc s =
     (if p = this then Some (gc, s)
      else do {
        (prev, p, gc, s) \<leftarrow> sweep_ring_body ring sweep_all primary_ring this prev p gc s;
        sweep_ring_loop ring sweep_all primary_ring this prev p gc s
      })"

text \<open>Phase A and phase B of the non-trivial pass, over the list headed by \<open>gc\<close>.\<close>

partial_function (option) find_iso_loop ::
  "addr \<Rightarrow> addr \<Rightarrow> addr list \<Rightarrow> addr list \<Rightarrow> State \<Rightarrow>
   (addr list \<times> addr list \<times> State) option" where
  "find_iso_loop p o' f collect s =
     (if p = nullptr then Some (f, collect, s)
      else do {
        (f, collect, s) \<leftarrow> find_iso_fields p o' f collect s;
        p \<leftarrow> get_next p s;
        find_iso_loop p o' f collect s
      })"

partial_function (option) destroy_loop :: "addr \<Rightarrow> State \<Rightarrow> State option" where
  "destroy_loop p s =
     (if p = nullptr then Some s
      else do {
        q \<leftarrow> get_next p s;
        s \<leftarrow> obj_destructor p s;
        s \<leftarrow> dealloc p s;
        destroy_loop q s
      })"

definition sweep_ring ::
  "RingKind \<Rightarrow> SweepAll \<Rightarrow> addr \<Rightarrow> addr \<Rightarrow> RingKind \<Rightarrow> addr list \<Rightarrow> addr list \<Rightarrow> State \<Rightarrow>
   (addr list \<times> addr list \<times> State) option" where
  "sweep_ring ring sweep_all this o' primary_ring f collect s = do {
     r \<leftarrow> regions s this;
     p \<leftarrow> (if ring = primary_ring then get_next this s else Some (next_not_root r));
     (gc, s) \<leftarrow> sweep_ring_loop ring sweep_all primary_ring this this p nullptr s;
     if ring = NonTrivialRing then do {
       (f, collect, s) \<leftarrow> find_iso_loop gc o' f collect s;
       s \<leftarrow> destroy_loop gc s;
       Some (f, collect, s)
     } else Some (f, collect, s)
   }"

definition sweep ::
  "(size_t \<Rightarrow> sizeclass_t) \<Rightarrow> SweepAll \<Rightarrow> addr \<Rightarrow> addr \<Rightarrow> addr list \<Rightarrow> addr list \<Rightarrow> size_t \<Rightarrow>
   State \<Rightarrow> (addr list \<times> addr list \<times> State) option" where
  "sweep size_to_sizeclass sweep_all this o' f collect marked s = do {
     s \<leftarrow> upd_region this (\<lambda>r. r\<lparr>current_memory_used := 0\<rparr>) s;
     t \<leftarrow> is_trivial o' s;
     let primary_ring = (if t then TrivialRing else NonTrivialRing);
     (f, collect, s) \<leftarrow> sweep_ring NonTrivialRing sweep_all this o' primary_ring f collect s;
     (f, collect, s) \<leftarrow> sweep_ring TrivialRing sweep_all this o' primary_ring f collect s;
     s \<leftarrow> sweep_set this marked s;
     s \<leftarrow> upd_region this
           (\<lambda>r. r\<lparr>previous_memory_used := size_to_sizeclass (current_memory_used r)\<rparr>) s;
     Some (f, collect, s)
   }"

definition release_internal ::
  "(size_t \<Rightarrow> sizeclass_t) \<Rightarrow> addr \<Rightarrow> addr \<Rightarrow> addr list \<Rightarrow> addr list \<Rightarrow> State \<Rightarrow>
   (addr list \<times> addr list \<times> State) option" where
  "release_internal size_to_sizeclass this o' f collect s = do {
     c \<leftarrow> get_class o' s;
     _ \<leftarrow> assert (c = ISO);
     (f, collect, s) \<leftarrow> sweep size_to_sizeclass Yes this o' f collect 0 s;
     s \<leftarrow> region_dealloc this s;
     Some (f, collect, s)
   }"

text \<open>
  \<open>gc\<close>. \<open>RegionArena\<close> is another kind of region, outside the source tree: its test
  \<open>is_arena_region\<close> and its \<open>release_internal\<close> are arguments of the model.
\<close>

partial_function (option) gc_loop ::
  "(size_t \<Rightarrow> sizeclass_t) \<Rightarrow> (addr \<Rightarrow> State \<Rightarrow> bool) \<Rightarrow>
   (addr \<Rightarrow> addr \<Rightarrow> addr list \<Rightarrow> addr list \<Rightarrow> State \<Rightarrow> (addr list \<times> addr list \<times> State) option) \<Rightarrow>
   addr \<Rightarrow> addr list \<Rightarrow> addr list \<Rightarrow> State \<Rightarrow> State option" where
  "gc_loop size_to_sizeclass is_arena_region arena_release_internal reg f collect s =
     (case collect of
        [] \<Rightarrow> Some s
      | o' # collect \<Rightarrow> do {
          c \<leftarrow> get_class o' s;
          _ \<leftarrow> assert (c = ISO);
          r \<leftarrow> get_region o' s;
          _ \<leftarrow> assert (r \<noteq> reg);
          (f, collect, s) \<leftarrow>
            (if is_trace_region r s then release_internal size_to_sizeclass r o' f collect s
             else if is_arena_region r s then arena_release_internal r o' f collect s
             else None);
          gc_loop size_to_sizeclass is_arena_region arena_release_internal reg f collect s
        })"

definition gc ::
  "(size_t \<Rightarrow> sizeclass_t) \<Rightarrow> (addr \<Rightarrow> State \<Rightarrow> bool) \<Rightarrow>
   (addr \<Rightarrow> addr \<Rightarrow> addr list \<Rightarrow> addr list \<Rightarrow> State \<Rightarrow> (addr list \<times> addr list \<times> State) option) \<Rightarrow>
   addr \<Rightarrow> State \<Rightarrow> State option" where
  "gc size_to_sizeclass is_arena_region arena_release_internal o' s = do {
     c \<leftarrow> get_class o' s;
     _ \<leftarrow> assert (c = ISO);
     rg \<leftarrow> get_region o' s;
     _ \<leftarrow> assert (is_trace_region rg s);
     reg \<leftarrow> get o' s;
     (marked, s) \<leftarrow> mark reg o' [] 0 s;
     (f, collect, s) \<leftarrow> sweep size_to_sizeclass No reg o' [] [] marked s;
     gc_loop size_to_sizeclass is_arena_region arena_release_internal reg f collect s
   }"

section \<open>Example states\<close>

text \<open>
  \<open>D_t\<close> is a trivial descriptor of size 8, \<open>D_nt\<close> a non-trivial one of size 24, as
  in the scenarios of the specification. \<open>empty_state\<close> has nothing allocated.
  \<open>ex_state\<close> holds one region, metadata at 10 and iso at 11 (non-trivial): its
  primary ring is 13, 11 and its secondary ring 12, 14; the iso refers to 12 only.
\<close>

definition D_t :: Descriptor where
  "D_t = \<lparr>size_d = 8, finaliser = False, destructor = False, subregions = False\<rparr>"

definition D_nt :: Descriptor where
  "D_nt = \<lparr>size_d = 24, finaliser = True, destructor = True, subregions = False\<rparr>"

definition empty_state :: State where
  "empty_state = \<lparr>heap = Map.empty, regions = Map.empty, events = []\<rparr>"

definition ex_heap :: "addr \<rightharpoonup> Object" where
  "ex_heap = [
     10 \<mapsto> \<lparr>descriptor = desc 64, next = 13, cls = UNMARKED, flds = [], ext_ref = False\<rparr>,
     11 \<mapsto> \<lparr>descriptor = D_nt, next = 10, cls = ISO, flds = [12], ext_ref = False\<rparr>,
     12 \<mapsto> \<lparr>descriptor = D_t, next = 14, cls = UNMARKED, flds = [], ext_ref = False\<rparr>,
     13 \<mapsto> \<lparr>descriptor = D_nt, next = 11, cls = UNMARKED, flds = [], ext_ref = False\<rparr>,
     14 \<mapsto> \<lparr>descriptor = D_t, next = 10, cls = UNMARKED, flds = [], ext_ref = False\<rparr>]"

definition ex_region :: RegionTrace where
  "ex_region = \<lparr>next_not_root = 12, last_not_root = 14, current_memory_used = 64,
     previous_memory_used = 5, hash_set = Map.empty, ext_refs = {}\<rparr>"

definition ex_state :: State where
  "ex_state = \<lparr>heap = ex_heap, regions = [10 \<mapsto> ex_region], events = []\<rparr>"

section \<open>Well-formed rings\<close>

text \<open>
  \<open>path h x as y\<close>: following \<open>next\<close> from \<open>x\<close> visits exactly the allocated objects
  \<open>as\<close>, in this order, and arrives at \<open>y\<close>.
\<close>

fun path :: "(addr \<rightharpoonup> Object) \<Rightarrow> addr \<Rightarrow> addr list \<Rightarrow> addr \<Rightarrow> bool" where
  "path h x [] y \<longleftrightarrow> x = y"
| "path h x (a # as) y \<longleftrightarrow>
     x = a \<and> (case h a of None \<Rightarrow> False | Some ob \<Rightarrow> path h (next ob) as y)"

text \<open>
  The layout of a trace region (section 3 of the specification): the primary ring
  leads from the metadata through the members \<open>ps\<close> to the iso and back, the
  secondary ring from \<open>next_not_root\<close> through \<open>ss\<close> back to the metadata, with
  \<open>last_not_root\<close> its last member (the metadata when it is empty). Members are
  UNMARKED, or MARKED during a collection.
\<close>

definition wf_rings :: "addr \<Rightarrow> addr \<Rightarrow> addr list \<Rightarrow> addr list \<Rightarrow> State \<Rightarrow> bool" where
  "wf_rings this o' ps ss s \<longleftrightarrow>
     (case (heap s this, regions s this) of
        (Some m, Some r) \<Rightarrow>
          cls m = UNMARKED \<and>
          path (heap s) (next m) (ps @ [o']) this \<and>
          path (heap s) (next_not_root r) ss this \<and>
          last_not_root r = last (this # ss) \<and>
          distinct (this # ps @ o' # ss) \<and>
          nullptr \<notin> set (this # ps @ o' # ss) \<and>
          get_class o' s = Some ISO \<and>
          list_all (\<lambda>a. get_class a s = Some UNMARKED \<or> get_class a s = Some MARKED) (ps @ ss)
      | _ \<Rightarrow> False)"

definition unmarked :: "addr list \<Rightarrow> State \<Rightarrow> bool" where
  "unmarked as s \<longleftrightarrow> list_all (\<lambda>a. get_class a s = Some UNMARKED) as"

definition ring_partition :: "addr \<Rightarrow> addr list \<Rightarrow> addr list \<Rightarrow> State \<Rightarrow> bool" where
  "ring_partition o' ps ss s \<longleftrightarrow>
     list_all (\<lambda>a. is_trivial a s = is_trivial o' s) ps \<and>
     list_all (\<lambda>a. is_trivial a s = map_option Not (is_trivial o' s)) ss"

text \<open>
  \<open>ex2_state\<close> adds a second region to \<open>ex_state\<close>: metadata at 20, trivial iso at
  21, primary ring 22, 21, no secondary ring.
\<close>

definition ex2_region :: RegionTrace where
  "ex2_region = \<lparr>next_not_root = 20, last_not_root = 20, current_memory_used = 16,
     previous_memory_used = 3, hash_set = Map.empty, ext_refs = {}\<rparr>"

definition ex2_state :: State where
  "ex2_state = \<lparr>heap = ex_heap(
       20 \<mapsto> \<lparr>descriptor = desc 64, next = 22, cls = UNMARKED, flds = [], ext_ref = False\<rparr>,
       21 \<mapsto> \<lparr>descriptor = D_t, next = 20, cls = ISO, flds = [22], ext_ref = False\<rparr>,
       22 \<mapsto> \<lparr>descriptor = D_t, next = 21, cls = UNMARKED, flds = [], ext_ref = False\<rparr>),
     regions = [10 \<mapsto> ex_region, 20 \<mapsto> ex2_region], events = []\<rparr>"

section \<open>Invariant of the sweep loop\<close>

text \<open>
  The members \<open>xs0\<close> of one ring lead from the start of the pass to \<open>e\<close> (the iso on
  the primary ring, the metadata on the secondary ring). \<open>sweep_pre\<close> is what the pass
  expects of the state \<open>s0\<close> it starts in; \<open>sweep_inv\<close> relates \<open>s0\<close> to the state
  \<open>s\<close> reached when the members \<open>done\<close> have been visited and \<open>todo\<close> lie ahead.
\<close>

definition sweep_pre ::
  "RingKind \<Rightarrow> SweepAll \<Rightarrow> RingKind \<Rightarrow> addr \<Rightarrow> addr \<Rightarrow> State \<Rightarrow> addr list \<Rightarrow> bool" where
  "sweep_pre ring sweep_all primary_ring this e s0 xs0 \<longleftrightarrow>
     distinct (this # xs0) \<and> e \<notin> set xs0 \<and> nullptr \<notin> set xs0 \<and>
     path (heap s0) (hd (xs0 @ [e])) xs0 e \<and>
     list_all (\<lambda>x. get_class x s0 = Some UNMARKED \<or>
                    (sweep_all = No \<and> get_class x s0 = Some MARKED)) xs0 \<and>
     list_all (\<lambda>x. is_trivial x s0 = Some (ring = TrivialRing)) xs0 \<and>
     (case (heap s0 this, regions s0 this) of
        (Some m0, Some r0) \<Rightarrow>
          (if ring = primary_ring then next m0 = hd (xs0 @ [e])
           else next_not_root r0 = hd (xs0 @ [e]) \<and> last_not_root r0 = last (this # xs0) \<and>
                e = this)
      | _ \<Rightarrow> False)"

definition sweep_inv ::
  "RingKind \<Rightarrow> RingKind \<Rightarrow> addr \<Rightarrow> addr \<Rightarrow> State \<Rightarrow> addr \<Rightarrow> addr list \<Rightarrow> addr list \<Rightarrow>
   addr \<Rightarrow> addr \<Rightarrow> addr \<Rightarrow> State \<Rightarrow> bool" where
  "sweep_inv ring primary_ring this e s0 g0 done todo prev p g s \<longleftrightarrow>
     (let dead = filter (\<lambda>x. get_class x s0 = Some UNMARKED) done;
          keep = filter (\<lambda>x. get_class x s0 = Some MARKED) done
      in
        p = hd (todo @ [e]) \<and> prev = last (this # keep) \<and>
        (\<forall>x. x \<notin> set done \<longrightarrow> x \<noteq> this \<longrightarrow> heap s x = heap s0 x) \<and>
        heap s this =
          (if ring = primary_ring
           then map_option (\<lambda>m. m\<lparr>next := hd (keep @ [p])\<rparr>) (heap s0 this)
           else heap s0 this) \<and>
        path (heap s) (hd (keep @ [p])) keep p \<and>
        list_all (\<lambda>x. \<exists>ob n. heap s0 x = Some ob \<and>
                         heap s x = Some (ob\<lparr>next := n, cls := UNMARKED\<rparr>)) keep \<and>
        (if ring = TrivialRing
         then list_all (\<lambda>x. heap s x = None) dead \<and> g = g0
         else path (heap s) g (rev dead) g0 \<and>
              list_all (\<lambda>x. \<exists>ob n. heap s0 x = Some ob \<and>
                         heap s x = Some (ob\<lparr>next := n, cls := UNMARKED\<rparr>)) dead) \<and>
        (case regions s0 this of
           None \<Rightarrow> False
         | Some r0 \<Rightarrow>
             regions s = (regions s0)(this \<mapsto>
               r0\<lparr>current_memory_used :=
                    current_memory_used r0 + sum_list (map (\<lambda>x. the (obj_size x s0)) keep),
                  next_not_root :=
                    (if ring \<noteq> primary_ring then hd (keep @ [p]) else next_not_root r0),
                  last_not_root :=
                    (if ring \<noteq> primary_ring \<and> todo = [] then last (this # keep)
                     else last_not_root r0),
                  ext_refs :=
                    (if ring = TrivialRing
                     then ext_refs r0 - {x \<in> set dead. has_ext_ref x s0 = Some True}
                     else ext_refs r0)\<rparr>)) \<and>
        events s = events s0 @ map (if ring = TrivialRing then Dealloc else Finalise) dead)"

text \<open>
  \<open>ring_events\<close> lists what one pass over a ring records for the objects \<open>dead\<close> it
  collects, in ring order: a trivial ring frees each at once; a non-trivial ring
  finalises them during the walk, then runs \<open>find_iso_fields\<close> on each (phase A) and
  then destructor and deallocation of each (phase B), both from the head of the
  pending list, which is the reverse of ring order.
\<close>

definition ring_events :: "RingKind \<Rightarrow> addr list \<Rightarrow> event list" where
  "ring_events ring dead =
     (if ring = TrivialRing then map Dealloc dead
      else map Finalise dead @ map FindIsoFields (rev dead) @
           concat (map (\<lambda>d. [Destructor d, Dealloc d]) (rev dead)))"

text \<open>
  \<open>loop_post\<close>: the state \<open>s2\<close> and the pending list \<open>g2\<close> when the ring walk of
  \<open>sweep_ring\<close> has ended, before phase A.
\<close>

definition loop_post ::
  "RingKind \<Rightarrow> SweepAll \<Rightarrow> RingKind \<Rightarrow> addr \<Rightarrow> addr \<Rightarrow> State \<Rightarrow> addr list \<Rightarrow> addr \<Rightarrow> State \<Rightarrow> bool" where
  "loop_post ring sweep_all primary_ring this e s0 xs0 g2 s2 \<longleftrightarrow>
     (let dead = filter (\<lambda>x. get_class x s0 = Some UNMARKED) xs0;
          keep = filter (\<lambda>x. get_class x s0 = Some MARKED) xs0;
          isod = (if sweep_all = Yes \<and> ring = primary_ring then [e] else [])
      in
        (\<forall>x. x \<notin> set xs0 \<longrightarrow> x \<noteq> this \<longrightarrow> x \<noteq> e \<longrightarrow> heap s2 x = heap s0 x) \<and>
        (e \<noteq> this \<longrightarrow> isod = [] \<longrightarrow> heap s2 e = heap s0 e) \<and>
        heap s2 this =
          (if ring = primary_ring
           then map_option (\<lambda>m. m\<lparr>next := hd (keep @ [e])\<rparr>) (heap s0 this)
           else heap s0 this) \<and>
        path (heap s2) (hd (keep @ [e])) keep e \<and>
        list_all (\<lambda>x. \<exists>ob n. heap s0 x = Some ob \<and>
                         heap s2 x = Some (ob\<lparr>next := n, cls := UNMARKED\<rparr>)) keep \<and>
        (if ring = TrivialRing
         then list_all (\<lambda>x. heap s2 x = None) (dead @ isod) \<and> g2 = nullptr
         else path (heap s2) g2 (rev (dead @ isod)) nullptr \<and>
              list_all (\<lambda>x. \<exists>ob n. heap s0 x = Some ob \<and>
                         heap s2 x = Some (ob\<lparr>next := n, cls := UNMARKED\<rparr>)) (dead @ isod)) \<and>
        (case regions s0 this of
           None \<Rightarrow> False
         | Some r0 \<Rightarrow>
             regions s2 = (regions s0)(this \<mapsto>
               r0\<lparr>current_memory_used :=
                    current_memory_used r0 + sum_list (map (\<lambda>x. the (obj_size x s0)) keep) +
                    (if ring = primary_ring \<and> sweep_all = No then the (obj_size e s0) else 0),
                  next_not_root :=
                    (if ring \<noteq> primary_ring then hd (keep @ [e]) else next_not_root r0),
                  last_not_root :=
                    (if ring \<noteq> primary_ring then last (this # keep) else last_not_root r0),
                  ext_refs :=
                    (if ring = TrivialRing
                     then ext_refs r0 - {x \<in> set (dead @ isod). has_ext_ref x s0 = Some True}
                     else ext_refs r0)\<rparr>)) \<and>
        events s2 =
          events s0 @ map (if ring = TrivialRing then Dealloc else Finalise) (dead @ isod))"

text \<open>
  \<open>ring_post\<close>: the state \<open>s'\<close> after \<open>sweep_ring\<close> on the ring with members \<open>xs0\<close>
  and end \<open>e\<close>, started in \<open>s0\<close>.
\<close>

definition ring_post ::
  "RingKind \<Rightarrow> SweepAll \<Rightarrow> RingKind \<Rightarrow> addr \<Rightarrow> addr \<Rightarrow> State \<Rightarrow> addr list \<Rightarrow> State \<Rightarrow> bool" where
  "ring_post ring sweep_all primary_ring this e s0 xs0 s' \<longleftrightarrow>
     (let dead = filter (\<lambda>x. get_class x s0 = Some UNMARKED) xs0;
          keep = filter (\<lambda>x. get_class x s0 = Some MARKED) xs0;
          isod = (if sweep_all = Yes \<and> ring = primary_ring then [e] else [])
      in
        (\<forall>x. x \<notin> set xs0 \<longrightarrow> x \<noteq> this \<longrightarrow> x \<noteq> e \<longrightarrow> heap s' x = heap s0 x) \<and>
        (e \<noteq> this \<longrightarrow>
           heap s' e = (if sweep_all = Yes \<and> ring = primary_ring then None else heap s0 e)) \<and>
        heap s' this =
          (if ring = primary_ring
           then map_option (\<lambda>m. m\<lparr>next := hd (keep @ [e])\<rparr>) (heap s0 this)
           else heap s0 this) \<and>
        path (heap s') (hd (keep @ [e])) keep e \<and>
        list_all (\<lambda>x. \<exists>ob n. heap s0 x = Some ob \<and>
                         heap s' x = Some (ob\<lparr>next := n, cls := UNMARKED\<rparr>)) keep \<and>
        list_all (\<lambda>x. heap s' x = None) dead \<and>
        (case regions s0 this of
           None \<Rightarrow> False
         | Some r0 \<Rightarrow>
             regions s' = (regions s0)(this \<mapsto>
               r0\<lparr>current_memory_used :=
                    current_memory_used r0 + sum_list (map (\<lambda>x. the (obj_size x s0)) keep) +
                    (if ring = primary_ring \<and> sweep_all = No then the (obj_size e s0) else 0),
                  next_not_root :=
                    (if ring \<noteq> primary_ring then hd (keep @ [e]) else next_not_root r0),
                  last_not_root :=
                    (if ring \<noteq> primary_ring then last (this # keep) else last_not_root r0),
                  ext_refs :=
                    (if ring = TrivialRing
                     then ext_refs r0 - {x \<in> set (dead @ isod). has_ext_ref x s0 = Some True}
                     else ext_refs r0)\<rparr>)) \<and>
        events s' = events s0 @ ring_events ring (dead @ isod))"

text \<open>
  \<open>fields_alloc\<close>: every reference the trace function of a listed object enumerates
  points at allocated memory. \<open>sweep_post\<close>: the state \<open>s'\<close> after \<open>sweep\<close> on the
  region with primary members \<open>ps\<close>, iso \<open>o'\<close> and secondary members \<open>ss\<close>, started in
  \<open>s\<close>.
\<close>

definition fields_alloc :: "addr list \<Rightarrow> State \<Rightarrow> bool" where
  "fields_alloc xs s \<longleftrightarrow>
     list_all (\<lambda>x. case heap s x of None \<Rightarrow> True
                   | Some ob \<Rightarrow> list_all (\<lambda>q. heap s q \<noteq> None) (flds ob)) xs"

definition sweep_post ::
  "(size_t \<Rightarrow> sizeclass_t) \<Rightarrow> SweepAll \<Rightarrow> addr \<Rightarrow> addr \<Rightarrow> addr list \<Rightarrow> addr list \<Rightarrow> size_t \<Rightarrow>
   State \<Rightarrow> State \<Rightarrow> bool" where
  "sweep_post size_to_sizeclass sweep_all this o' ps ss marked s s' \<longleftrightarrow>
     (let kP = filter (\<lambda>x. get_class x s = Some MARKED) ps;
          kS = filter (\<lambda>x. get_class x s = Some MARKED) ss;
          dP = filter (\<lambda>x. get_class x s = Some UNMARKED) ps @
               (if sweep_all = Yes then [o'] else []);
          dS = filter (\<lambda>x. get_class x s = Some UNMARKED) ss;
          pt = (is_trivial o' s = Some True);
          total = sum_list (map (\<lambda>x. the (obj_size x s)) kP) +
                  sum_list (map (\<lambda>x. the (obj_size x s)) kS) +
                  (if sweep_all = No then the (obj_size o' s) else 0)
      in
        (\<forall>x. x \<notin> set (this # ps @ o' # ss) \<longrightarrow> heap s' x = heap s x) \<and>
        heap s' o' = (if sweep_all = Yes then None else heap s o') \<and>
        heap s' this = map_option (\<lambda>m. m\<lparr>next := hd (kP @ [o'])\<rparr>) (heap s this) \<and>
        path (heap s') (hd (kP @ [o'])) kP o' \<and>
        path (heap s') (hd (kS @ [this])) kS this \<and>
        list_all (\<lambda>x. \<exists>ob n. heap s x = Some ob \<and>
                         heap s' x = Some (ob\<lparr>next := n, cls := UNMARKED\<rparr>)) (kP @ kS) \<and>
        list_all (\<lambda>x. heap s' x = None) (dP @ dS) \<and>
        (case regions s this of
           None \<Rightarrow> False
         | Some r \<Rightarrow>
             regions s' = (regions s)(this \<mapsto>
               r\<lparr>current_memory_used := total,
                 previous_memory_used := size_to_sizeclass total,
                 next_not_root := hd (kS @ [this]),
                 last_not_root := last (this # kS),
                 ext_refs := ext_refs r -
                   {x \<in> set (if pt then dP else dS). has_ext_ref x s = Some True},
                 hash_set :=
                   (\<lambda>a. if hash_set r a = Some True then Some False else None)\<rparr>)) \<and>
        events s' = events s @ ring_events NonTrivialRing (if pt then dS else dP) @
                    ring_events TrivialRing (if pt then dP else dS) @ [SweepSet this marked])"

text \<open>
  \<open>collected ring sweep_all o' ps ss s\<close>: the objects that the pass over \<open>ring\<close>
  collects, in the order in which the walk meets them: the UNMARKED members of the
  ring and, when the whole region is released, the iso at the end of its ring.
\<close>

definition collected :: "RingKind \<Rightarrow> SweepAll \<Rightarrow> addr \<Rightarrow> addr list \<Rightarrow> addr list \<Rightarrow> State \<Rightarrow> addr list" where
  "collected ring sweep_all o' ps ss s =
     (if (is_trivial o' s = Some True) = (ring = TrivialRing)
      then filter (\<lambda>x. get_class x s = Some UNMARKED) ps @ (if sweep_all = Yes then [o'] else [])
      else filter (\<lambda>x. get_class x s = Some UNMARKED) ss)"

text \<open>
  \<open>ex_marked\<close> is \<open>ex_state\<close> after marking: 12, the only object the iso refers to, is
  MARKED. \<open>ex_remembered\<close> is \<open>ex_state\<close> with two entries in the remembered set, one
  marked and one not.
\<close>

definition ex_marked :: State where
  "ex_marked = ex_state\<lparr>heap := ex_heap(
       12 \<mapsto> \<lparr>descriptor = D_t, next = 14, cls = MARKED, flds = [], ext_ref = False\<rparr>)\<rparr>"


section \<open>Reachability and the invariant of the mark loop\<close>

text \<open>
  \<open>reach s o' p\<close>: in the state \<open>s\<close> the object \<open>p\<close> is reachable from the iso \<open>o'\<close>
  by references that stay in the region. A reference is followed out of the iso and
  out of UNMARKED objects only, and only to an UNMARKED object or to an iso; an iso
  other than \<open>o'\<close> is the entry of a subregion and is not entered, and SCC pointers,
  RC objects and cowns are neither entered nor counted.
\<close>

inductive reach :: "State \<Rightarrow> addr \<Rightarrow> addr \<Rightarrow> bool" for s :: State and o' :: addr where
  reach_iso: "reach s o' o'"
| reach_field:
    "reach s o' p \<Longrightarrow> heap s p = Some ob \<Longrightarrow> p = o' \<or> cls ob = UNMARKED \<Longrightarrow>
     q \<in> set (flds ob) \<Longrightarrow> get_class q s = Some UNMARKED \<or> get_class q s = Some ISO \<Longrightarrow>
     reach s o' q"

text \<open>
  \<open>refs_alloc s o'\<close>: no object that \<open>mark\<close> traces holds a dangling reference.
  \<open>mark_inv this o' s0 dfs s\<close>: the state \<open>s\<close> and work list \<open>dfs\<close> of the mark loop
  started in \<open>s0\<close>. Only class tags of reachable objects have changed, from UNMARKED
  to MARKED; the work list holds references out of traced objects; every reference
  out of a traced object is on the work list or leads to an object that is not
  UNMARKED; of the region only the remembered set has changed.
\<close>

definition refs_alloc :: "State \<Rightarrow> addr \<Rightarrow> bool" where
  "refs_alloc s o' \<longleftrightarrow>
     (\<forall>p ob. reach s o' p \<longrightarrow> heap s p = Some ob \<longrightarrow> p = o' \<or> cls ob = UNMARKED \<longrightarrow>
        (\<forall>q\<in>set (flds ob). heap s q \<noteq> None))"

definition mark_inv :: "addr \<Rightarrow> addr \<Rightarrow> State \<Rightarrow> addr list \<Rightarrow> State \<Rightarrow> bool" where
  "mark_inv this o' s0 dfs s \<longleftrightarrow>
     (\<forall>p. heap s p = heap s0 p \<or>
          (\<exists>ob. heap s0 p = Some ob \<and> cls ob = UNMARKED \<and> reach s0 o' p \<and>
                heap s p = Some (ob\<lparr>cls := MARKED\<rparr>))) \<and>
     (\<forall>q\<in>set dfs. \<exists>p ob. reach s0 o' p \<and> heap s0 p = Some ob \<and>
          (p = o' \<or> cls ob = UNMARKED) \<and> q \<in> set (flds ob)) \<and>
     (\<forall>p ob. heap s0 p = Some ob \<longrightarrow>
          p = o' \<or> (cls ob = UNMARKED \<and> get_class p s = Some MARKED) \<longrightarrow>
          (\<forall>q\<in>set (flds ob). q \<in> set dfs \<or> get_class q s \<noteq> Some UNMARKED)) \<and>
     events s = events s0 \<and>
     (\<forall>x. x \<noteq> this \<longrightarrow> regions s x = regions s0 x) \<and>
     (case (regions s0 this, regions s this) of
        (Some r0, Some r) \<Rightarrow> r = r0\<lparr>hash_set := hash_set r\<rparr>
      | _ \<Rightarrow> False)"

section \<open>Regions between collections\<close>

text \<open>
  \<open>region_closed o' xs s\<close>: references inside the region stay inside it: an UNMARKED
  object reachable from the iso is one of the members \<open>xs\<close>. \<open>release_frame this o'
  xs s2 s1\<close>: from \<open>s2\<close> to \<open>s1\<close> the region with metadata \<open>this\<close> is left alone: its
  metadata fields, every allocated object among the metadata object, the iso and the
  members \<open>xs\<close>, and every object that the iso or a member refers to.
\<close>

definition region_closed :: "addr \<Rightarrow> addr list \<Rightarrow> State \<Rightarrow> bool" where
  "region_closed o' xs s \<longleftrightarrow>
     (\<forall>p. reach s o' p \<longrightarrow> get_class p s = Some UNMARKED \<longrightarrow> p \<in> set xs)"

definition release_frame :: "addr \<Rightarrow> addr \<Rightarrow> addr list \<Rightarrow> State \<Rightarrow> State \<Rightarrow> bool" where
  "release_frame this o' xs s2 s1 \<longleftrightarrow>
     regions s1 this = regions s2 this \<and>
     (\<forall>p\<in>set (this # o' # xs). \<forall>ob. heap s2 p = Some ob \<longrightarrow>
        heap s1 p = Some ob \<and>
        (p \<noteq> this \<longrightarrow> (\<forall>q\<in>set (flds ob). heap s1 q = heap s2 q)))"

text \<open>
  \<open>ex_gc\<close> is \<open>ex_state\<close> with the iso referring to 12 and 13: of the members only 14
  is unreachable.
\<close>

definition ex_gc :: State where
  "ex_gc = ex_state\<lparr>heap := ex_heap(
       11 \<mapsto> \<lparr>descriptor = D_nt, next = 10, cls = ISO, flds = [12, 13], ext_ref = False\<rparr>)\<rparr>"

section \<open>Subregions\<close>

text \<open>
  \<open>iso_refs o' s d\<close>: the references of the object \<open>d\<close> that \<open>find_iso_fields\<close> pushes
  onto \<open>collect\<close>: those to an iso other than \<open>o'\<close>. \<open>pushed_isos sweep_all o' ps ss s\<close>:
  what a \<open>sweep\<close> of the region pushes in all, the first collected object's references
  on top.
\<close>

definition iso_refs :: "addr \<Rightarrow> State \<Rightarrow> addr \<Rightarrow> addr list" where
  "iso_refs o' s d =
     (case heap s d of None \<Rightarrow> []
      | Some ob \<Rightarrow> filter (\<lambda>q. get_class q s = Some ISO \<and> q \<noteq> o') (flds ob))"

definition pushed_isos :: "SweepAll \<Rightarrow> addr \<Rightarrow> addr list \<Rightarrow> addr list \<Rightarrow> State \<Rightarrow> addr list" where
  "pushed_isos sweep_all o' ps ss s =
     concat (map (iso_refs o' s) (collected NonTrivialRing sweep_all o' ps ss s))"

text \<open>
  A trace region is written \<open>(this, o', ps, ss)\<close>: its metadata, its iso and the
  members of its primary and secondary ring. \<open>region_ok s X\<close>: in \<open>s\<close> the region \<open>X\<close>
  is intact and ready for release: its rings are well formed and partitioned, none
  of its members is marked, and none of its objects holds a dangling reference.
  \<open>region_kids s X\<close>: the isos that the release of \<open>X\<close> pushes onto \<open>collect\<close>.
\<close>

type_synonym region = "addr \<times> addr \<times> addr list \<times> addr list"

definition region_meta :: "region \<Rightarrow> addr" where
  "region_meta X = fst X"

definition region_iso :: "region \<Rightarrow> addr" where
  "region_iso X = fst (snd X)"

definition region_members :: "region \<Rightarrow> addr list" where
  "region_members X = (case X of (this, o', ps, ss) \<Rightarrow> ps @ o' # ss)"

definition region_objs :: "region \<Rightarrow> addr set" where
  "region_objs X = insert (region_meta X) (set (region_members X))"

definition region_ok :: "State \<Rightarrow> region \<Rightarrow> bool" where
  "region_ok s X =
     (case X of (this, o', ps, ss) \<Rightarrow>
        wf_rings this o' ps ss s \<and> ring_partition o' ps ss s \<and> unmarked (ps @ ss) s \<and>
        fields_alloc (ps @ o' # ss) s)"

definition region_kids :: "State \<Rightarrow> region \<Rightarrow> addr list" where
  "region_kids s X = (case X of (this, o', ps, ss) \<Rightarrow> pushed_isos Yes o' ps ss s)"

text \<open>
  \<open>forest T c s\<close>: the trace regions \<open>T\<close> are the subregions, at any depth, that the
  isos on the stack \<open>c\<close> stand for. The regions are intact and pairwise disjoint.
  Every iso on \<open>c\<close> and every iso that the release of a region of \<open>T\<close> will push is
  the iso of a region of \<open>T\<close>, and no iso occurs twice among them: a subregion has
  one owner. An object of one region refers into another region of \<open>T\<close> only by
  such an owning reference to its iso.
\<close>

definition forest :: "region list \<Rightarrow> addr list \<Rightarrow> State \<Rightarrow> bool" where
  "forest T c s \<longleftrightarrow>
     list_all (region_ok s) T \<and>
     distinct T \<and>
     (\<forall>X\<in>set T. \<forall>Y\<in>set T. X \<noteq> Y \<longrightarrow> region_objs X \<inter> region_objs Y = {}) \<and>
     distinct (c @ concat (map (region_kids s) T)) \<and>
     set (c @ concat (map (region_kids s) T)) \<subseteq> region_iso ` set T \<and>
     (\<forall>X\<in>set T. \<forall>Y\<in>set T. X \<noteq> Y \<longrightarrow>
        (\<forall>x\<in>set (region_members X). \<forall>ob. heap s x = Some ob \<longrightarrow>
           (\<forall>q\<in>set (flds ob). q \<in> region_objs Y \<longrightarrow> q \<in> set (region_kids s X))))"

text \<open>
  \<open>gc_kids o' ps ss s\<close>: the isos that the sweep of \<open>gc\<close> pushes: the iso references
  of the unreachable members of the non-trivial ring. \<open>subregions this o' ps ss T s\<close>:
  \<open>T\<close> holds the unreachable subregions of the region \<open>(this, o', ps, ss)\<close>: they form
  a forest below \<open>gc_kids\<close>, they are disjoint from the region, their objects do not
  refer back into it, and no reachable object of the region refers into them.
\<close>

definition gc_kids :: "addr \<Rightarrow> addr list \<Rightarrow> addr list \<Rightarrow> State \<Rightarrow> addr list" where
  "gc_kids o' ps ss s =
     concat (map (iso_refs o' s)
       (filter (\<lambda>x. \<not> reach s o' x) (if is_trivial o' s = Some True then ss else ps)))"

definition subregions ::
  "addr \<Rightarrow> addr \<Rightarrow> addr list \<Rightarrow> addr list \<Rightarrow> region list \<Rightarrow> State \<Rightarrow> bool" where
  "subregions this o' ps ss T s \<longleftrightarrow>
     forest T (gc_kids o' ps ss s) s \<and>
     (\<forall>X\<in>set T. region_objs X \<inter> set (this # ps @ o' # ss) = {}) \<and>
     (\<forall>X\<in>set T. \<forall>x\<in>set (region_members X). \<forall>ob. heap s x = Some ob \<longrightarrow>
        set (flds ob) \<inter> set (this # ps @ o' # ss) = {}) \<and>
     (\<forall>x\<in>set (o' # ps @ ss). reach s o' x \<longrightarrow>
        (\<forall>ob. heap s x = Some ob \<longrightarrow> (\<forall>X\<in>set T. set (flds ob) \<inter> region_objs X = {})))"

text \<open>
  \<open>ex_forest\<close> is \<open>ex_state\<close> with two more regions. The member 13, which the iso
  does not reach, owns the region with metadata 20 and non-trivial iso 21, and 21
  owns the region with metadata 30, trivial iso 31 and member 32. \<open>ex_subs\<close> lists
  these two regions.
\<close>

definition sub_region :: "addr \<Rightarrow> RegionTrace" where
  "sub_region this = \<lparr>next_not_root = this, last_not_root = this, current_memory_used = 0,
     previous_memory_used = 0, hash_set = Map.empty, ext_refs = {}\<rparr>"

definition ex_forest :: State where
  "ex_forest = \<lparr>heap = ex_heap(
       13 \<mapsto> \<lparr>descriptor = D_nt, next = 11, cls = UNMARKED, flds = [21], ext_ref = False\<rparr>,
       20 \<mapsto> \<lparr>descriptor = desc 64, next = 21, cls = UNMARKED, flds = [], ext_ref = False\<rparr>,
       21 \<mapsto> \<lparr>descriptor = D_nt, next = 20, cls = ISO, flds = [31], ext_ref = False\<rparr>,
       30 \<mapsto> \<lparr>descriptor = desc 64, next = 32, cls = UNMARKED, flds = [], ext_ref = False\<rparr>,
       31 \<mapsto> \<lparr>descriptor = D_t, next = 30, cls = ISO, flds = [], ext_ref = False\<rparr>,
       32 \<mapsto> \<lparr>descriptor = D_t, next = 31, cls = UNMARKED, flds = [], ext_ref = False\<rparr>),
     regions = [10 \<mapsto> ex_region, 20 \<mapsto> sub_region 20, 30 \<mapsto> sub_region 30],
     events = []\<rparr>"

definition ex_subs :: "region list" where
  "ex_subs = [(20, 21, [], []), (30, 31, [32], [])]"

section \<open>Basic facts\<close>

lemmas obj_defs = get_class_def is_trivial_def obj_size_def has_ext_ref_def get_next_def
  get_next_any_mark_def get_region_def init_next_def set_next_def init_iso_def set_region_def
  set_descriptor_def obj_mark_def obj_unmark_def upd_obj_def

lemma upd_obj_regions: "upd_obj p f s = Some s' \<Longrightarrow> regions s' = regions s"
  by (auto simp: upd_obj_def split: option.splits)

section \<open>create\<close>

text \<open>
  C9: \<open>create\<close> returns the object \<open>o'\<close> as the sole member of the primary ring of
  the new region: its slot points at the fresh metadata \<open>p\<close> and the metadata's
  \<open>next\<close> at \<open>o'\<close>; the secondary ring is empty (both anchors are the metadata);
  \<open>o'\<close> carries the ISO tag and its region back-reference is the metadata; the
  memory counter is the size of the descriptor.
\<close>

theorem create_sole_member:
  assumes "o' \<noteq> nullptr" "p \<noteq> nullptr" "o' \<noteq> p" "heap s o' = None" "heap s p = None"
  shows "\<exists>s'. create sz dsc o' p s = Some (o', s') \<and>
     get_next_any_mark o' s' = Some p \<and> get_next p s' = Some o' \<and>
     get_class o' s' = Some ISO \<and> get_region o' s' = Some p \<and>
     map_option descriptor (heap s' o') = Some dsc \<and>
     map_option next_not_root (regions s' p) = Some p \<and>
     map_option last_not_root (regions s' p) = Some p \<and>
     map_option current_memory_used (regions s' p) = Some (size_d dsc)"
  using assms
  by (simp add: create_def Alloc_alloc_def RegionTrace_init_def use_memory_def upd_region_def obj_defs)

section \<open>append\<close>


lemma append_eval:
  assumes "heap s this = Some m" "cls m \<noteq> ISO" "heap s hd' = Some h" "heap s (next m) = Some pob"
    "heap s tl' = Some t" "regions s this = Some r" "tl' \<noteq> this"
  shows "append this hd' tl' s = Some
    (if trivial (descriptor h) = trivial (descriptor pob)
     then s\<lparr>heap := (heap s)(tl' \<mapsto> t\<lparr>next := next m, cls := UNMARKED\<rparr>, this \<mapsto> m\<lparr>next := hd'\<rparr>)\<rparr>
     else s\<lparr>heap := (heap s)(tl' \<mapsto> t\<lparr>next := next_not_root r, cls := UNMARKED\<rparr>),
            regions := (regions s)(this \<mapsto> r\<lparr>next_not_root := hd',
               last_not_root := (if last_not_root r = this then tl' else last_not_root r)\<rparr>)\<rparr>)"
  using assms
  by (simp add: append_def upd_region_def obj_defs)

text \<open>
  C8: \<open>append(hd, tl)\<close> splices the chain right after the metadata of exactly one
  ring. If \<open>hd\<close> is as trivial as the current \<open>metadata.next\<close>, \<open>tl.next\<close> becomes the
  old \<open>metadata.next\<close> and \<open>metadata.next\<close> becomes \<open>hd\<close>, the secondary anchors
  staying as they are; otherwise \<open>tl.next\<close> becomes the old \<open>next_not_root\<close>,
  \<open>next_not_root\<close> becomes \<open>hd\<close>, and \<open>last_not_root\<close> becomes \<open>tl\<close> if it was the
  metadata, the primary ring staying as it is.
\<close>

theorem append_splices:
  assumes "heap s this = Some m" "cls m \<noteq> ISO" "heap s hd' = Some h" "heap s (next m) = Some pob"
    "heap s tl' = Some t" "regions s this = Some r" "tl' \<noteq> this"
  shows "append this hd' tl' s = Some
    (if trivial (descriptor h) = trivial (descriptor pob)
     then s\<lparr>heap := (heap s)(tl' \<mapsto> t\<lparr>next := next m, cls := UNMARKED\<rparr>, this \<mapsto> m\<lparr>next := hd'\<rparr>)\<rparr>
     else s\<lparr>heap := (heap s)(tl' \<mapsto> t\<lparr>next := next_not_root r, cls := UNMARKED\<rparr>),
            regions := (regions s)(this \<mapsto> r\<lparr>next_not_root := hd',
               last_not_root := (if last_not_root r = this then tl' else last_not_root r)\<rparr>)\<rparr>)"
  using assms by (rule append_eval)

section \<open>merge_internal\<close>

lemma append_pmu:
  assumes "append this h t s = Some s'"
  shows "map_option previous_memory_used (regions s' x) = map_option previous_memory_used (regions s x)"
  using assms
  by (auto simp: append_def upd_region_def init_next_def set_next_def bind_eq_Some_conv
      dest!: upd_obj_regions split: if_splits option.splits)

lemma merge_internal_pmu:
  assumes "merge_internal s2sc sc2s this o' other s = Some s'" "regions s other = Some ro"
  shows "\<exists>r'. regions s' this = Some r' \<and>
     previous_memory_used r' = s2sc (sc2s (previous_memory_used ro) + sc2s (previous_memory_used ro))"
proof -
  from assms(1) obtain reg s0 s1 s2 s3 head ro2 ro3 ro4 where
    a0: "(if reg = other then Some s else None) = Some s0" and
    a1: "(if head \<noteq> other then append this head o' s0 else Some s0) = Some s1" and
    r2: "regions s1 other = Some ro2" and
    a2: "(if next_not_root ro2 \<noteq> other
           then append this (next_not_root ro2) (last_not_root ro2) s1 else Some s1) = Some s2" and
    r3: "regions s2 other = Some ro3" and
    u3: "upd_region this (\<lambda>r. r\<lparr>current_memory_used := current_memory_used r + current_memory_used ro3\<rparr>) s2 = Some s3" and
    r4: "regions s3 other = Some ro4" and
    u4: "upd_region this (\<lambda>r. r\<lparr>previous_memory_used :=
               s2sc (sc2s (previous_memory_used ro4) + sc2s (previous_memory_used ro4))\<rparr>) s3 = Some s'"
    unfolding merge_internal_def bind_eq_Some_conv by blast
  from a0 have s0: "s0 = s" by (simp split: if_splits)
  have p1: "map_option previous_memory_used (regions s1 other) = Some (previous_memory_used ro)"
    using a1 assms(2) append_pmu[of this head o' s s1 other] unfolding s0 by (auto split: if_splits)
  have p2: "map_option previous_memory_used (regions s2 other) = Some (previous_memory_used ro)"
    using a2 p1 append_pmu[of this "next_not_root ro2" "last_not_root ro2" s1 s2 other]
    by (auto split: if_splits)
  have p3: "previous_memory_used ro4 = previous_memory_used ro"
    using u3 p2 r4 by (auto simp: upd_region_def split: option.splits if_splits)
  show ?thesis using u4 unfolding p3 upd_region_def by (auto split: option.splits)
qed

section \<open>Rings\<close>


lemma path_append: "path h x (as @ bs) z \<longleftrightarrow> (\<exists>y. path h x as y \<and> path h y bs z)"
  by (induction as arbitrary: x) (auto split: option.splits)

lemma path_cong:
  "(\<And>a. a \<in> set as \<Longrightarrow> map_option next (h' a) = map_option next (h a)) \<Longrightarrow>
   path h' x as y = path h x as y"
proof (induction as arbitrary: x)
  case Nil
  then show ?case by simp
next
  case (Cons a as)
  have "map_option next (h' a) = map_option next (h a)" using Cons.prems by simp
  moreover have "\<And>z. path h' z as y = path h z as y" using Cons by simp
  ultimately show ?case by (cases "h a"; cases "h' a") auto
qed

lemma path_upd: "u \<notin> set as \<Longrightarrow> path (h(u := v)) x as y = path h x as y"
  by (rule path_cong) auto

lemma path_hd: "path h x as y \<Longrightarrow> as \<noteq> [] \<Longrightarrow> hd as = x"
  by (cases as) auto

lemma path_allocated: "path h x as y \<Longrightarrow> a \<in> set as \<Longrightarrow> \<exists>ob. h a = Some ob"
  by (induction as arbitrary: x) (auto split: option.splits)

lemma path_self_empty: "path h x as x \<Longrightarrow> x \<notin> set as \<Longrightarrow> as = []"
  by (cases as) auto

lemma path_split:
  "path h x (as @ b # bs) y \<Longrightarrow>
     \<exists>ob. h b = Some ob \<and> path h x as b \<and> path h (next ob) bs y"
  by (auto simp: path_append split: option.splits)

lemma secondary_walk:
  assumes "path (heap s) p xs this" "xs \<noteq> []" "this \<notin> set xs" "nullptr \<notin> set xs"
    "regions s this = Some r" "last_not_root r = last xs"
  shows "debug_is_in_region_loop this p o' s = Some (o' \<in> set xs)"
  using assms
proof (induction xs arbitrary: p)
  case Nil
  then show ?case by simp
next
  case (Cons a xs)
  then obtain ob where ob: "p = a" "heap s a = Some ob" "path (heap s) (next ob) xs this"
    by (auto split: option.splits)
  show ?case
  proof (cases "xs = []")
    case True
    then show ?thesis using ob Cons.prems
      by (subst debug_is_in_region_loop.simps, subst debug_is_in_region_loop.simps)
         (auto simp: iterator_incr_def get_next_any_mark_def)
  next
    case False
    then have "next ob \<noteq> this" using ob Cons.prems by (cases xs) auto
    moreover have "debug_is_in_region_loop this (next ob) o' s = Some (o' \<in> set xs)"
      using Cons.IH[OF ob(3) False] Cons.prems False by auto
    ultimately show ?thesis using ob Cons.prems
      by (subst debug_is_in_region_loop.simps)
         (auto simp: iterator_incr_def get_next_any_mark_def)
  qed
qed


lemma wf_ringsD:
  assumes "wf_rings this o' ps ss s"
  obtains m r where "heap s this = Some m" "regions s this = Some r" "cls m = UNMARKED"
    "path (heap s) (next m) (ps @ [o']) this" "path (heap s) (next_not_root r) ss this"
    "last_not_root r = last (this # ss)" "distinct (this # ps @ o' # ss)"
    "nullptr \<notin> set (this # ps @ o' # ss)" "get_class o' s = Some ISO"
    "list_all (\<lambda>a. get_class a s = Some UNMARKED \<or> get_class a s = Some MARKED) (ps @ ss)"
  using assms unfolding wf_rings_def by (auto split: option.splits)

lemma primary_walk:
  assumes "path (heap s) p (xs @ [o']) this" "this \<notin> set (xs @ [o'])"
    "nullptr \<notin> set (xs @ o' # ss)" "regions s this = Some r"
    "path (heap s) (next_not_root r) ss this" "last_not_root r = last (this # ss)"
    "this \<notin> set ss" "o' \<notin> set ss" "get_class o' s = Some ISO"
  shows "debug_is_in_region_loop this p x s = Some (x \<in> set xs \<union> {o'} \<union> set ss)"
  using assms
proof (induction xs arbitrary: p)
  case Nil
  then obtain iob where ob: "p = o'" "heap s o' = Some iob" "next iob = this"
    by (auto split: option.splits)
  show ?case
  proof (cases "ss = []")
    case True
    then have "next_not_root r = this" using Nil.prems by simp
    then show ?thesis using ob Nil.prems True
      by (subst debug_is_in_region_loop.simps, subst debug_is_in_region_loop.simps)
         (auto simp: iterator_incr_def get_next_any_mark_def)
  next
    case False
    have nn: "next_not_root r \<noteq> this" using Nil.prems False by (cases ss) auto
    have ln: "last_not_root r \<noteq> o'" using Nil.prems False by auto
    have sw: "debug_is_in_region_loop this (next_not_root r) x s = Some (x \<in> set ss)"
      using secondary_walk[of s "next_not_root r" ss this r x] Nil.prems False by auto
    show ?thesis using ob Nil.prems nn ln sw
      by (subst debug_is_in_region_loop.simps)
         (auto simp: iterator_incr_def get_next_any_mark_def assert_def)
  qed
next
  case (Cons a xs)
  then obtain ob where ob: "p = a" "heap s a = Some ob" "path (heap s) (next ob) (xs @ [o']) this"
    by (auto split: option.splits)
  have "next ob \<noteq> this" using ob(3) Cons.prems(2) by (cases xs) auto
  moreover have "debug_is_in_region_loop this (next ob) x s = Some (x \<in> set xs \<union> {o'} \<union> set ss)"
    using Cons.IH[OF ob(3)] Cons.prems by auto
  ultimately show ?case using ob Cons.prems
    by (subst debug_is_in_region_loop.simps)
       (auto simp: iterator_incr_def get_next_any_mark_def)
qed

lemma debug_is_in_region_wf:
  assumes "wf_rings this o' ps ss s"
  shows "debug_is_in_region this x s = Some (x \<in> set ps \<union> {o'} \<union> set ss)"
proof -
  from assms obtain m r where f: "heap s this = Some m" "regions s this = Some r" "cls m = UNMARKED"
    "path (heap s) (next m) (ps @ [o']) this" "path (heap s) (next_not_root r) ss this"
    "last_not_root r = last (this # ss)" "distinct (this # ps @ o' # ss)"
    "nullptr \<notin> set (this # ps @ o' # ss)" "get_class o' s = Some ISO"
    by (rule wf_ringsD)
  have "next m \<noteq> this" using f(4,7) by (cases ps) auto
  moreover have "debug_is_in_region_loop this (next m) x s = Some (x \<in> set ps \<union> {o'} \<union> set ss)"
    using primary_walk[OF f(4) _ _ f(2) f(5) f(6) _ _ f(9)] f(7,8) by auto
  ultimately show ?thesis using f(1,3) by (simp add: debug_is_in_region_def get_next_def)
qed


lemma path_last_next:
  "path h x (as @ [a]) y \<Longrightarrow> \<exists>ob. h a = Some ob \<and> next ob = y \<and> path h x as a"
  by (auto simp: path_append split: option.splits)

lemma path_nonempty_start: "path h x as y \<Longrightarrow> y \<notin> set as \<Longrightarrow> as \<noteq> [] \<Longrightarrow> x \<noteq> y"
  by (cases as) auto

lemma swap_same:
  assumes wf: "wf_rings this o' (xs @ nroot # ys) ss s"
    and tr: "is_trivial o' s = is_trivial nroot s"
    and hp: "heap s this = Some m" "heap s o' = Some iob" "heap s nroot = Some nob"
  shows "swap_root_internal this o' nroot s = Some
    (s\<lparr>heap := (heap s)(o' \<mapsto> iob\<lparr>next := next m, cls := UNMARKED\<rparr>,
           this \<mapsto> m\<lparr>next := next nob\<rparr>, nroot \<mapsto> nob\<lparr>cls := ISO, next := this\<rparr>)\<rparr>)"
proof -
  from wf obtain m' r where f: "heap s this = Some m'" "regions s this = Some r" "cls m' = UNMARKED"
    "path (heap s) (next m') ((xs @ nroot # ys) @ [o']) this"
    "distinct (this # (xs @ nroot # ys) @ o' # ss)"
    "list_all (\<lambda>a. get_class a s = Some UNMARKED \<or> get_class a s = Some MARKED) ((xs @ nroot # ys) @ ss)"
    by (rule wf_ringsD)
  have m: "m' = m" using f(1) hp(1) by simp
  have mem: "debug_is_in_region this nroot s = Some True"
    using debug_is_in_region_wf[OF wf, of nroot] by simp
  from path_last_next[OF f(4)] hp(2) have io: "next iob = this" by auto
  have "path (heap s) (next m) (xs @ nroot # (ys @ [o'])) this" using f(4) m by simp
  from path_split[OF this] hp(3) have ny: "path (heap s) (next nob) (ys @ [o']) this" by auto
  have nn: "next nob \<noteq> this" using path_nonempty_start[OF ny] f(5) by auto
  have nc: "cls nob \<noteq> ISO" using f(6) hp(3) by (auto simp: get_class_def)
  have ne: "o' \<noteq> nroot" "o' \<noteq> this" "nroot \<noteq> this" using f(5) by auto
  show ?thesis
    using mem tr hp io nn nc ne f(3) m
    by (simp add: swap_root_internal_def assert_def obj_defs)
qed


lemma get_class_upd [simp]:
  "get_class a (s\<lparr>heap := h\<rparr>) = map_option cls (h a)"
  by (simp add: get_class_def)

lemma swap_same_wf:
  assumes wf: "wf_rings this o' (xs @ nroot # ys) ss s"
    and hp: "heap s this = Some m" "heap s o' = Some iob" "heap s nroot = Some nob"
  shows "wf_rings this nroot (ys @ o' # xs) ss
    (s\<lparr>heap := (heap s)(o' \<mapsto> iob\<lparr>next := next m, cls := UNMARKED\<rparr>,
           this \<mapsto> m\<lparr>next := next nob\<rparr>, nroot \<mapsto> nob\<lparr>cls := ISO, next := this\<rparr>)\<rparr>)"
proof -
  from wf obtain m' r where f: "heap s this = Some m'" "regions s this = Some r" "cls m' = UNMARKED"
    "path (heap s) (next m') ((xs @ nroot # ys) @ [o']) this"
    "path (heap s) (next_not_root r) ss this"
    "last_not_root r = last (this # ss)"
    "distinct (this # (xs @ nroot # ys) @ o' # ss)"
    "nullptr \<notin> set (this # (xs @ nroot # ys) @ o' # ss)" "get_class o' s = Some ISO"
    "list_all (\<lambda>a. get_class a s = Some UNMARKED \<or> get_class a s = Some MARKED) ((xs @ nroot # ys) @ ss)"
    by (rule wf_ringsD)
  have m: "m' = m" using f(1) hp(1) by simp
  have "path (heap s) (next m) (xs @ nroot # (ys @ [o'])) this" using f(4) m by simp
  from path_split[OF this] hp(3)
  have px: "path (heap s) (next m) xs nroot" and ny: "path (heap s) (next nob) (ys @ [o']) this"
    by auto
  from path_last_next[OF ny] have py: "path (heap s) (next nob) ys o'" by auto
  let ?h = "(heap s)(o' \<mapsto> iob\<lparr>next := next m, cls := UNMARKED\<rparr>,
           this \<mapsto> m\<lparr>next := next nob\<rparr>, nroot \<mapsto> nob\<lparr>cls := ISO, next := this\<rparr>)"
  have p1: "path ?h (next nob) ((ys @ o' # xs) @ [nroot]) this"
    using px py f(7) by (auto simp: path_append path_upd)
  have p2: "path ?h (next_not_root r) ss this"
    using f(5,7) by (simp add: path_upd)
  have cl: "list_all (\<lambda>a. map_option cls (?h a) = Some UNMARKED \<or> map_option cls (?h a) = Some MARKED)
      ((ys @ o' # xs) @ ss)"
    using f(10,7) by (auto simp: list_all_iff get_class_def)
  show ?thesis
    unfolding wf_rings_def using p1 p2 cl f(2,3,6,7,8) m
    by (auto simp: get_class_def)
qed


lemma swap_flip_last:
  assumes wf: "wf_rings this o' ps (xs @ [nroot]) s"
    and tr: "is_trivial o' s \<noteq> is_trivial nroot s"
    and hp: "heap s this = Some m" "heap s o' = Some iob" "heap s nroot = Some nob"
      "regions s this = Some r"
  shows "swap_root_internal this o' nroot s = Some
    (s\<lparr>heap := (heap s)(this \<mapsto> m\<lparr>next := next_not_root r\<rparr>,
           o' \<mapsto> iob\<lparr>next := this, cls := UNMARKED\<rparr>,
           nroot \<mapsto> nob\<lparr>cls := ISO, next := this\<rparr>),
        regions := (regions s)(this \<mapsto> r\<lparr>next_not_root := next m, last_not_root := o'\<rparr>)\<rparr>)"
proof -
  from wf obtain m' r' where f: "heap s this = Some m'" "regions s this = Some r'" "cls m' = UNMARKED"
    "path (heap s) (next_not_root r') (xs @ [nroot]) this"
    "last_not_root r' = last (this # xs @ [nroot])"
    "distinct (this # ps @ o' # xs @ [nroot])"
    "list_all (\<lambda>a. get_class a s = Some UNMARKED \<or> get_class a s = Some MARKED) (ps @ xs @ [nroot])"
    by (rule wf_ringsD)
  have m: "m' = m" "r' = r" using f(1,2) hp by simp_all
  have mem: "debug_is_in_region this nroot s = Some True"
    using debug_is_in_region_wf[OF wf, of nroot] by simp
  from path_last_next[OF f(4)] hp(3) have nn: "next nob = this" by auto
  have nc: "cls nob \<noteq> ISO" using f(7) hp(3) by (auto simp: get_class_def)
  have ne: "o' \<noteq> nroot" "o' \<noteq> this" "nroot \<noteq> this" using f(6) by auto
  have ln: "last_not_root r = nroot" using f(5) m by simp
  from tr hp have tr': "trivial (descriptor iob) \<noteq> trivial (descriptor nob)"
    by (simp add: is_trivial_def)
  show ?thesis
    using mem tr' hp nn nc ne f(3) m ln
    by (simp add: swap_root_internal_def assert_def obj_defs upd_region_def)
qed

lemma swap_flip_inner:
  assumes wf: "wf_rings this o' ps (xs @ nroot # zs @ [l]) s"
    and tr: "is_trivial o' s \<noteq> is_trivial nroot s"
    and hp: "heap s this = Some m" "heap s o' = Some iob" "heap s nroot = Some nob"
      "regions s this = Some r" "heap s l = Some lob"
  shows "swap_root_internal this o' nroot s = Some
    (s\<lparr>heap := (heap s)(
           o' \<mapsto> iob\<lparr>next := this, cls := UNMARKED\<rparr>,
           l \<mapsto> lob\<lparr>next := next_not_root r, cls := UNMARKED\<rparr>,
           this \<mapsto> m\<lparr>next := next nob\<rparr>,
           nroot \<mapsto> nob\<lparr>cls := ISO, next := this\<rparr>),
        regions := (regions s)(this \<mapsto> r\<lparr>next_not_root := next m, last_not_root := o'\<rparr>)\<rparr>)"
proof -
  from wf obtain m' r' where f: "heap s this = Some m'" "regions s this = Some r'" "cls m' = UNMARKED"
    "path (heap s) (next_not_root r') (xs @ nroot # zs @ [l]) this"
    "last_not_root r' = last (this # xs @ nroot # zs @ [l])"
    "distinct (this # ps @ o' # xs @ nroot # zs @ [l])"
    "list_all (\<lambda>a. get_class a s = Some UNMARKED \<or> get_class a s = Some MARKED) (ps @ xs @ nroot # zs @ [l])"
    by (rule wf_ringsD)
  have m: "m' = m" "r' = r" using f(1,2) hp by simp_all
  have mem: "debug_is_in_region this nroot s = Some True"
    using debug_is_in_region_wf[OF wf, of nroot] by simp
  from path_split[OF f(4)] hp(3) have ny: "path (heap s) (next nob) (zs @ [l]) this" by auto
  from path_last_next[OF ny] hp(5) have ll: "next lob = this" by auto
  have nn: "next nob \<noteq> this" using path_nonempty_start[OF ny] f(6) by auto
  have nc: "cls nob \<noteq> ISO" "cls lob \<noteq> ISO" using f(7) hp(3,5) by (auto simp: get_class_def)
  have ne: "o' \<noteq> nroot" "o' \<noteq> this" "nroot \<noteq> this" "l \<noteq> nroot" "l \<noteq> this" "l \<noteq> o'"
    using f(6) by auto
  have ln: "last_not_root r = l" using f(5) m by simp
  from tr hp have tr': "trivial (descriptor iob) \<noteq> trivial (descriptor nob)"
    by (simp add: is_trivial_def)
  have eq: "(heap s)(this \<mapsto> m\<lparr>next := next_not_root r\<rparr>, o' \<mapsto> iob\<lparr>next := this, cls := UNMARKED\<rparr>,
        l \<mapsto> lob\<lparr>next := next_not_root r, cls := UNMARKED\<rparr>, this \<mapsto> m\<lparr>next := next nob\<rparr>,
        nroot \<mapsto> nob\<lparr>cls := ISO, next := this\<rparr>) =
     (heap s)(o' \<mapsto> iob\<lparr>next := this, cls := UNMARKED\<rparr>,
           l \<mapsto> lob\<lparr>next := next_not_root r, cls := UNMARKED\<rparr>,
           this \<mapsto> m\<lparr>next := next nob\<rparr>,
           nroot \<mapsto> nob\<lparr>cls := ISO, next := this\<rparr>)"
    using ne by (auto simp: fun_eq_iff)
  show ?thesis
    using mem tr' hp nn nc ne f(3) m ln ll
    by (simp add: swap_root_internal_def assert_def obj_defs upd_region_def eq)
qed


lemma swap_flip_last_wf:
  assumes wf: "wf_rings this o' ps (xs @ [nroot]) s"
    and hp: "heap s this = Some m" "heap s o' = Some iob" "heap s nroot = Some nob"
      "regions s this = Some r"
  shows "wf_rings this nroot xs (ps @ [o'])
    (s\<lparr>heap := (heap s)(this \<mapsto> m\<lparr>next := next_not_root r\<rparr>,
           o' \<mapsto> iob\<lparr>next := this, cls := UNMARKED\<rparr>,
           nroot \<mapsto> nob\<lparr>cls := ISO, next := this\<rparr>),
        regions := (regions s)(this \<mapsto> r\<lparr>next_not_root := next m, last_not_root := o'\<rparr>)\<rparr>)"
proof -
  from wf obtain m' r' where f: "heap s this = Some m'" "regions s this = Some r'" "cls m' = UNMARKED"
    "path (heap s) (next m') (ps @ [o']) this"
    "path (heap s) (next_not_root r') (xs @ [nroot]) this"
    "distinct (this # ps @ o' # xs @ [nroot])"
    "nullptr \<notin> set (this # ps @ o' # xs @ [nroot])"
    "list_all (\<lambda>a. get_class a s = Some UNMARKED \<or> get_class a s = Some MARKED) (ps @ xs @ [nroot])"
    by (rule wf_ringsD)
  have m: "m' = m" "r' = r" using f(1,2) hp by simp_all
  from path_last_next[OF f(4)] have pp: "path (heap s) (next m) ps o'" using m by auto
  from path_last_next[OF f(5)] have px: "path (heap s) (next_not_root r) xs nroot" using m by auto
  let ?h = "(heap s)(this \<mapsto> m\<lparr>next := next_not_root r\<rparr>,
           o' \<mapsto> iob\<lparr>next := this, cls := UNMARKED\<rparr>,
           nroot \<mapsto> nob\<lparr>cls := ISO, next := this\<rparr>)"
  have p1: "path ?h (next_not_root r) (xs @ [nroot]) this"
    using px f(6) by (auto simp: path_append path_upd)
  have p2: "path ?h (next m) (ps @ [o']) this"
    using pp f(6) by (auto simp: path_append path_upd)
  have cl: "list_all (\<lambda>a. map_option cls (?h a) = Some UNMARKED \<or> map_option cls (?h a) = Some MARKED)
      (xs @ ps @ [o'])"
    using f(8,6) by (auto simp: list_all_iff get_class_def)
  show ?thesis
    unfolding wf_rings_def using p1 p2 cl f(3,6,7) m
    by (auto simp: get_class_def)
qed

lemma swap_flip_inner_wf:
  assumes wf: "wf_rings this o' ps (xs @ nroot # zs @ [l]) s"
    and hp: "heap s this = Some m" "heap s o' = Some iob" "heap s nroot = Some nob"
      "regions s this = Some r" "heap s l = Some lob"
  shows "wf_rings this nroot (zs @ l # xs) (ps @ [o'])
    (s\<lparr>heap := (heap s)(
           o' \<mapsto> iob\<lparr>next := this, cls := UNMARKED\<rparr>,
           l \<mapsto> lob\<lparr>next := next_not_root r, cls := UNMARKED\<rparr>,
           this \<mapsto> m\<lparr>next := next nob\<rparr>,
           nroot \<mapsto> nob\<lparr>cls := ISO, next := this\<rparr>),
        regions := (regions s)(this \<mapsto> r\<lparr>next_not_root := next m, last_not_root := o'\<rparr>)\<rparr>)"
proof -
  from wf obtain m' r' where f: "heap s this = Some m'" "regions s this = Some r'" "cls m' = UNMARKED"
    "path (heap s) (next m') (ps @ [o']) this"
    "path (heap s) (next_not_root r') (xs @ nroot # zs @ [l]) this"
    "distinct (this # ps @ o' # xs @ nroot # zs @ [l])"
    "nullptr \<notin> set (this # ps @ o' # xs @ nroot # zs @ [l])"
    "list_all (\<lambda>a. get_class a s = Some UNMARKED \<or> get_class a s = Some MARKED) (ps @ xs @ nroot # zs @ [l])"
    by (rule wf_ringsD)
  have m: "m' = m" "r' = r" using f(1,2) hp by simp_all
  from path_last_next[OF f(4)] have pp: "path (heap s) (next m) ps o'" using m by auto
  from path_split[OF f(5)] hp(3)
  have px: "path (heap s) (next_not_root r) xs nroot" and ny: "path (heap s) (next nob) (zs @ [l]) this"
    using m by auto
  from path_last_next[OF ny] have pz: "path (heap s) (next nob) zs l" by auto
  let ?h = "(heap s)(
           o' \<mapsto> iob\<lparr>next := this, cls := UNMARKED\<rparr>,
           l \<mapsto> lob\<lparr>next := next_not_root r, cls := UNMARKED\<rparr>,
           this \<mapsto> m\<lparr>next := next nob\<rparr>,
           nroot \<mapsto> nob\<lparr>cls := ISO, next := this\<rparr>)"
  have p1: "path ?h (next nob) ((zs @ l # xs) @ [nroot]) this"
    using px pz f(6) by (auto simp: path_append path_upd)
  have p2: "path ?h (next m) (ps @ [o']) this"
    using pp f(6) by (auto simp: path_append path_upd)
  have cl: "list_all (\<lambda>a. map_option cls (?h a) = Some UNMARKED \<or> map_option cls (?h a) = Some MARKED)
      ((zs @ l # xs) @ ps @ [o'])"
    using f(8,6) by (auto simp: list_all_iff get_class_def)
  show ?thesis
    unfolding wf_rings_def using p1 p2 cl f(3,6,7) m
    by (auto simp: get_class_def)
qed


lemma wf_rings_heap:
  assumes "wf_rings this o' ps ss s" "x \<in> set (this # ps @ o' # ss)"
  shows "\<exists>ob. heap s x = Some ob"
proof -
  from assms(1) obtain m r where f: "heap s this = Some m" "regions s this = Some r"
    "cls m = UNMARKED"
    "path (heap s) (next m) (ps @ [o']) this" "path (heap s) (next_not_root r) ss this"
    by (rule wf_ringsD)
  from assms(2) consider "x = this" | "x \<in> set (ps @ [o'])" | "x \<in> set ss" by auto
  then show ?thesis
    using f path_allocated[OF f(4)] path_allocated[OF f(5)] by cases auto
qed

lemma swap_root_internal_wf:
  assumes wf: "wf_rings this a ps ss s" and rp: "ring_partition a ps ss s"
    and b: "b \<in> set ps \<union> set ss"
  shows "\<exists>s' ps' ss'. swap_root_internal this a b s = Some s' \<and>
     wf_rings this b ps' ss' s' \<and> ring_partition b ps' ss' s' \<and>
     (\<forall>x. is_trivial x s' = is_trivial x s) \<and> get_class a s' = Some UNMARKED \<and>
     set (ps' @ b # ss') = set (ps @ a # ss) \<and>
     (is_trivial a s \<noteq> is_trivial b s \<longrightarrow>
        ss' = ps @ [a] \<and> (\<exists>xs ys. ss = xs @ b # ys \<and> ps' = ys @ xs))"
proof -
  from wf obtain m r where mr: "heap s this = Some m" "regions s this = Some r"
    "cls m = UNMARKED"
    "path (heap s) (next m) (ps @ [a]) this" "path (heap s) (next_not_root r) ss this"
    "last_not_root r = last (this # ss)"
    and di: "distinct (this # ps @ a # ss)"
    by (rule wf_ringsD)
  from wf_rings_heap[OF wf, of a] obtain iob where iob: "heap s a = Some iob" by auto
  from wf_rings_heap[OF wf, of b] b obtain nob where nob: "heap s b = Some nob" by auto
  from b show ?thesis
  proof
    assume "b \<in> set ps"
    then obtain xs ys where ps: "ps = xs @ b # ys" by (auto dest: split_list)
    have tr: "is_trivial a s = is_trivial b s"
      using rp ps by (auto simp: ring_partition_def)
    let ?s' = "s\<lparr>heap := (heap s)(a \<mapsto> iob\<lparr>next := next m, cls := UNMARKED\<rparr>,
           this \<mapsto> m\<lparr>next := next nob\<rparr>, b \<mapsto> nob\<lparr>cls := ISO, next := this\<rparr>)\<rparr>"
    have 1: "swap_root_internal this a b s = Some ?s'"
      using swap_same[OF wf[unfolded ps] tr mr(1) iob nob] .
    have 2: "wf_rings this b (ys @ a # xs) ss ?s'"
      using swap_same_wf[OF wf[unfolded ps] mr(1) iob nob] .
    have 3: "\<forall>x. is_trivial x ?s' = is_trivial x s"
      using mr iob nob by (auto simp: is_trivial_def)
    have 4: "ring_partition b (ys @ a # xs) ss ?s'"
      using rp tr unfolding ring_partition_def 3[rule_format] ps
      by (auto simp: list_all_iff)
    have 5: "get_class a ?s' = Some UNMARKED" using di ps by (auto simp: get_class_def)
    have 6: "set ((ys @ a # xs) @ b # ss) = set (ps @ a # ss)" using ps by auto
    show ?thesis using 1 2 3 4 5 6 tr by blast
  next
    assume bs: "b \<in> set ss"
    then obtain xs ys where ss: "ss = xs @ b # ys" by (auto dest: split_list)
    obtain t where ta: "is_trivial a s = Some t" using iob by (simp add: is_trivial_def)
    have tb: "is_trivial b s = Some (\<not> t)"
      using rp ss ta by (auto simp: ring_partition_def)
    have tr: "is_trivial a s \<noteq> is_trivial b s" using ta tb by simp
    show ?thesis
    proof (cases ys rule: rev_cases)
      case Nil
      let ?s' = "s\<lparr>heap := (heap s)(this \<mapsto> m\<lparr>next := next_not_root r\<rparr>,
           a \<mapsto> iob\<lparr>next := this, cls := UNMARKED\<rparr>,
           b \<mapsto> nob\<lparr>cls := ISO, next := this\<rparr>),
        regions := (regions s)(this \<mapsto> r\<lparr>next_not_root := next m, last_not_root := a\<rparr>)\<rparr>"
      have w: "wf_rings this a ps (xs @ [b]) s" using wf ss Nil by simp
      have 1: "swap_root_internal this a b s = Some ?s'"
        using swap_flip_last[OF w tr mr(1) iob nob mr(2)] .
      have 2: "wf_rings this b xs (ps @ [a]) ?s'"
        using swap_flip_last_wf[OF w mr(1) iob nob mr(2)] .
      have 3: "\<forall>x. is_trivial x ?s' = is_trivial x s"
        using mr iob nob by (auto simp: is_trivial_def)
      have 4: "ring_partition b xs (ps @ [a]) ?s'"
        using rp ta tb unfolding ring_partition_def 3[rule_format] ss
        by (auto simp: list_all_iff)
      have 5: "get_class a ?s' = Some UNMARKED" using di ss by (auto simp: get_class_def)
      have 6: "set (xs @ b # (ps @ [a])) = set (ps @ a # ss)" using ss Nil by auto
      have 7: "\<exists>xs' ys'. ss = xs' @ b # ys' \<and> xs = ys' @ xs'" using ss Nil by auto
      show ?thesis using 1 2 3 4 5 6 7 by blast
    next
      case (snoc zs l)
      have w: "wf_rings this a ps (xs @ b # zs @ [l]) s" using wf ss snoc by simp
      from wf_rings_heap[OF wf, of l] ss snoc obtain lob where lob: "heap s l = Some lob" by auto
      let ?s' = "s\<lparr>heap := (heap s)(
           a \<mapsto> iob\<lparr>next := this, cls := UNMARKED\<rparr>,
           l \<mapsto> lob\<lparr>next := next_not_root r, cls := UNMARKED\<rparr>,
           this \<mapsto> m\<lparr>next := next nob\<rparr>,
           b \<mapsto> nob\<lparr>cls := ISO, next := this\<rparr>),
        regions := (regions s)(this \<mapsto> r\<lparr>next_not_root := next m, last_not_root := a\<rparr>)\<rparr>"
      have 1: "swap_root_internal this a b s = Some ?s'"
        using swap_flip_inner[OF w tr mr(1) iob nob mr(2) lob] .
      have 2: "wf_rings this b (zs @ l # xs) (ps @ [a]) ?s'"
        using swap_flip_inner_wf[OF w mr(1) iob nob mr(2) lob] .
      have 3: "\<forall>x. is_trivial x ?s' = is_trivial x s"
        using mr iob nob lob by (auto simp: is_trivial_def)
      have 4: "ring_partition b (zs @ l # xs) (ps @ [a]) ?s'"
        using rp ta tb unfolding ring_partition_def 3[rule_format] ss snoc
        by (auto simp: list_all_iff)
      have 5: "get_class a ?s' = Some UNMARKED" using di ss snoc by (auto simp: get_class_def)
      have 6: "set ((zs @ l # xs) @ b # (ps @ [a])) = set (ps @ a # ss)" using ss snoc by auto
      have 7: "\<exists>xs' ys'. ss = xs' @ b # ys' \<and> zs @ l # xs = ys' @ xs'"
        using ss snoc by (intro exI[of _ xs] exI[of _ "zs @ [l]"]) simp
      show ?thesis using 1 2 3 4 5 6 7 by blast
    qed
  qed
qed


lemma wf_rings_iso:
  assumes "wf_rings this a ps ss s"
  shows "get_class a s = Some ISO" "get_region a s = Some this" "is_trace_region this s"
    "a \<noteq> this" "a \<notin> set ps \<union> set ss" "this \<notin> set ps \<union> set ss"
proof -
  from assms obtain m r where f: "heap s this = Some m" "regions s this = Some r"
    "cls m = UNMARKED"
    "path (heap s) (next m) (ps @ [a]) this" "path (heap s) (next_not_root r) ss this"
    "last_not_root r = last (this # ss)" "distinct (this # ps @ a # ss)"
    "nullptr \<notin> set (this # ps @ a # ss)" "get_class a s = Some ISO"
    by (rule wf_ringsD)
  show "get_class a s = Some ISO" by fact
  from path_last_next[OF f(4)] f(9) show "get_region a s = Some this"
    by (auto simp: get_region_def get_class_def)
  show "is_trace_region this s" using f(2) by (simp add: is_trace_region_def)
  show "a \<noteq> this" "a \<notin> set ps \<union> set ss" "this \<notin> set ps \<union> set ss" using f(7) by auto
qed

lemma swap_root_eq:
  assumes wf: "wf_rings this a ps ss s" and b: "b \<in> set ps \<union> set ss"
    and mu: "get_class b s = Some UNMARKED"
  shows "swap_root a b s = swap_root_internal this a b s"
  using wf_rings_iso[OF wf] b mu
  by (auto simp: swap_root_def get_def assert_def)

lemma obj_restore:
  "cls ob = c \<Longrightarrow> next ob = n \<Longrightarrow> ob\<lparr>next := x, cls := y, cls := c, next := n\<rparr> = ob"
  "cls ob = c \<Longrightarrow> next ob = n \<Longrightarrow> ob\<lparr>cls := y, next := x, next := n, cls := c\<rparr> = ob"
  by (cases ob; simp)+

text \<open>
  C6: in a well-formed region with iso \<open>a\<close> and a mutable member \<open>b\<close> (which is
  then neither \<open>a\<close> nor the metadata), \<open>swap_root(a, b)\<close> followed by
  \<open>swap_root(b, a)\<close> succeeds and makes \<open>a\<close> the iso again, the terminator of the
  same primary ring; if \<open>a\<close> and \<open>b\<close> are equally trivial the whole state, with every
  \<open>next\<close> pointer, both secondary anchors and every class tag, is as before the
  first call.
\<close>

theorem swap_root_round_trip:
  assumes wf: "wf_rings this a ps ss s" and rp: "ring_partition a ps ss s"
    and b: "b \<in> set ps \<union> set ss" and mu: "get_class b s = Some UNMARKED"
  shows "\<exists>s1 s2. swap_root a b s = Some s1 \<and> swap_root b a s1 = Some s2 \<and>
     get_class a s2 = Some ISO \<and> get_region a s2 = Some this \<and>
     get_class b s2 = Some UNMARKED \<and> (\<exists>ss'. wf_rings this a ps ss' s2) \<and>
     (is_trivial a s = is_trivial b s \<longrightarrow> s2 = s)"
proof (cases "is_trivial a s = is_trivial b s")
  case True
  from wf obtain m r where mr: "heap s this = Some m" "regions s this = Some r"
    "cls m = UNMARKED"
    "path (heap s) (next m) (ps @ [a]) this" "path (heap s) (next_not_root r) ss this"
    "last_not_root r = last (this # ss)"
    and di: "distinct (this # ps @ a # ss)"
    by (rule wf_ringsD)
  from wf_rings_heap[OF wf, of a] obtain iob where iob: "heap s a = Some iob" by auto
  from wf_rings_heap[OF wf, of b] b obtain nob where nob: "heap s b = Some nob" by auto
  have ia: "cls iob = ISO" "next iob = this"
    using wf_rings_iso(1,2)[OF wf] iob by (auto simp: get_class_def get_region_def)
  have cb: "cls nob = UNMARKED" using mu nob by (simp add: get_class_def)
  obtain t where ta: "is_trivial a s = Some t" using iob by (simp add: is_trivial_def)
  have "b \<notin> set ss"
  proof
    assume "b \<in> set ss"
    then have "is_trivial b s = Some (\<not> t)" using rp ta by (auto simp: ring_partition_def list_all_iff)
    then show False using True ta by simp
  qed
  then obtain xs ys where ps: "ps = xs @ b # ys" using b by (auto dest: split_list)
  let ?s1 = "s\<lparr>heap := (heap s)(a \<mapsto> iob\<lparr>next := next m, cls := UNMARKED\<rparr>,
           this \<mapsto> m\<lparr>next := next nob\<rparr>, b \<mapsto> nob\<lparr>cls := ISO, next := this\<rparr>)\<rparr>"
  have ne: "a \<noteq> b" "a \<noteq> this" "b \<noteq> this" using di ps by auto
  have 1: "swap_root_internal this a b s = Some ?s1"
    using swap_same[OF wf[unfolded ps] True mr(1) iob nob] .
  have w1: "wf_rings this b (ys @ a # xs) ss ?s1"
    using swap_same_wf[OF wf[unfolded ps] mr(1) iob nob] .
  have t1: "is_trivial b ?s1 = is_trivial a ?s1"
    using True iob nob ne by (simp add: is_trivial_def)
  have h1: "heap ?s1 this = Some (m\<lparr>next := next nob\<rparr>)"
    "heap ?s1 b = Some (nob\<lparr>cls := ISO, next := this\<rparr>)"
    "heap ?s1 a = Some (iob\<lparr>next := next m, cls := UNMARKED\<rparr>)"
    using ne by simp_all
  have 2: "swap_root_internal this b a ?s1 = Some s"
    using swap_same[OF w1 t1 h1(1) h1(2) h1(3)] mr(1) iob nob ia cb ne
    by (simp add: obj_restore fun_upd_twist[of a b] fun_upd_twist[of a this] fun_upd_idem)
  have c1: "get_class a ?s1 = Some UNMARKED" using ne by (simp add: get_class_def)
  have "swap_root a b s = Some ?s1" using swap_root_eq[OF wf b mu] 1 by simp
  moreover have "swap_root b a ?s1 = Some s"
    using swap_root_eq[OF w1 _ c1] 2 by simp
  ultimately show ?thesis
    using wf_rings_iso(1,2)[OF wf] mu wf by blast
next
  case False
  from swap_root_internal_wf[OF wf rp b] obtain s1 ps1 ss1 where
    1: "swap_root_internal this a b s = Some s1" and w1': "wf_rings this b ps1 ss1 s1"
    and rp1': "ring_partition b ps1 ss1 s1" and tr1: "\<forall>x. is_trivial x s1 = is_trivial x s"
    and c1: "get_class a s1 = Some UNMARKED"
    and i1: "is_trivial a s \<noteq> is_trivial b s \<longrightarrow>
        ss1 = ps @ [a] \<and> (\<exists>xs ys. ss = xs @ b # ys \<and> ps1 = ys @ xs)"
    by blast
  from i1 False have ss1: "ss1 = ps @ [a]" by simp
  note w1 = w1'[unfolded ss1] and rp1 = rp1'[unfolded ss1]
  have f1: "is_trivial b s1 \<noteq> is_trivial a s1" using tr1 False by auto
  have "a \<in> set ps1 \<union> set (ps @ [a])" by simp
  from swap_root_internal_wf[OF w1 rp1 this] obtain s2 ps2 ss2 where
    2: "swap_root_internal this b a s1 = Some s2" and w2: "wf_rings this a ps2 ss2 s2"
    and c2: "get_class b s2 = Some UNMARKED"
    and i2: "is_trivial b s1 \<noteq> is_trivial a s1 \<longrightarrow>
        ss2 = ps1 @ [b] \<and> (\<exists>xs ys. ps @ [a] = xs @ a # ys \<and> ps2 = ys @ xs)"
    by blast
  from i2 f1 have sp: "\<exists>xs ys. ps @ [a] = xs @ a # ys \<and> ps2 = ys @ xs" by simp
  have an: "a \<notin> set ps" using wf_rings_iso(5)[OF wf] by simp
  from sp obtain xs ys where xy: "ps @ [a] = xs @ a # ys" "ps2 = ys @ xs" by auto
  have "xs = ps \<and> ys = []"
  proof (cases ys rule: rev_cases)
    case Nil
    then show ?thesis using xy by simp
  next
    case (snoc zs z)
    then have "ps = xs @ a # zs" using xy by simp
    then show ?thesis using an by simp
  qed
  then have p2: "ps2 = ps" using xy by simp
  have "swap_root a b s = Some s1" using swap_root_eq[OF wf b mu] 1 by simp
  moreover have "swap_root b a s1 = Some s2" using swap_root_eq[OF w1 _ c1] 2 by simp
  ultimately show ?thesis
    using wf_rings_iso(1,2)[OF w2] c2 w2 p2 False by blast
qed



lemma wf_rings_cong:
  assumes "\<And>x. x \<in> set (this # ps @ o' # ss) \<Longrightarrow> heap s' x = heap s x"
    "regions s' this = regions s this"
  shows "wf_rings this o' ps ss s' = wf_rings this o' ps ss s"
proof -
  have p1: "\<And>x. path (heap s') x (ps @ [o']) this = path (heap s) x (ps @ [o']) this"
    by (rule path_cong) (use assms(1) in auto)
  have p2: "\<And>x. path (heap s') x ss this = path (heap s) x ss this"
    by (rule path_cong) (use assms(1) in auto)
  have c: "\<And>x. x \<in> set (this # ps @ o' # ss) \<Longrightarrow> get_class x s' = get_class x s"
    using assms(1) by (simp add: get_class_def)
  have l: "list_all (\<lambda>a. get_class a s' = Some UNMARKED \<or> get_class a s' = Some MARKED) (ps @ ss)
     = list_all (\<lambda>a. get_class a s = Some UNMARKED \<or> get_class a s = Some MARKED) (ps @ ss)"
    unfolding list_all_iff using c by auto
  have h: "heap s' this = heap s this" using assms(1) by simp
  have co: "get_class o' s' = get_class o' s" using c by simp
  show ?thesis
    unfolding wf_rings_def h assms(2) p1 p2 l co ..
qed

lemma ring_partition_cong:
  assumes "\<And>x. x \<in> set (ps @ o' # ss) \<Longrightarrow> is_trivial x s' = is_trivial x s"
  shows "ring_partition o' ps ss s' = ring_partition o' ps ss s"
  unfolding ring_partition_def list_all_iff using assms by auto

lemma append_wf:
  assumes wf: "wf_rings this o' ps ss s" and rp: "ring_partition o' ps ss s"
    and ch: "path (heap s) hd' bs tl'" "heap s tl' = Some tob"
    and di: "distinct (bs @ [tl'])" "set (bs @ [tl']) \<inter> set (this # ps @ o' # ss) = {}"
      "nullptr \<notin> set (bs @ [tl'])"
    and cl: "list_all (\<lambda>a. get_class a s = Some UNMARKED \<or> get_class a s = Some MARKED) bs"
    and tr: "list_all (\<lambda>a. is_trivial a s = Some t) (bs @ [tl'])"
  shows "\<exists>s'. append this hd' tl' s = Some s' \<and>
     (if is_trivial o' s = Some t
      then wf_rings this o' (bs @ tl' # ps) ss s' \<and> ring_partition o' (bs @ tl' # ps) ss s'
      else wf_rings this o' ps (bs @ tl' # ss) s' \<and> ring_partition o' ps (bs @ tl' # ss) s') \<and>
     (\<forall>x. x \<noteq> this \<longrightarrow> x \<noteq> tl' \<longrightarrow> heap s' x = heap s x) \<and>
     (\<forall>x. is_trivial x s' = is_trivial x s) \<and>
     (\<forall>x. x \<noteq> this \<longrightarrow> regions s' x = regions s x) \<and>
     events s' = events s \<and>
     (\<exists>r r'. regions s this = Some r \<and> regions s' this = Some r' \<and>
        current_memory_used r' = current_memory_used r \<and>
        previous_memory_used r' = previous_memory_used r \<and>
        hash_set r' = hash_set r \<and> ext_refs r' = ext_refs r)"
proof -
  from wf obtain m r where f: "heap s this = Some m" "regions s this = Some r" "cls m = UNMARKED"
    "path (heap s) (next m) (ps @ [o']) this" "path (heap s) (next_not_root r) ss this"
    "last_not_root r = last (this # ss)" "distinct (this # ps @ o' # ss)"
    "nullptr \<notin> set (this # ps @ o' # ss)" "get_class o' s = Some ISO"
    "list_all (\<lambda>a. get_class a s = Some UNMARKED \<or> get_class a s = Some MARKED) (ps @ ss)"
    by (rule wf_ringsD)
  have hdm: "hd' \<in> set (bs @ [tl'])" using ch(1) by (cases bs) auto
  then obtain h where h: "heap s hd' = Some h"
    using path_allocated[OF ch(1), of hd'] ch(2) by auto
  have th: "trivial (descriptor h) = t" using tr hdm h by (auto simp: list_all_iff is_trivial_def)
  have pm: "next m \<in> set (ps @ [o'])" using f(4) by (cases ps) auto
  then obtain pob where pob: "heap s (next m) = Some pob"
    using path_allocated[OF f(4), of "next m"] by auto
  from wf_rings_heap[OF wf, of o'] obtain iob where iob: "heap s o' = Some iob" by auto
  have tp: "trivial (descriptor pob) = trivial (descriptor iob)"
    using pm rp pob iob by (auto simp: ring_partition_def list_all_iff is_trivial_def)
  have ne: "tl' \<noteq> this" "tl' \<notin> set ps" "tl' \<noteq> o'" "tl' \<notin> set ss" "tl' \<notin> set bs"
    "this \<notin> set bs" "this \<notin> set ps" "this \<notin> set ss" "this \<noteq> o'"
    using di f(7) by auto
  have nm: "cls m \<noteq> ISO" using f(3) by simp
  note ev = append_eval[OF f(1) nm h pob ch(2) f(2) ne(1), unfolded th tp]
  have dis: "set bs \<inter> set (this # ps @ o' # ss) = {}" using di(2) by auto
  have tro: "is_trivial o' s = Some (trivial (descriptor iob))" using iob by (simp add: is_trivial_def)
  show ?thesis
  proof (cases "t = trivial (descriptor iob)")
    case True
    let ?h = "(heap s)(tl' \<mapsto> tob\<lparr>next := next m, cls := UNMARKED\<rparr>, this \<mapsto> m\<lparr>next := hd'\<rparr>)"
    let ?s' = "s\<lparr>heap := ?h\<rparr>"
    have 1: "append this hd' tl' s = Some ?s'" using ev True by simp
    have p1: "path ?h hd' ((bs @ tl' # ps) @ [o']) this"
      using ch(1) f(4) ne by (auto simp: path_append path_upd split: option.splits)
    have p2: "path ?h (next_not_root r) ss this" using f(5) ne by (simp add: path_upd)
    have c1: "list_all (\<lambda>a. map_option cls (?h a) = Some UNMARKED \<or> map_option cls (?h a) = Some MARKED)
        ((bs @ tl' # ps) @ ss)"
      using f(10) cl ne by (auto simp: list_all_iff get_class_def)
    have w: "wf_rings this o' (bs @ tl' # ps) ss ?s'"
      unfolding wf_rings_def using p1 p2 c1 f(2,3,6,7,8,9) di dis ne
      by (auto simp: get_class_def)
    have 3: "\<forall>x. is_trivial x ?s' = is_trivial x s"
      using f(1) ch(2) by (auto simp: is_trivial_def)
    have 4: "ring_partition o' (bs @ tl' # ps) ss ?s'"
      using rp tr tro True unfolding ring_partition_def 3[rule_format]
      by (auto simp: list_all_iff)
    show ?thesis using 1 w 3 4 tro True f(2) by (intro exI[of _ ?s']) auto
  next
    case False
    let ?h = "(heap s)(tl' \<mapsto> tob\<lparr>next := next_not_root r, cls := UNMARKED\<rparr>)"
    let ?r = "r\<lparr>next_not_root := hd',
               last_not_root := (if last_not_root r = this then tl' else last_not_root r)\<rparr>"
    let ?s' = "s\<lparr>heap := ?h, regions := (regions s)(this \<mapsto> ?r)\<rparr>"
    have 1: "append this hd' tl' s = Some ?s'" using ev False by simp
    have p1: "path ?h (next m) (ps @ [o']) this" using f(4) ne by (simp add: path_upd)
    have p2: "path ?h hd' (bs @ tl' # ss) this"
      using ch(1) f(5) ne by (auto simp: path_append path_upd split: option.splits)
    have c1: "list_all (\<lambda>a. map_option cls (?h a) = Some UNMARKED \<or> map_option cls (?h a) = Some MARKED)
        (ps @ bs @ tl' # ss)"
      using f(10) cl ne by (auto simp: list_all_iff get_class_def)
    have la: "last_not_root ?r = last (this # bs @ tl' # ss)"
      using f(6) ne by (cases "ss = []") auto
    have w: "wf_rings this o' ps (bs @ tl' # ss) ?s'"
      unfolding wf_rings_def using p1 p2 c1 f(1,3,7,8,9) la di dis ne
      by (auto simp: get_class_def)
    have 3: "\<forall>x. is_trivial x ?s' = is_trivial x s"
      using f(1) ch(2) by (auto simp: is_trivial_def)
    have 4: "ring_partition o' ps (bs @ tl' # ss) ?s'"
      using rp tr tro False unfolding ring_partition_def 3[rule_format]
      by (auto simp: list_all_iff)
    show ?thesis using 1 w 3 4 tro False f(2) by (intro exI[of _ ?s']) auto
  qed
qed


lemma upd_region_wf:
  assumes wf: "wf_rings this o' ps ss s"
    and an: "\<And>r. next_not_root (f r) = next_not_root r \<and> last_not_root (f r) = last_not_root r"
  shows "\<exists>r. regions s this = Some r \<and>
     upd_region x f s = Some (s\<lparr>regions := (regions s)(x \<mapsto> f (the (regions s x)))\<rparr>) \<or> regions s x = None"
    "regions s x = Some rx \<Longrightarrow>
       wf_rings this o' ps ss (s\<lparr>regions := (regions s)(x \<mapsto> f rx)\<rparr>)"
proof -
  from wf obtain m r where f: "heap s this = Some m" "regions s this = Some r"
    by (rule wf_ringsD)
  show "\<exists>r. regions s this = Some r \<and>
     upd_region x f s = Some (s\<lparr>regions := (regions s)(x \<mapsto> f (the (regions s x)))\<rparr>) \<or> regions s x = None"
    using f by (auto simp: upd_region_def split: option.splits)
  assume "regions s x = Some rx"
  then show "wf_rings this o' ps ss (s\<lparr>regions := (regions s)(x \<mapsto> f rx)\<rparr>)"
    using wf an unfolding wf_rings_def by (auto simp: get_class_def split: option.splits)
qed

lemma ring_partition_heap:
  "heap s' = heap s \<Longrightarrow> ring_partition o' ps ss s' = ring_partition o' ps ss s"
  by (simp add: ring_partition_def is_trivial_def)

lemma alloc_wf:
  assumes wf: "wf_rings this a ps ss s" and rp: "ring_partition a ps ss s"
    and fr: "heap s n = None" "n \<noteq> nullptr"
  shows "\<exists>s'. alloc dsc a n s = Some (n, s') \<and>
     (if is_trivial a s = Some (trivial dsc)
      then wf_rings this a (n # ps) ss s' \<and> ring_partition a (n # ps) ss s'
      else wf_rings this a ps (n # ss) s' \<and> ring_partition a ps (n # ss) s')"
proof -
  let ?s1 = "s\<lparr>heap := (heap s)(n \<mapsto> raw_object\<lparr>descriptor := dsc\<rparr>)\<rparr>"
  have nm: "n \<notin> set (this # ps @ a # ss)"
    using wf_rings_heap[OF wf, of n] fr(1) by auto
  have g: "get a s = Some this"
    using wf_rings_iso(1,2,3)[OF wf] by (simp add: get_def assert_def)
  have a1: "Alloc_alloc n s \<bind> set_descriptor n dsc = Some ?s1"
    using fr by (simp add: Alloc_alloc_def set_descriptor_def upd_obj_def)
  have w1: "wf_rings this a ps ss ?s1"
    using wf nm by (subst wf_rings_cong[of _ _ _ _ _ s]) auto
  have r1: "ring_partition a ps ss ?s1"
    using rp nm by (subst ring_partition_cong[of _ _ _ _ s]) (auto simp: is_trivial_def)
  have t1: "is_trivial a ?s1 = is_trivial a s" using nm by (simp add: is_trivial_def)
  have pre: "path (heap ?s1) n [] n" "heap ?s1 n = Some (raw_object\<lparr>descriptor := dsc\<rparr>)"
    "distinct ([] @ [n])" "set ([] @ [n]) \<inter> set (this # ps @ a # ss) = {}"
    "nullptr \<notin> set ([] @ [n])"
    "list_all (\<lambda>a. get_class a ?s1 = Some UNMARKED \<or> get_class a ?s1 = Some MARKED) []"
    "list_all (\<lambda>x. is_trivial x ?s1 = Some (trivial dsc)) ([] @ [n])"
    using nm fr(2) by (simp_all add: is_trivial_def)
  from append_wf[OF w1 r1 pre] obtain s2 where 2: "append this n n ?s1 = Some s2"
    and w2': "if is_trivial a ?s1 = Some (trivial dsc)
      then wf_rings this a ([] @ n # ps) ss s2 \<and> ring_partition a ([] @ n # ps) ss s2
      else wf_rings this a ps ([] @ n # ss) s2 \<and> ring_partition a ps ([] @ n # ss) s2"
    and r2': "\<exists>r r'. regions ?s1 this = Some r \<and> regions s2 this = Some r' \<and>
        current_memory_used r' = current_memory_used r \<and>
        previous_memory_used r' = previous_memory_used r \<and>
        hash_set r' = hash_set r \<and> ext_refs r' = ext_refs r"
    by blast
  from w2' have w2: "if is_trivial a ?s1 = Some (trivial dsc)
      then wf_rings this a (n # ps) ss s2 \<and> ring_partition a (n # ps) ss s2
      else wf_rings this a ps (n # ss) s2 \<and> ring_partition a ps (n # ss) s2"
    by (simp split: if_splits)
  from r2' have r2: "\<exists>r. regions s2 this = Some r" by blast
  from r2 obtain r where r: "regions s2 this = Some r" by auto
  let ?f = "\<lambda>r. r\<lparr>current_memory_used := current_memory_used r + size_d dsc\<rparr>"
  let ?s3 = "s2\<lparr>regions := (regions s2)(this \<mapsto> ?f r)\<rparr>"
  have 3: "use_memory this (size_d dsc) s2 = Some ?s3"
    using r by (simp add: use_memory_def upd_region_def)
  have w3: "\<And>ps ss. wf_rings this a ps ss s2 \<Longrightarrow> wf_rings this a ps ss ?s3"
    using upd_region_wf(2)[of this a _ _ s2 ?f this r] r by simp
  have r3: "\<And>ps ss. ring_partition a ps ss ?s3 = ring_partition a ps ss s2"
    by (rule ring_partition_heap) simp
  have "alloc dsc a n s = Some (n, ?s3)"
    using g a1 2 3 fr by (simp add: alloc_def Alloc_alloc_def set_descriptor_def upd_obj_def)
  then show ?thesis using w2 w3 r3 t1 by (intro exI[of _ ?s3]) (auto split: if_splits)
qed


lemma merge_internal_wf:
  assumes wf1: "wf_rings this a ps ss s" and rp1: "ring_partition a ps ss s"
    and wf2: "wf_rings other b ps2 ss2 s" and rp2: "ring_partition b ps2 ss2 s"
    and dj: "set (this # ps @ a # ss) \<inter> set (other # ps2 @ b # ss2) = {}"
  shows "\<exists>s'. merge_internal s2sc sc2s this b other s = Some s' \<and>
     (if is_trivial b s = is_trivial a s
      then wf_rings this a (ps2 @ b # ps) (ss2 @ ss) s' \<and>
           ring_partition a (ps2 @ b # ps) (ss2 @ ss) s'
      else wf_rings this a (ss2 @ ps) (ps2 @ b # ss) s' \<and>
           ring_partition a (ss2 @ ps) (ps2 @ b # ss) s')"
proof -
  from wf2 obtain m2 r2 where g: "heap s other = Some m2" "regions s other = Some r2"
    "cls m2 = UNMARKED"
    "path (heap s) (next m2) (ps2 @ [b]) other" "path (heap s) (next_not_root r2) ss2 other"
    "last_not_root r2 = last (other # ss2)" "distinct (other # ps2 @ b # ss2)"
    "nullptr \<notin> set (other # ps2 @ b # ss2)" "get_class b s = Some ISO"
    "list_all (\<lambda>a. get_class a s = Some UNMARKED \<or> get_class a s = Some MARKED) (ps2 @ ss2)"
    by (rule wf_ringsD)
  from wf_rings_heap[OF wf2, of b] obtain bob where bob: "heap s b = Some bob" by auto
  from wf_rings_heap[OF wf1, of a] obtain aob where aob: "heap s a = Some aob" by auto
  define tb where "tb = trivial (descriptor bob)"
  define ta where "ta = trivial (descriptor aob)"
  have tb: "is_trivial b s = Some tb" and ta: "is_trivial a s = Some ta"
    using bob aob by (simp_all add: is_trivial_def tb_def ta_def)
  have ot: "other \<noteq> this" using dj by auto
  have gr: "get_region b s = Some other" using wf_rings_iso(2)[OF wf2] .
  have gn: "get_next other s = Some (next m2)" using g(1,3) by (simp add: get_next_def)
  have hn: "next m2 \<noteq> other" using path_nonempty_start[OF g(4)] g(7) by auto
  from path_last_next[OF g(4)] have pb: "path (heap s) (next m2) ps2 b" by auto
  have pre1: "path (heap s) (next m2) ps2 b" "heap s b = Some bob" "distinct (ps2 @ [b])"
    "set (ps2 @ [b]) \<inter> set (this # ps @ a # ss) = {}" "nullptr \<notin> set (ps2 @ [b])"
    "list_all (\<lambda>a. get_class a s = Some UNMARKED \<or> get_class a s = Some MARKED) ps2"
    "list_all (\<lambda>x. is_trivial x s = Some tb) (ps2 @ [b])"
    using pb bob g(7,8,10) dj rp2 tb by (auto simp: ring_partition_def list_all_iff)
  define P1 where "P1 = (if ta = tb then ps2 @ b # ps else ps)"
  define S1 where "S1 = (if ta = tb then ss else ps2 @ b # ss)"
  from append_wf[OF wf1 rp1 pre1] obtain s1 where
    A1: "append this (next m2) b s = Some s1" and
    W1: "if is_trivial a s = Some tb
      then wf_rings this a (ps2 @ b # ps) ss s1 \<and> ring_partition a (ps2 @ b # ps) ss s1
      else wf_rings this a ps (ps2 @ b # ss) s1 \<and> ring_partition a ps (ps2 @ b # ss) s1" and
    F1: "\<forall>x. x \<noteq> this \<longrightarrow> x \<noteq> b \<longrightarrow> heap s1 x = heap s x" and
    T1: "\<forall>x. is_trivial x s1 = is_trivial x s" and
    R1: "\<forall>x. x \<noteq> this \<longrightarrow> regions s1 x = regions s x"
    by blast
  have W1': "wf_rings this a P1 S1 s1" "ring_partition a P1 S1 s1"
    using W1 ta unfolding P1_def S1_def by (auto split: if_splits)
  have ro1: "regions s1 other = Some r2" using R1 ot g(2) by simp
  define Pf where "Pf = (if ta = tb then P1 else ss2 @ P1)"
  define Sf where "Sf = (if ta = tb then ss2 @ S1 else S1)"
  have "\<exists>s2. (if next_not_root r2 \<noteq> other
           then append this (next_not_root r2) (last_not_root r2) s1 else Some s1) = Some s2 \<and>
       wf_rings this a Pf Sf s2 \<and> ring_partition a Pf Sf s2 \<and>
       (\<forall>x. x \<noteq> this \<longrightarrow> regions s2 x = regions s1 x)"
  proof (cases ss2 rule: rev_cases)
    case Nil
    then have "next_not_root r2 = other" using g(5) by simp
    then show ?thesis using W1' Nil unfolding Pf_def Sf_def by auto
  next
    case (snoc bs2 l)
    have nn: "next_not_root r2 \<noteq> other"
      using path_nonempty_start[OF g(5)] g(7) snoc by auto
    have ll: "last_not_root r2 = l" using g(6) snoc by simp
    from path_last_next[OF g(5)[unfolded snoc]] obtain lob where
      lob: "heap s l = Some lob" and pl: "path (heap s) (next_not_root r2) bs2 l" by auto
    have nl: "l \<noteq> this" "l \<noteq> b" "this \<notin> set bs2" "b \<notin> set bs2"
      using dj g(7) snoc by auto
    have pl1: "path (heap s1) (next_not_root r2) bs2 l"
      using pl nl F1 by (subst path_cong[of _ _ "heap s"]) auto
    have cl1: "list_all (\<lambda>a. get_class a s1 = Some UNMARKED \<or> get_class a s1 = Some MARKED) bs2"
    proof -
      have eqh: "\<And>x. x \<in> set bs2 \<Longrightarrow> get_class x s1 = get_class x s"
        using F1 nl by (auto simp: get_class_def)
      show ?thesis using g(10) snoc eqh by (simp add: list_all_iff)
    qed
    have tr1: "list_all (\<lambda>x. is_trivial x s1 = Some (\<not> tb)) (bs2 @ [l])"
      using rp2 tb snoc T1 by (auto simp: ring_partition_def list_all_iff)
    have dj1: "set (bs2 @ [l]) \<inter> set (this # P1 @ a # S1) = {}"
      using dj g(7) snoc unfolding P1_def S1_def by auto
    have pre2: "path (heap s1) (next_not_root r2) bs2 l" "heap s1 l = Some lob"
      "distinct (bs2 @ [l])" "set (bs2 @ [l]) \<inter> set (this # P1 @ a # S1) = {}"
      "nullptr \<notin> set (bs2 @ [l])"
      "list_all (\<lambda>a. get_class a s1 = Some UNMARKED \<or> get_class a s1 = Some MARKED) bs2"
      "list_all (\<lambda>x. is_trivial x s1 = Some (\<not> tb)) (bs2 @ [l])"
      using pl1 lob F1 nl g(7,8) snoc dj1 cl1 tr1 by auto
    from append_wf[OF W1' pre2] obtain s2 where
      A2: "append this (next_not_root r2) l s1 = Some s2" and
      W2: "if is_trivial a s1 = Some (\<not> tb)
        then wf_rings this a (bs2 @ l # P1) S1 s2 \<and> ring_partition a (bs2 @ l # P1) S1 s2
        else wf_rings this a P1 (bs2 @ l # S1) s2 \<and> ring_partition a P1 (bs2 @ l # S1) s2" and
      R2: "\<forall>x. x \<noteq> this \<longrightarrow> regions s2 x = regions s1 x"
      by blast
    have "wf_rings this a Pf Sf s2 \<and> ring_partition a Pf Sf s2"
      using W2 T1 ta snoc unfolding Pf_def Sf_def by (auto split: if_splits)
    then show ?thesis using A2 R2 nn ll by auto
  qed
  then obtain s2 where
    A2: "(if next_not_root r2 \<noteq> other
           then append this (next_not_root r2) (last_not_root r2) s1 else Some s1) = Some s2" and
    W2: "wf_rings this a Pf Sf s2" "ring_partition a Pf Sf s2" and
    R2: "\<forall>x. x \<noteq> this \<longrightarrow> regions s2 x = regions s1 x"
    by blast
  have ro2: "regions s2 other = Some r2" using R2 ro1 ot by simp
  from wf_ringsD[OF W2(1)] obtain r where r: "regions s2 this = Some r" by metis
  let ?f3 = "\<lambda>r. r\<lparr>current_memory_used := current_memory_used r + current_memory_used r2\<rparr>"
  let ?s3 = "s2\<lparr>regions := (regions s2)(this \<mapsto> ?f3 r)\<rparr>"
  let ?f4 = "\<lambda>r. r\<lparr>previous_memory_used :=
               s2sc (sc2s (previous_memory_used r2) + sc2s (previous_memory_used r2))\<rparr>"
  let ?s4 = "?s3\<lparr>regions := (regions ?s3)(this \<mapsto> ?f4 (?f3 r))\<rparr>"
  have W3: "wf_rings this a Pf Sf ?s3"
    using upd_region_wf(2)[OF W2(1), of ?f3 this r] r by simp
  have W4: "wf_rings this a Pf Sf ?s4"
    using upd_region_wf(2)[OF W3, of ?f4 this "?f3 r"] by simp
  have RP4: "ring_partition a Pf Sf ?s4"
    using W2(2) by (subst ring_partition_heap[of _ s2]) auto
  have u3: "upd_region this ?f3 s2 = Some ?s3" using r by (simp add: upd_region_def)
  have ro3: "regions ?s3 other = Some r2" using ro2 ot by simp
  have u4: "upd_region this ?f4 ?s3 = Some ?s4" by (simp add: upd_region_def)
  have M: "merge_internal s2sc sc2s this b other s = Some ?s4"
    unfolding merge_internal_def using gr gn hn A1 ro1 A2 ro2 u3 ro3 u4
    by (simp del: mult_2 mult_2_right)
  have fin: "Pf = (if ta = tb then ps2 @ b # ps else ss2 @ ps)"
    "Sf = (if ta = tb then ss2 @ ss else ps2 @ b # ss)"
    unfolding Pf_def Sf_def P1_def S1_def by auto
  show ?thesis
    using M W4 RP4 ta tb unfolding fin by (intro exI[of _ ?s4]) (auto split: if_splits)
qed


text \<open>
  C1: for two distinct well-formed trace regions, \<open>merge_internal\<close> returns, and
  afterwards the recipient's \<open>previous_memory_used\<close> is
  \<open>size_to_sizeclass(sizeclass_to_size(d) + sizeclass_to_size(d))\<close> for the donor's
  size class \<open>d\<close>: the donor's decoded size doubled. The value the recipient held
  before does not occur in the result.
\<close>

theorem merge_internal_previous_memory_used:
  assumes wf1: "wf_rings this a ps ss s" and rp1: "ring_partition a ps ss s"
    and wf2: "wf_rings other b ps2 ss2 s" and rp2: "ring_partition b ps2 ss2 s"
    and dj: "set (this # ps @ a # ss) \<inter> set (other # ps2 @ b # ss2) = {}"
    and ro: "regions s other = Some ro"
  shows "\<exists>s' r'. merge_internal s2sc sc2s this b other s = Some s' \<and>
     regions s' this = Some r' \<and>
     previous_memory_used r' = s2sc (sc2s (previous_memory_used ro) + sc2s (previous_memory_used ro))"
proof -
  from merge_internal_wf[OF wf1 rp1 wf2 rp2 dj, of s2sc sc2s] obtain s' where
    m: "merge_internal s2sc sc2s this b other s = Some s'" by blast
  from merge_internal_pmu[OF m ro] m show ?thesis by blast
qed

lemma create_wf:
  assumes "o' \<noteq> nullptr" "p \<noteq> nullptr" "o' \<noteq> p" "heap s o' = None" "heap s p = None"
  shows "\<exists>s'. create sz dsc o' p s = Some (o', s') \<and>
     wf_rings p o' [] [] s' \<and> ring_partition o' [] [] s'"
  using assms
  by (simp add: create_def Alloc_alloc_def RegionTrace_init_def use_memory_def upd_region_def
      obj_defs wf_rings_def ring_partition_def raw_object_def)

text \<open>
  C5: the ring partition (every member of the primary ring is as trivial as the
  iso, every member of the secondary ring is not) holds of the region \<open>create\<close>
  returns, and \<open>alloc\<close> (through \<open>append\<close>), \<open>merge_internal\<close> and
  \<open>swap_root_internal\<close> each succeed on a well-formed, partitioned region and leave
  it well-formed and partitioned, with the new member, the donor's members, or the
  new iso in their places.
\<close>

theorem ring_partition_preserved:
  "(o' \<noteq> nullptr \<and> p \<noteq> nullptr \<and> o' \<noteq> p \<and> heap s o' = None \<and> heap s p = None \<longrightarrow>
      (\<exists>s'. create sz dsc o' p s = Some (o', s') \<and>
         wf_rings p o' [] [] s' \<and> ring_partition o' [] [] s')) \<and>
   (wf_rings this a ps ss s \<and> ring_partition a ps ss s \<and> heap s n = None \<and> n \<noteq> nullptr \<longrightarrow>
      (\<exists>s'. alloc dsc a n s = Some (n, s') \<and>
         (if is_trivial a s = Some (trivial dsc)
          then wf_rings this a (n # ps) ss s' \<and> ring_partition a (n # ps) ss s'
          else wf_rings this a ps (n # ss) s' \<and> ring_partition a ps (n # ss) s'))) \<and>
   (wf_rings this a ps ss s \<and> ring_partition a ps ss s \<and>
    wf_rings other b ps2 ss2 s \<and> ring_partition b ps2 ss2 s \<and>
    set (this # ps @ a # ss) \<inter> set (other # ps2 @ b # ss2) = {} \<longrightarrow>
      (\<exists>s'. merge_internal s2sc sc2s this b other s = Some s' \<and>
         (if is_trivial b s = is_trivial a s
          then wf_rings this a (ps2 @ b # ps) (ss2 @ ss) s' \<and>
               ring_partition a (ps2 @ b # ps) (ss2 @ ss) s'
          else wf_rings this a (ss2 @ ps) (ps2 @ b # ss) s' \<and>
               ring_partition a (ss2 @ ps) (ps2 @ b # ss) s'))) \<and>
   (wf_rings this a ps ss s \<and> ring_partition a ps ss s \<and> c \<in> set ps \<union> set ss \<longrightarrow>
      (\<exists>s' ps' ss'. swap_root_internal this a c s = Some s' \<and>
         wf_rings this c ps' ss' s' \<and> ring_partition c ps' ss' s' \<and>
         set (ps' @ c # ss') = set (ps @ a # ss)))"
proof (intro conjI impI)
  assume "o' \<noteq> nullptr \<and> p \<noteq> nullptr \<and> o' \<noteq> p \<and> heap s o' = None \<and> heap s p = None"
  then show "\<exists>s'. create sz dsc o' p s = Some (o', s') \<and>
         wf_rings p o' [] [] s' \<and> ring_partition o' [] [] s'"
    using create_wf by blast
next
  assume "wf_rings this a ps ss s \<and> ring_partition a ps ss s \<and> heap s n = None \<and> n \<noteq> nullptr"
  then show "\<exists>s'. alloc dsc a n s = Some (n, s') \<and>
         (if is_trivial a s = Some (trivial dsc)
          then wf_rings this a (n # ps) ss s' \<and> ring_partition a (n # ps) ss s'
          else wf_rings this a ps (n # ss) s' \<and> ring_partition a ps (n # ss) s')"
    using alloc_wf by blast
next
  assume "wf_rings this a ps ss s \<and> ring_partition a ps ss s \<and>
    wf_rings other b ps2 ss2 s \<and> ring_partition b ps2 ss2 s \<and>
    set (this # ps @ a # ss) \<inter> set (other # ps2 @ b # ss2) = {}"
  then show "\<exists>s'. merge_internal s2sc sc2s this b other s = Some s' \<and>
         (if is_trivial b s = is_trivial a s
          then wf_rings this a (ps2 @ b # ps) (ss2 @ ss) s' \<and>
               ring_partition a (ps2 @ b # ps) (ss2 @ ss) s'
          else wf_rings this a (ss2 @ ps) (ps2 @ b # ss) s' \<and>
               ring_partition a (ss2 @ ps) (ps2 @ b # ss) s')"
    using merge_internal_wf by blast
next
  assume "wf_rings this a ps ss s \<and> ring_partition a ps ss s \<and> c \<in> set ps \<union> set ss"
  then have "wf_rings this a ps ss s" "ring_partition a ps ss s" "c \<in> set ps \<union> set ss"
    by auto
  from swap_root_internal_wf[OF this]
  show "\<exists>s' ps' ss'. swap_root_internal this a c s = Some s' \<and>
         wf_rings this c ps' ss' s' \<and> ring_partition c ps' ss' s' \<and>
         set (ps' @ c # ss') = set (ps @ a # ss)"
    by blast
qed

section \<open>The sweep loop\<close>


lemma sweep_loop_rule:
  assumes "I todo prev p g s"
    and step: "\<And>x todo prev p g s. I (x # todo) prev p g s \<Longrightarrow>
       p \<noteq> this \<and> (\<exists>prev' p' g' s'.
         sweep_ring_body ring sa prim this prev p g s = Some (prev', p', g', s') \<and>
         I todo prev' p' g' s')"
  shows "\<exists>prev' p' g' s'.
     sweep_ring_loop ring sa prim this prev p g s = sweep_ring_loop ring sa prim this prev' p' g' s' \<and>
     I [] prev' p' g' s'"
  using assms(1)
proof (induction todo arbitrary: prev p g s)
  case Nil
  then show ?case by blast
next
  case (Cons x todo)
  from step[OF Cons.prems] obtain prev1 p1 g1 s1 where
    ne: "p \<noteq> this" and
    b: "sweep_ring_body ring sa prim this prev p g s = Some (prev1, p1, g1, s1)" and
    i: "I todo prev1 p1 g1 s1" by blast
  have "sweep_ring_loop ring sa prim this prev p g s = sweep_ring_loop ring sa prim this prev1 p1 g1 s1"
    using ne b by (subst sweep_ring_loop.simps) simp
  with Cons.IH[OF i] show ?case by simp
qed

lemma sweep_inv_init:
  assumes "sweep_pre ring sa prim this e s0 xs0"
  shows "sweep_inv ring prim this e s0 g0 [] xs0 this (hd (xs0 @ [e])) g0 s0"
proof -
  from assms obtain m0 r0 where h: "heap s0 this = Some m0" "regions s0 this = Some r0"
    and l: "if ring = prim then next m0 = hd (xs0 @ [e])
           else next_not_root r0 = hd (xs0 @ [e]) \<and> last_not_root r0 = last (this # xs0) \<and> e = this"
    by (auto simp: sweep_pre_def split: option.splits)
  have "regions s0 = (regions s0)(this \<mapsto> r0)" using h by auto
  then show ?thesis
    using h l unfolding sweep_inv_def
    by (cases m0) (auto simp: Let_def)
qed


lemma path_hd_next:
  "path h x (a # as) y \<Longrightarrow> \<exists>ob. h a = Some ob \<and> x = a \<and> path h (next ob) as y \<and>
     (as \<noteq> [] \<longrightarrow> next ob = hd as) \<and> (as = [] \<longrightarrow> next ob = y)"
  by (cases as) (auto split: option.splits)

lemma sweep_pre_elem:
  assumes pre: "sweep_pre ring sa prim this e s0 (done @ x # todo)"
  shows "\<exists>ob. heap s0 x = Some ob \<and> next ob = hd (todo @ [e]) \<and>
     (cls ob = UNMARKED \<or> (sa = No \<and> cls ob = MARKED)) \<and>
     trivial (descriptor ob) = (ring = TrivialRing)"
    "x \<noteq> this" "x \<notin> set done" "x \<notin> set todo" "this \<notin> set done" "this \<notin> set todo"
    "distinct done" "distinct todo" "set done \<inter> set todo = {}" "x \<noteq> e"
    "e \<notin> set done" "e \<notin> set todo"
proof -
  from pre have p: "path (heap s0) (hd ((done @ x # todo) @ [e])) (done @ x # todo) e"
    and d: "distinct (this # done @ x # todo)" "e \<notin> set (done @ x # todo)"
    and c: "get_class x s0 = Some UNMARKED \<or> (sa = No \<and> get_class x s0 = Some MARKED)"
    and t: "is_trivial x s0 = Some (ring = TrivialRing)"
    by (auto simp: sweep_pre_def)
  from p obtain y where "path (heap s0) y (x # todo) e" by (auto simp: path_append)
  from path_hd_next[OF this] obtain ob where ob: "heap s0 x = Some ob"
    "todo \<noteq> [] \<longrightarrow> next ob = hd todo" "todo = [] \<longrightarrow> next ob = e" by auto
  have "next ob = hd (todo @ [e])" using ob by (cases todo) auto
  then show "\<exists>ob. heap s0 x = Some ob \<and> next ob = hd (todo @ [e]) \<and>
     (cls ob = UNMARKED \<or> (sa = No \<and> cls ob = MARKED)) \<and>
     trivial (descriptor ob) = (ring = TrivialRing)"
    using ob c t by (auto simp: get_class_def is_trivial_def)
  show "x \<noteq> this" "x \<notin> set done" "x \<notin> set todo" "this \<notin> set done" "this \<notin> set todo"
    "distinct done" "distinct todo" "set done \<inter> set todo = {}" "x \<noteq> e"
    "e \<notin> set done" "e \<notin> set todo"
    using d by auto
qed

lemma sweep_step_marked:
  assumes pre: "sweep_pre ring sa prim this e s0 (done @ x # todo)"
    and inv: "sweep_inv ring prim this e s0 g0 done (x # todo) prev p g s"
    and mk: "get_class x s0 = Some MARKED"
  shows "\<exists>s'. sweep_ring_body ring sa prim this prev p g s = Some (x, hd (todo @ [e]), g, s') \<and>
         sweep_inv ring prim this e s0 g0 (done @ [x]) todo x (hd (todo @ [e])) g s'"
proof -
  from sweep_pre_elem[OF pre] obtain ob where ob: "heap s0 x = Some ob" "next ob = hd (todo @ [e])"
    "cls ob = UNMARKED \<or> (sa = No \<and> cls ob = MARKED)"
    and ne: "x \<noteq> this" "x \<notin> set done" "x \<notin> set todo" "this \<notin> set done" "this \<notin> set todo"
    by blast
  have cm: "cls ob = MARKED" "sa = No" using mk ob by (auto simp: get_class_def)
  define dead where "dead = filter (\<lambda>x. get_class x s0 = Some UNMARKED) done"
  define keep where "keep = filter (\<lambda>x. get_class x s0 = Some MARKED) done"
  note inv' = inv[unfolded sweep_inv_def Let_def, folded dead_def keep_def]
  from inv' have px: "p = x" by simp
  from inv' ne obtain r0 where hx: "heap s x = Some ob" and r0: "regions s0 this = Some r0"
    and rs: "regions s = (regions s0)(this \<mapsto>
               r0\<lparr>current_memory_used :=
                    current_memory_used r0 + sum_list (map (\<lambda>x. the (obj_size x s0)) keep),
                  next_not_root :=
                    (if ring \<noteq> prim then hd (keep @ [p]) else next_not_root r0),
                  last_not_root :=
                    (if ring \<noteq> prim \<and> x # todo = [] then last (this # keep)
                     else last_not_root r0),
                  ext_refs :=
                    (if ring = TrivialRing
                     then ext_refs r0 - {x \<in> set dead. has_ext_ref x s0 = Some True}
                     else ext_refs r0)\<rparr>)"
    using ob by (auto split: option.splits)
  let ?r = "the (regions s this)"
  let ?s' = "s\<lparr>regions := (regions s)(this \<mapsto> ?r\<lparr>current_memory_used := current_memory_used ?r + size_d (descriptor ob)\<rparr>),
     heap := (heap s)(x \<mapsto> ob\<lparr>cls := UNMARKED\<rparr>)\<rparr>"
  have b: "sweep_ring_body ring sa prim this prev p g s = Some (x, hd (todo @ [e]), g, ?s')"
    using px hx cm ob(2) rs
    by (simp add: sweep_ring_body_def assert_def obj_defs use_memory_def upd_region_def)
  have fk: "filter (\<lambda>x. get_class x s0 = Some MARKED) (done @ [x]) = keep @ [x]"
    "filter (\<lambda>x. get_class x s0 = Some UNMARKED) (done @ [x]) = dead"
    using mk by (simp_all add: keep_def dead_def)
  have xk: "x \<notin> set keep" "x \<notin> set dead" using ne by (auto simp: keep_def dead_def)
  have hk: "hd ((keep @ [x]) @ [hd (todo @ [e])]) = hd (keep @ [p])" using px by (cases keep) auto
  have lr: "ring \<noteq> prim \<Longrightarrow> todo = [] \<Longrightarrow> last_not_root r0 = x"
    using pre r0 by (auto simp: sweep_pre_def split: option.splits)
  have c3: "\<forall>y. y \<notin> set (done @ [x]) \<longrightarrow> y \<noteq> this \<longrightarrow> heap ?s' y = heap s0 y"
    using inv' by auto
  have c4: "heap ?s' this = (if ring = prim
           then map_option (\<lambda>m. m\<lparr>next := hd (keep @ [p])\<rparr>) (heap s0 this)
           else heap s0 this)"
    using inv' ne by auto
  have c5: "path (heap ?s') (hd (keep @ [p])) (keep @ [x]) (hd (todo @ [e]))"
    using inv' xk px ob(2) by (auto simp: path_append path_upd)
  have c6: "list_all (\<lambda>x. \<exists>ob n. heap s0 x = Some ob \<and>
                         heap ?s' x = Some (ob\<lparr>next := n, cls := UNMARKED\<rparr>)) (keep @ [x])"
  proof -
    have "\<exists>ob' n. heap s0 x = Some ob' \<and> heap ?s' x = Some (ob'\<lparr>next := n, cls := UNMARKED\<rparr>)"
      by (rule exI[of _ ob], rule exI[of _ "next ob"]) (simp add: ob)
    moreover have "\<forall>y\<in>set keep. \<exists>ob n. heap s0 y = Some ob \<and>
        heap ?s' y = Some (ob\<lparr>next := n, cls := UNMARKED\<rparr>)"
      using inv' xk unfolding list_all_iff by auto
    ultimately show ?thesis unfolding list_all_iff by auto
  qed
  have c7: "if ring = TrivialRing
         then list_all (\<lambda>x. heap ?s' x = None) dead \<and> g = g0
         else path (heap ?s') g (rev dead) g0 \<and>
              list_all (\<lambda>x. \<exists>ob n. heap s0 x = Some ob \<and>
                         heap ?s' x = Some (ob\<lparr>next := n, cls := UNMARKED\<rparr>)) dead"
    using inv' xk unfolding list_all_iff by (auto simp: path_upd)
  have sz: "the (obj_size x s0) = size_d (descriptor ob)" using ob(1) by (simp add: obj_size_def)
  have c8: "regions ?s' = (regions s0)(this \<mapsto>
               r0\<lparr>current_memory_used :=
                    current_memory_used r0 + sum_list (map (\<lambda>x. the (obj_size x s0)) (keep @ [x])),
                  next_not_root :=
                    (if ring \<noteq> prim then hd (keep @ [p]) else next_not_root r0),
                  last_not_root :=
                    (if ring \<noteq> prim \<and> todo = [] then last (this # keep @ [x])
                     else last_not_root r0),
                  ext_refs :=
                    (if ring = TrivialRing
                     then ext_refs r0 - {x \<in> set dead. has_ext_ref x s0 = Some True}
                     else ext_refs r0)\<rparr>)"
    using rs sz lr by (auto simp: add.assoc)
  have c9: "events ?s' = events s0 @ map (if ring = TrivialRing then Dealloc else Finalise) dead"
    using inv' by simp
  have "sweep_inv ring prim this e s0 g0 (done @ [x]) todo x (hd (todo @ [e])) g ?s'"
    unfolding sweep_inv_def Let_def fk hk
    using c3 c4 c5 c6 c7 c8 c9 r0 by simp
  with b show ?thesis by blast
qed



lemma sweep_invD:
  assumes "sweep_inv ring prim this e s0 g0 done todo prev p g s"
  shows "p = hd (todo @ [e])"
    "prev = last (this # filter (\<lambda>x. get_class x s0 = Some MARKED) done)"
    "\<forall>x. x \<notin> set done \<longrightarrow> x \<noteq> this \<longrightarrow> heap s x = heap s0 x"
    "heap s this =
          (if ring = prim
           then map_option (\<lambda>m. m\<lparr>next := hd (filter (\<lambda>x. get_class x s0 = Some MARKED) done @ [p])\<rparr>) (heap s0 this)
           else heap s0 this)"
    "path (heap s) (hd (filter (\<lambda>x. get_class x s0 = Some MARKED) done @ [p]))
       (filter (\<lambda>x. get_class x s0 = Some MARKED) done) p"
    "list_all (\<lambda>x. \<exists>ob n. heap s0 x = Some ob \<and>
                         heap s x = Some (ob\<lparr>next := n, cls := UNMARKED\<rparr>))
       (filter (\<lambda>x. get_class x s0 = Some MARKED) done)"
    "if ring = TrivialRing
         then list_all (\<lambda>x. heap s x = None) (filter (\<lambda>x. get_class x s0 = Some UNMARKED) done) \<and> g = g0
         else path (heap s) g (rev (filter (\<lambda>x. get_class x s0 = Some UNMARKED) done)) g0 \<and>
              list_all (\<lambda>x. \<exists>ob n. heap s0 x = Some ob \<and>
                         heap s x = Some (ob\<lparr>next := n, cls := UNMARKED\<rparr>))
                (filter (\<lambda>x. get_class x s0 = Some UNMARKED) done)"
    "case regions s0 this of
           None \<Rightarrow> False
         | Some r0 \<Rightarrow>
             regions s = (regions s0)(this \<mapsto>
               r0\<lparr>current_memory_used :=
                    current_memory_used r0 +
                    sum_list (map (\<lambda>x. the (obj_size x s0)) (filter (\<lambda>x. get_class x s0 = Some MARKED) done)),
                  next_not_root :=
                    (if ring \<noteq> prim then hd (filter (\<lambda>x. get_class x s0 = Some MARKED) done @ [p])
                     else next_not_root r0),
                  last_not_root :=
                    (if ring \<noteq> prim \<and> todo = []
                     then last (this # filter (\<lambda>x. get_class x s0 = Some MARKED) done)
                     else last_not_root r0),
                  ext_refs :=
                    (if ring = TrivialRing
                     then ext_refs r0 - {x \<in> set (filter (\<lambda>x. get_class x s0 = Some UNMARKED) done).
                            has_ext_ref x s0 = Some True}
                     else ext_refs r0)\<rparr>)"
    "events s = events s0 @ map (if ring = TrivialRing then Dealloc else Finalise)
       (filter (\<lambda>x. get_class x s0 = Some UNMARKED) done)"
  using assms unfolding sweep_inv_def Let_def by blast+

lemma sweep_step_dead:
  assumes pre: "sweep_pre ring sa prim this e s0 (done @ x # todo)"
    and inv: "sweep_inv ring prim this e s0 g0 done (x # todo) prev p g s"
    and um: "get_class x s0 = Some UNMARKED"
  shows "\<exists>s'. sweep_ring_body ring sa prim this prev p g s =
           Some (prev, hd (todo @ [e]), if ring = TrivialRing then g else x, s') \<and>
         sweep_inv ring prim this e s0 g0 (done @ [x]) todo prev (hd (todo @ [e]))
           (if ring = TrivialRing then g else x) s'"
proof -
  from sweep_pre_elem[OF pre] obtain ob where ob: "heap s0 x = Some ob" "next ob = hd (todo @ [e])"
    "trivial (descriptor ob) = (ring = TrivialRing)"
    and ne: "x \<noteq> this" "x \<notin> set done" "x \<notin> set todo" "this \<notin> set done" "this \<notin> set todo"
      "distinct done"
    by blast
  have cu: "cls ob = UNMARKED" using um ob by (auto simp: get_class_def)
  define q where "q = hd (todo @ [e])"
  define dead where "dead = filter (\<lambda>x. get_class x s0 = Some UNMARKED) done"
  define keep where "keep = filter (\<lambda>x. get_class x s0 = Some MARKED) done"
  note i = sweep_invD[OF inv, folded dead_def keep_def]
  note inv' = i(3,4,6)
  from i have px: "p = x" and pv: "prev = last (this # keep)" by simp_all
  from pre obtain m0 r0 where m0: "heap s0 this = Some m0" and r0: "regions s0 this = Some r0"
    and l0: "ring \<noteq> prim \<Longrightarrow> last_not_root r0 = last (this # done @ x # todo)"
    by (auto simp: sweep_pre_def split: option.splits if_splits)
  define r where "r = r0\<lparr>current_memory_used :=
                    current_memory_used r0 + sum_list (map (\<lambda>x. the (obj_size x s0)) keep),
                  next_not_root :=
                    (if ring \<noteq> prim then hd (keep @ [p]) else next_not_root r0),
                  last_not_root := last_not_root r0,
                  ext_refs :=
                    (if ring = TrivialRing
                     then ext_refs r0 - {x \<in> set dead. has_ext_ref x s0 = Some True}
                     else ext_refs r0)\<rparr>"
  have hx: "heap s x = Some ob" using i(3) ne ob by simp
  have rs: "regions s = (regions s0)(this \<mapsto> r)" using i(8) r0 by (simp add: r_def)
  have xk: "x \<notin> set keep" "x \<notin> set dead" "this \<notin> set keep" "this \<notin> set dead"
    "distinct keep" "set keep \<inter> set dead = {}"
    using ne by (auto simp: keep_def dead_def)
  have pin: "keep \<noteq> [] \<Longrightarrow> prev \<in> set keep" using pv by simp
  have pnx: "prev \<noteq> x"
  proof (cases "keep = []")
    case True then show ?thesis using pv ne by simp
  next
    case False then show ?thesis using pin xk by blast
  qed
  have pnd: "prev \<notin> set dead"
  proof (cases "keep = []")
    case True then show ?thesis using pv xk by simp
  next
    case False then show ?thesis using pin xk by blast
  qed
  obtain pob where pob: "heap s prev = Some pob"
  proof (cases "keep = []")
    case True
    then show ?thesis using inv' pv m0 that by (auto split: if_splits)
  next
    case False
    then have "prev \<in> set keep" using pv by simp
    then show ?thesis using inv' that unfolding list_all_iff by blast
  qed
  define rl where "rl \<longleftrightarrow> ring \<noteq> prim \<and> prev = this"
  define h1 where "h1 = (if ring = TrivialRing then (heap s)(x := None)
                         else (heap s)(x \<mapsto> ob\<lparr>next := g, cls := UNMARKED\<rparr>))"
  define h' where "h' = (if rl then h1 else h1(prev \<mapsto> pob\<lparr>next := q\<rparr>))"
  define r' where "r' = r\<lparr>ext_refs := (if ring = TrivialRing \<and> ext_ref ob then ext_refs r - {x}
                                        else ext_refs r),
                          next_not_root := (if rl then q else next_not_root r),
                          last_not_root := (if ring \<noteq> prim \<and> last_not_root r = x then prev
                                            else last_not_root r)\<rparr>"
  define s' where "s' = s\<lparr>heap := h', regions := (regions s)(this \<mapsto> r'),
     events := events s @ [if ring = TrivialRing then Dealloc x else Finalise x]\<rparr>"
  have b: "sweep_ring_body ring sa prim this prev p g s =
           Some (prev, q, if ring = TrivialRing then g else x, s')"
  proof (cases ring)
    case TrivialRing
    then show ?thesis
      using px hx cu ob(2,3) rs pob pnx
      unfolding s'_def h'_def h1_def r'_def rl_def q_def
      by (cases "ext_ref ob")
         (auto simp: sweep_ring_body_def sweep_object_def assert_def obj_defs upd_region_def
          dealloc_def ExternalReferenceTable_erase_def)
  next
    case NonTrivialRing
    then show ?thesis
      using px hx cu ob(2,3) rs pob pnx
      unfolding s'_def h'_def h1_def r'_def rl_def q_def
      by (auto simp: sweep_ring_body_def sweep_object_def assert_def obj_defs upd_region_def
          finalise_def)
  qed
  have fk: "filter (\<lambda>x. get_class x s0 = Some MARKED) (done @ [x]) = keep"
    "filter (\<lambda>x. get_class x s0 = Some UNMARKED) (done @ [x]) = dead @ [x]"
    using um by (simp_all add: keep_def dead_def)
  have hs: "heap s' = h'" "events s' = events s @ [if ring = TrivialRing then Dealloc x else Finalise x]"
    "regions s' = (regions s)(this \<mapsto> r')"
    by (simp_all add: s'_def)
  have c3: "\<forall>y. y \<notin> set (done @ [x]) \<longrightarrow> y \<noteq> this \<longrightarrow> heap s' y = heap s0 y"
  proof (intro allI impI)
    fix y assume y: "y \<notin> set (done @ [x])" "y \<noteq> this"
    have "y \<noteq> prev"
    proof (cases "keep = []")
      case True then show ?thesis using pv y by simp
    next
      case False then have "prev \<in> set done" using pin by (auto simp: keep_def)
      then show ?thesis using y by auto
    qed
    then have "h' y = heap s y" using y unfolding h'_def h1_def by simp
    then show "heap s' y = heap s0 y" using y i(3) hs by simp
  qed
  have h1t: "h1 this = heap s this" using ne unfolding h1_def by simp
  have c4: "heap s' this = (if ring = prim
           then map_option (\<lambda>m. m\<lparr>next := hd (keep @ [q])\<rparr>) (heap s0 this)
           else heap s0 this)"
  proof (cases "keep = []")
    case True
    then have pt: "prev = this" using pv by simp
    show ?thesis
    proof (cases "ring = prim")
      case True
      have "pob = m0\<lparr>next := hd (keep @ [p])\<rparr>" using i(4) pob pt m0 True by simp
      then show ?thesis using True pt m0 \<open>keep = []\<close> unfolding hs h'_def rl_def by simp
    next
      case False
      then show ?thesis using pt i(4) h1t unfolding hs h'_def rl_def by simp
    qed
  next
    case False
    then have pt: "prev \<noteq> this" using pin xk by blast
    have "hd (keep @ [q]) = hd (keep @ [p])" using False by (cases keep) auto
    then show ?thesis using i(4) pt h1t unfolding hs h'_def rl_def by simp
  qed
  have h'x: "h' x = h1 x" using pnx unfolding h'_def by simp
  have h'o: "\<And>y. y \<noteq> x \<Longrightarrow> y \<noteq> prev \<Longrightarrow> h' y = heap s y" unfolding h'_def h1_def by simp
  have c5: "path (heap s') (hd (keep @ [q])) keep q"
  proof (cases keep rule: rev_cases)
    case Nil
    then show ?thesis by simp
  next
    case (snoc k l)
    then have lp: "l = prev" using pv by simp
    have nrl: "\<not> rl" using pin xk snoc unfolding rl_def by auto
    have "path (heap s) (hd (keep @ [p])) (k @ [prev]) x" using i(5) snoc lp px by simp
    from path_last_next[OF this] have pk: "path (heap s) (hd (keep @ [p])) k prev" by auto
    have kd: "prev \<notin> set k" "x \<notin> set k" using xk snoc lp by auto
    have "\<And>a. a \<in> set k \<Longrightarrow> h' a = heap s a" using kd h'o by metis
    then have "path h' (hd (keep @ [p])) k prev"
      using pk by (subst path_cong[of _ _ "heap s"]) auto
    moreover have "h' prev = Some (pob\<lparr>next := q\<rparr>)" using nrl unfolding h'_def by simp
    moreover have "keep \<noteq> []" using snoc by simp
    then have "hd (keep @ [q]) = hd (keep @ [p])" by simp
    ultimately show ?thesis unfolding hs using snoc lp by (simp add: path_append)
  qed
  have c6: "list_all (\<lambda>x. \<exists>ob n. heap s0 x = Some ob \<and>
                         heap s' x = Some (ob\<lparr>next := n, cls := UNMARKED\<rparr>)) keep"
    unfolding list_all_iff
  proof
    fix y assume y: "y \<in> set keep"
    with i(6) obtain ob0 n where o0: "heap s0 y = Some ob0"
      "heap s y = Some (ob0\<lparr>next := n, cls := UNMARKED\<rparr>)"
      unfolding list_all_iff by blast
    have yx: "y \<noteq> x" using y xk by auto
    show "\<exists>ob n. heap s0 y = Some ob \<and> heap s' y = Some (ob\<lparr>next := n, cls := UNMARKED\<rparr>)"
    proof (cases "y = prev \<and> \<not> rl")
      case True
      then have "h' y = Some (pob\<lparr>next := q\<rparr>)" unfolding h'_def by simp
      moreover have "pob = ob0\<lparr>next := n, cls := UNMARKED\<rparr>" using True pob o0 by simp
      ultimately have "heap s' y = Some (ob0\<lparr>next := q, cls := UNMARKED\<rparr>)" unfolding hs by simp
      with o0 show ?thesis by blast
    next
      case False
      then have "h' y = heap s y" using yx unfolding h'_def h1_def by auto
      with o0 show ?thesis unfolding hs by auto
    qed
  qed
  have hd': "\<And>y. y \<in> set dead \<Longrightarrow> h' y = heap s y" using h'o xk pnd by metis
  have c7: "if ring = TrivialRing
         then list_all (\<lambda>x. heap s' x = None) (dead @ [x]) \<and> (if ring = TrivialRing then g else x) = g0
         else path (heap s') (if ring = TrivialRing then g else x) (rev (dead @ [x])) g0 \<and>
              list_all (\<lambda>x. \<exists>ob n. heap s0 x = Some ob \<and>
                         heap s' x = Some (ob\<lparr>next := n, cls := UNMARKED\<rparr>)) (dead @ [x])"
  proof (cases ring)
    case TrivialRing
    have "h' x = None" using h'x TrivialRing unfolding h1_def by simp
    moreover have "\<forall>y\<in>set dead. h' y = None"
      using i(7) hd' TrivialRing unfolding list_all_iff by simp
    ultimately show ?thesis using TrivialRing i(7) unfolding hs list_all_iff by simp
  next
    case NonTrivialRing
    have hx': "h' x = Some (ob\<lparr>next := g, cls := UNMARKED\<rparr>)"
      using h'x NonTrivialRing unfolding h1_def by simp
    have pg: "path (heap s) g (rev dead) g0" using i(7) NonTrivialRing by simp
    have "path h' g (rev dead) g0"
      using pg hd' by (subst path_cong[of _ _ "heap s"]) auto
    then have p1: "path h' x (rev (dead @ [x])) g0" using hx' by simp
    have "\<forall>y\<in>set dead. \<exists>ob n. heap s0 y = Some ob \<and> h' y = Some (ob\<lparr>next := n, cls := UNMARKED\<rparr>)"
      using i(7) hd' NonTrivialRing unfolding list_all_iff by simp
    moreover have "\<exists>ob' n. heap s0 x = Some ob' \<and> h' x = Some (ob'\<lparr>next := n, cls := UNMARKED\<rparr>)"
      using hx' ob(1) by blast
    ultimately show ?thesis using NonTrivialRing p1 unfolding hs list_all_iff by simp
  qed
  have c9: "events s' = events s0 @ map (if ring = TrivialRing then Dealloc else Finalise) (dead @ [x])"
    using i(9) unfolding hs by simp
  have rf: "next_not_root r = (if ring \<noteq> prim then hd (keep @ [p]) else next_not_root r0)"
    "last_not_root r = last_not_root r0"
    "ext_refs r = (if ring = TrivialRing
                     then ext_refs r0 - {x \<in> set dead. has_ext_ref x s0 = Some True}
                     else ext_refs r0)"
    by (simp_all add: r_def)
  have nn: "(if rl then q else next_not_root r) =
      (if ring \<noteq> prim then hd (keep @ [q]) else next_not_root r0)"
  proof (cases "keep = []")
    case True
    then show ?thesis using pv rf(1) unfolding rl_def by simp
  next
    case False
    then have "prev \<noteq> this" using pin xk by blast
    then show ?thesis using False rf(1) unfolding rl_def by simp
  qed
  have ll: "(if ring \<noteq> prim \<and> last_not_root r = x then prev else last_not_root r) =
      (if ring \<noteq> prim \<and> todo = [] then last (this # keep) else last_not_root r0)"
  proof (cases "ring \<noteq> prim")
    case True
    have "(last_not_root r0 = x) = (todo = [])"
    proof (cases "todo = []")
      case True
      then show ?thesis using l0[OF \<open>ring \<noteq> prim\<close>] by simp
    next
      case False
      then have "last_not_root r0 = last todo" using l0[OF \<open>ring \<noteq> prim\<close>] by simp
      moreover have "last todo \<in> set todo" using False by simp
      ultimately show ?thesis using False ne(3) by metis
    qed
    then show ?thesis using True rf(2) pv by simp
  next
    case False
    then show ?thesis using rf(2) by simp
  qed
  have hx0: "has_ext_ref x s0 = Some (ext_ref ob)" using ob(1) by (simp add: has_ext_ref_def)
  have ee: "(if ring = TrivialRing \<and> ext_ref ob then ext_refs r - {x} else ext_refs r) =
      (if ring = TrivialRing
       then ext_refs r0 - {y \<in> set (dead @ [x]). has_ext_ref y s0 = Some True}
       else ext_refs r0)"
    using rf(3) hx0 by (cases "ext_ref ob") auto
  have r'e: "r' = r0\<lparr>current_memory_used :=
                    current_memory_used r0 + sum_list (map (\<lambda>x. the (obj_size x s0)) keep),
                  next_not_root :=
                    (if ring \<noteq> prim then hd (keep @ [q]) else next_not_root r0),
                  last_not_root :=
                    (if ring \<noteq> prim \<and> todo = [] then last (this # keep)
                     else last_not_root r0),
                  ext_refs :=
                    (if ring = TrivialRing
                     then ext_refs r0 - {y \<in> set (dead @ [x]). has_ext_ref y s0 = Some True}
                     else ext_refs r0)\<rparr>"
    unfolding r'_def nn ll ee by (simp add: r_def)
  have c8: "regions s' = (regions s0)(this \<mapsto> r')" unfolding hs rs by simp
  have "sweep_inv ring prim this e s0 g0 (done @ [x]) todo prev q
           (if ring = TrivialRing then g else x) s'"
    unfolding sweep_inv_def Let_def fk
    using pv c3 c4 c5 c6 c7 c8[unfolded r'e] c9 r0 unfolding q_def by simp
  with b show ?thesis unfolding q_def by blast
qed


lemma sweep_members:
  assumes pre: "sweep_pre ring sa prim this e s0 xs0"
  shows "\<exists>prev' g' s'.
     sweep_ring_loop ring sa prim this this (hd (xs0 @ [e])) g0 s0 =
     sweep_ring_loop ring sa prim this prev' e g' s' \<and>
     sweep_inv ring prim this e s0 g0 xs0 [] prev' e g' s'"
proof -
  define I where "I = (\<lambda>todo prev p g s. \<exists>done. xs0 = done @ todo \<and>
     sweep_inv ring prim this e s0 g0 done todo prev p g s)"
  have init: "I xs0 this (hd (xs0 @ [e])) g0 s0"
    unfolding I_def using sweep_inv_init[OF pre] by blast
  have step: "\<And>x todo prev p g s. I (x # todo) prev p g s \<Longrightarrow>
       p \<noteq> this \<and> (\<exists>prev' p' g' s'.
         sweep_ring_body ring sa prim this prev p g s = Some (prev', p', g', s') \<and>
         I todo prev' p' g' s')"
  proof -
    fix x todo prev p g s assume "I (x # todo) prev p g s"
    then obtain dn where xs: "xs0 = dn @ x # todo"
      and inv: "sweep_inv ring prim this e s0 g0 dn (x # todo) prev p g s"
      unfolding I_def by blast
    note pre' = pre[unfolded xs]
    have px: "p = x" using sweep_invD(1)[OF inv] by simp
    have ne: "x \<noteq> this" using sweep_pre_elem(2)[OF pre'] .
    have xs': "xs0 = (dn @ [x]) @ todo" using xs by simp
    from pre' have "get_class x s0 = Some UNMARKED \<or> get_class x s0 = Some MARKED"
      by (auto simp: sweep_pre_def)
    then have "\<exists>prev' p' g' s'.
         sweep_ring_body ring sa prim this prev p g s = Some (prev', p', g', s') \<and>
         I todo prev' p' g' s'"
    proof
      assume "get_class x s0 = Some UNMARKED"
      from sweep_step_dead[OF pre' inv this] obtain s' where
        bi: "sweep_ring_body ring sa prim this prev p g s =
           Some (prev, hd (todo @ [e]), if ring = TrivialRing then g else x, s') \<and>
         sweep_inv ring prim this e s0 g0 (dn @ [x]) todo prev (hd (todo @ [e]))
           (if ring = TrivialRing then g else x) s'" ..
      note b = conjunct1[OF bi] and i' = conjunct2[OF bi]
      have "I todo prev (hd (todo @ [e])) (if ring = TrivialRing then g else x) s'"
        unfolding I_def using xs' i' by (intro exI[of _ "dn @ [x]"] conjI)
      with b show ?thesis by (intro exI conjI)
    next
      assume "get_class x s0 = Some MARKED"
      from sweep_step_marked[OF pre' inv this] obtain s' where
        bi: "sweep_ring_body ring sa prim this prev p g s = Some (x, hd (todo @ [e]), g, s') \<and>
         sweep_inv ring prim this e s0 g0 (dn @ [x]) todo x (hd (todo @ [e])) g s'" ..
      note b = conjunct1[OF bi] and i' = conjunct2[OF bi]
      have "I todo x (hd (todo @ [e])) g s'"
        unfolding I_def using xs' i' by (intro exI[of _ "dn @ [x]"] conjI)
      with b show ?thesis by (intro exI conjI)
    qed
    then show "p \<noteq> this \<and> (\<exists>prev' p' g' s'.
         sweep_ring_body ring sa prim this prev p g s = Some (prev', p', g', s') \<and>
         I todo prev' p' g' s')"
      using px ne by simp
  qed
  have "\<exists>prev' p' g' s'.
     sweep_ring_loop ring sa prim this this (hd (xs0 @ [e])) g0 s0 =
     sweep_ring_loop ring sa prim this prev' p' g' s' \<and> I [] prev' p' g' s'"
    by (rule sweep_loop_rule[where I=I and todo=xs0], rule init, erule step)
  then obtain prev' p' g' s' where
    li: "sweep_ring_loop ring sa prim this this (hd (xs0 @ [e])) g0 s0 =
        sweep_ring_loop ring sa prim this prev' p' g' s' \<and> I [] prev' p' g' s'"
    by (elim exE) (rule that)
  note l = conjunct1[OF li] and i = conjunct2[OF li]
  from i have inv: "sweep_inv ring prim this e s0 g0 xs0 [] prev' p' g' s'"
    unfolding I_def by simp
  have "p' = e" using sweep_invD(1)[OF inv] by simp
  with l inv show ?thesis by (intro exI[of _ prev'] exI[of _ g'] exI[of _ s']) simp
qed



lemma destroy_loop_list:
  assumes "path (heap s) g ds nullptr" "distinct ds" "nullptr \<notin> set ds"
    "list_all (\<lambda>d. get_class d s \<noteq> Some ISO) ds"
  shows "destroy_loop g s = Some (s\<lparr>heap := heap s |` (- set ds),
     events := events s @ concat (map (\<lambda>d. [Destructor d, Dealloc d]) ds)\<rparr>)"
  using assms
proof (induction ds arbitrary: g s)
  case Nil
  then show ?case by (subst destroy_loop.simps) (simp add: restrict_map_def)
next
  case (Cons d ds)
  then obtain ob where ob: "g = d" "heap s d = Some ob" "path (heap s) (next ob) ds nullptr"
    "cls ob \<noteq> ISO"
    by (auto simp: get_class_def split: option.splits)
  let ?s1 = "s\<lparr>heap := (heap s)(d := None), events := events s @ [Destructor d, Dealloc d]\<rparr>"
  have p: "path (heap ?s1) (next ob) ds nullptr"
    using ob(3) Cons.prems(2) by (simp add: path_upd)
  have c: "list_all (\<lambda>d. get_class d ?s1 \<noteq> Some ISO) ds"
    using Cons.prems(2,4) by (auto simp: list_all_iff get_class_def)
  have r: "(heap s)(d := None) |` (- set ds) = heap s |` (- set (d # ds))"
    by (auto simp: restrict_map_def fun_eq_iff)
  have st: "destroy_loop g s = destroy_loop (next ob) ?s1"
    using ob Cons.prems(3)
    by (subst destroy_loop.simps)
       (simp add: get_next_def obj_destructor_def dealloc_def)
  have ih: "destroy_loop (next ob) ?s1 = Some (?s1\<lparr>heap := heap ?s1 |` (- set ds),
     events := events ?s1 @ concat (map (\<lambda>d. [Destructor d, Dealloc d]) ds)\<rparr>)"
    by (rule Cons.IH[OF p _ _ c]) (use Cons.prems in auto)
  have eq: "?s1\<lparr>heap := heap ?s1 |` (- set ds),
     events := events ?s1 @ concat (map (\<lambda>d. [Destructor d, Dealloc d]) ds)\<rparr> =
     s\<lparr>heap := heap s |` (- set (d # ds)),
     events := events s @ concat (map (\<lambda>d. [Destructor d, Dealloc d]) (d # ds))\<rparr>"
    by (rule State.equality) (auto simp: restrict_map_def fun_eq_iff)
  show ?case unfolding st ih eq ..
qed


lemma push_iso_fields_total:
  assumes "\<forall>q\<in>set qs. heap s q \<noteq> None"
  shows "\<exists>c'. push_iso_fields o' qs collect s = Some c'"
  using assms
proof (induction qs arbitrary: collect)
  case Nil
  then show ?case by simp
next
  case (Cons q qs)
  then obtain ob where "heap s q = Some ob" by auto
  then show ?case using Cons by (simp add: get_class_def)
qed

lemma push_iso_fields_exact:
  assumes "\<forall>q\<in>set qs. heap s q \<noteq> None"
  shows "push_iso_fields o' qs collect s =
     Some (rev (filter (\<lambda>q. get_class q s = Some ISO \<and> q \<noteq> o') qs) @ collect)"
  using assms
proof (induction qs arbitrary: collect)
  case Nil
  then show ?case by simp
next
  case (Cons q qs)
  then obtain ob where "heap s q = Some ob" by auto
  then show ?case using Cons by (simp add: get_class_def)
qed

lemma iso_refs_events [simp]: "iso_refs o' (s\<lparr>events := es\<rparr>) = iso_refs o' s"
proof
  fix d
  have "\<And>q. get_class q (s\<lparr>events := es\<rparr>) = get_class q s" by (simp add: get_class_def)
  then show "iso_refs o' (s\<lparr>events := es\<rparr>) d = iso_refs o' s d"
    by (cases "heap s d") (simp_all add: iso_refs_def)
qed

lemma find_iso_loop_list:
  assumes "path (heap s) g ds nullptr" "nullptr \<notin> set ds"
    "list_all (\<lambda>d. get_class d s \<noteq> Some ISO) ds"
    "list_all (\<lambda>d. \<forall>ob. heap s d = Some ob \<longrightarrow> (\<forall>q\<in>set (flds ob). heap s q \<noteq> None)) ds"
  shows "\<exists>collect'. find_iso_loop g o' [] collect s =
     Some ([], collect', s\<lparr>events := events s @ map FindIsoFields ds\<rparr>) \<and>
     (ds = [] \<longrightarrow> collect' = collect) \<and>
     collect' = concat (map (iso_refs o' s) (rev ds)) @ collect"
  using assms
proof (induction ds arbitrary: g collect s)
  case Nil
  then show ?case by (subst find_iso_loop.simps) simp
next
  case (Cons d ds)
  then obtain ob where ob: "g = d" "heap s d = Some ob" "path (heap s) (next ob) ds nullptr"
    "cls ob \<noteq> ISO" "\<forall>q\<in>set (flds ob). heap s q \<noteq> None"
    by (auto simp: get_class_def split: option.splits)
  define c1 where "c1 = iso_refs o' s d @ collect"
  have "\<forall>q\<in>set (rev (flds ob)). heap s q \<noteq> None" using ob(5) by simp
  from push_iso_fields_exact[OF this, of o' collect]
  have c1: "push_iso_fields o' (rev (flds ob)) collect s = Some c1"
    unfolding c1_def iso_refs_def by (simp add: ob(2) rev_filter)
  let ?s1 = "s\<lparr>events := events s @ [FindIsoFields d]\<rparr>"
  have st: "find_iso_loop g o' [] collect s = find_iso_loop (next ob) o' [] c1 ?s1"
    using ob c1 Cons.prems(2)
    by (subst find_iso_loop.simps)
       (simp add: find_iso_fields_def trace_def get_next_def)
  have pre: "path (heap ?s1) (next ob) ds nullptr" "nullptr \<notin> set ds"
    "list_all (\<lambda>d. get_class d ?s1 \<noteq> Some ISO) ds"
    "list_all (\<lambda>d. \<forall>ob. heap ?s1 d = Some ob \<longrightarrow> (\<forall>q\<in>set (flds ob). heap ?s1 q \<noteq> None)) ds"
    using ob(3) Cons.prems by (simp_all add: get_class_def)
  from Cons.IH[OF pre, of c1] obtain c2 where
    c2: "find_iso_loop (next ob) o' [] c1 ?s1 =
       Some ([], c2, ?s1\<lparr>events := events ?s1 @ map FindIsoFields ds\<rparr>)"
    "c2 = concat (map (iso_refs o' ?s1) (rev ds)) @ c1" by blast
  have "c2 = concat (map (iso_refs o' s) (rev (d # ds))) @ collect"
    unfolding c2(2) c1_def by simp
  then show ?case unfolding st using c2(1) by simp
qed


lemma sweep_loop_secondary:
  assumes pre: "sweep_pre ring sa prim this e s0 xs0" and rp: "ring \<noteq> prim"
  shows "\<exists>g2 s2. sweep_ring_loop ring sa prim this this (hd (xs0 @ [e])) nullptr s0 = Some (g2, s2) \<and>
     loop_post ring sa prim this e s0 xs0 g2 s2"
proof -
  from sweep_members[OF pre, of nullptr] obtain prev' g' s1 where
    li: "sweep_ring_loop ring sa prim this this (hd (xs0 @ [e])) nullptr s0 =
     sweep_ring_loop ring sa prim this prev' e g' s1 \<and>
     sweep_inv ring prim this e s0 nullptr xs0 [] prev' e g' s1"
    by (elim exE) (rule that)
  note l = conjunct1[OF li] and inv = conjunct2[OF li]
  note i = sweep_invD[OF inv]
  have et: "e = this" using pre rp by (auto simp: sweep_pre_def split: option.splits)
  have r: "sweep_ring_loop ring sa prim this prev' e g' s1 = Some (g', s1)"
    using et by (subst sweep_ring_loop.simps) simp
  obtain r0 where r0: "regions s0 this = Some r0" using i(8) by (auto split: option.splits)
  have io: "(if sa = Yes \<and> ring = prim then [e] else []) = []" using rp by simp
  have ci: "(if ring = prim \<and> sa = No then the (obj_size e s0) else 0) = (0::size_t)"
    using rp by simp
  have "loop_post ring sa prim this e s0 xs0 g' s1"
    unfolding loop_post_def Let_def io ci append_Nil2
    using i(3,4,5,6,7,9) i(8) rp r0 et by (simp split: if_splits)
  with l r show ?thesis by simp
qed


lemma sweep_loop_primary:
  assumes pre: "sweep_pre ring sa ring this e s0 xs0"
    and iso: "heap s0 e = Some iob" "cls iob = ISO" "next iob = this"
      "trivial (descriptor iob) = (ring = TrivialRing)" "e \<noteq> this"
  shows "\<exists>g2 s2. sweep_ring_loop ring sa ring this this (hd (xs0 @ [e])) nullptr s0 = Some (g2, s2) \<and>
     loop_post ring sa ring this e s0 xs0 g2 s2"
proof -
  from sweep_members[OF pre, of nullptr] obtain prev' g' s1 where
    li: "sweep_ring_loop ring sa ring this this (hd (xs0 @ [e])) nullptr s0 =
     sweep_ring_loop ring sa ring this prev' e g' s1 \<and>
     sweep_inv ring ring this e s0 nullptr xs0 [] prev' e g' s1"
    by (elim exE) (rule that)
  note l = conjunct1[OF li] and inv = conjunct2[OF li]
  define dead where "dead = filter (\<lambda>x. get_class x s0 = Some UNMARKED) xs0"
  define keep where "keep = filter (\<lambda>x. get_class x s0 = Some MARKED) xs0"
  note i = sweep_invD[OF inv, folded dead_def keep_def]
  have ex: "e \<notin> set xs0" using pre by (simp add: sweep_pre_def)
  have ek: "e \<notin> set keep" "e \<notin> set dead" using ex by (auto simp: keep_def dead_def)
  have he: "heap s1 e = Some iob" using i(3) ex iso by simp
  obtain r0 where r0: "regions s0 this = Some r0" using i(8) by (auto split: option.splits)
  define r1 where "r1 = r0\<lparr>current_memory_used :=
                    current_memory_used r0 + sum_list (map (\<lambda>x. the (obj_size x s0)) keep),
                  next_not_root := next_not_root r0,
                  last_not_root := last_not_root r0,
                  ext_refs :=
                    (if ring = TrivialRing
                     then ext_refs r0 - {x \<in> set dead. has_ext_ref x s0 = Some True}
                     else ext_refs r0)\<rparr>"
  have rs: "regions s1 = (regions s0)(this \<mapsto> r1)" using i(8) r0 by (simp add: r1_def)
  have sz: "the (obj_size e s0) = size_d (descriptor iob)" using iso(1) by (simp add: obj_size_def)
  have hx: "has_ext_ref e s0 = Some (ext_ref iob)" using iso(1) by (simp add: has_ext_ref_def)
  have fin: "\<And>g2 s2. sweep_ring_loop ring sa ring this prev' this g2 s2 = Some (g2, s2)"
    by (subst sweep_ring_loop.simps) simp
  show ?thesis
  proof (cases sa)
    case No
    define s2 where "s2 = s1\<lparr>regions := (regions s1)(this \<mapsto>
       r1\<lparr>current_memory_used := current_memory_used r1 + size_d (descriptor iob)\<rparr>)\<rparr>"
    have b: "sweep_ring_body ring sa ring this prev' e g' s1 = Some (prev', this, g', s2)"
      using he iso No rs unfolding s2_def
      by (simp add: sweep_ring_body_def assert_def obj_defs use_memory_def upd_region_def)
    have lp: "sweep_ring_loop ring sa ring this prev' e g' s1 = Some (g', s2)"
      using iso(5) b fin by (subst sweep_ring_loop.simps) simp
    have io: "(if sa = Yes \<and> ring = ring then [e] else []) = []" using No by simp
    have ci: "(if ring = ring \<and> sa = No then the (obj_size e s0) else 0) = size_d (descriptor iob)"
      using No sz by simp
    have h2: "heap s2 = heap s1" "events s2 = events s1" by (simp_all add: s2_def)
    have re: "r1\<lparr>current_memory_used := current_memory_used r1 + size_d (descriptor iob)\<rparr> =
       r0\<lparr>current_memory_used :=
                    current_memory_used r0 + sum_list (map (\<lambda>x. the (obj_size x s0)) keep) +
                    (if ring = ring \<and> sa = No then the (obj_size e s0) else 0),
                  next_not_root :=
                    (if ring \<noteq> ring then hd (keep @ [e]) else next_not_root r0),
                  last_not_root :=
                    (if ring \<noteq> ring then last (this # keep) else last_not_root r0),
                  ext_refs :=
                    (if ring = TrivialRing
                     then ext_refs r0 - {x \<in> set (dead @ (if sa = Yes \<and> ring = ring then [e] else [])). has_ext_ref x s0 = Some True}
                     else ext_refs r0)\<rparr>"
      using No sz by (intro RegionTrace.equality) (simp_all add: r1_def)
    have r2: "regions s2 = (regions s0)(this \<mapsto> r0\<lparr>current_memory_used :=
                    current_memory_used r0 + sum_list (map (\<lambda>x. the (obj_size x s0)) keep) +
                    (if ring = ring \<and> sa = No then the (obj_size e s0) else 0),
                  next_not_root :=
                    (if ring \<noteq> ring then hd (keep @ [e]) else next_not_root r0),
                  last_not_root :=
                    (if ring \<noteq> ring then last (this # keep) else last_not_root r0),
                  ext_refs :=
                    (if ring = TrivialRing
                     then ext_refs r0 - {x \<in> set (dead @ (if sa = Yes \<and> ring = ring then [e] else [])). has_ext_ref x s0 = Some True}
                     else ext_refs r0)\<rparr>)"
      unfolding s2_def rs re[symmetric] by simp
    have "loop_post ring sa ring this e s0 xs0 g' s2"
      unfolding loop_post_def Let_def h2
      unfolding dead_def[symmetric] keep_def[symmetric]
      using i(3,4,5,6,7,9) r0 r2 he iso(1) No by (simp split: if_splits)
    with l lp show ?thesis by simp
  next
    case Yes
    have io: "(if sa = Yes \<and> ring = ring then [e] else []) = [e]" using Yes by simp
    have ci: "(if ring = ring \<and> sa = No then the (obj_size e s0) else 0) = (0::size_t)"
      using Yes by simp
    show ?thesis
    proof (cases ring)
      case TrivialRing
      define s2 where "s2 = s1\<lparr>regions := (regions s1)(this \<mapsto>
         r1\<lparr>ext_refs := (if ext_ref iob then ext_refs r1 - {e} else ext_refs r1)\<rparr>),
         heap := (heap s1)(e := None), events := events s1 @ [Dealloc e]\<rparr>"
      have b: "sweep_ring_body ring sa ring this prev' e g' s1 = Some (prev', this, g', s2)"
        using he iso Yes TrivialRing rs unfolding s2_def
        by (cases "ext_ref iob")
           (simp_all add: sweep_ring_body_def sweep_object_def assert_def obj_defs upd_region_def
            dealloc_def ExternalReferenceTable_erase_def)
      have lp: "sweep_ring_loop ring sa ring this prev' e g' s1 = Some (g', s2)"
        using iso(5) b fin by (subst sweep_ring_loop.simps) simp
      have h2: "heap s2 = (heap s1)(e := None)" "events s2 = events s1 @ [Dealloc e]"
        by (simp_all add: s2_def)
      have ee: "(if ext_ref iob then ext_refs r1 - {e} else ext_refs r1) =
         ext_refs r0 - {x \<in> set (dead @ [e]). has_ext_ref x s0 = Some True}"
        using hx TrivialRing by (cases "ext_ref iob") (auto simp: r1_def)
      have re: "r1\<lparr>ext_refs := (if ext_ref iob then ext_refs r1 - {e} else ext_refs r1)\<rparr> =
       r0\<lparr>current_memory_used :=
                    current_memory_used r0 + sum_list (map (\<lambda>x. the (obj_size x s0)) keep) +
                    (if ring = ring \<and> sa = No then the (obj_size e s0) else 0),
                  next_not_root :=
                    (if ring \<noteq> ring then hd (keep @ [e]) else next_not_root r0),
                  last_not_root :=
                    (if ring \<noteq> ring then last (this # keep) else last_not_root r0),
                  ext_refs :=
                    (if ring = TrivialRing
                     then ext_refs r0 - {x \<in> set (dead @ (if sa = Yes \<and> ring = ring then [e] else [])). has_ext_ref x s0 = Some True}
                     else ext_refs r0)\<rparr>"
        unfolding ee using Yes TrivialRing by (intro RegionTrace.equality) (simp_all add: r1_def)
      have r2: "regions s2 = (regions s0)(this \<mapsto> r0\<lparr>current_memory_used :=
                    current_memory_used r0 + sum_list (map (\<lambda>x. the (obj_size x s0)) keep) +
                    (if ring = ring \<and> sa = No then the (obj_size e s0) else 0),
                  next_not_root :=
                    (if ring \<noteq> ring then hd (keep @ [e]) else next_not_root r0),
                  last_not_root :=
                    (if ring \<noteq> ring then last (this # keep) else last_not_root r0),
                  ext_refs :=
                    (if ring = TrivialRing
                     then ext_refs r0 - {x \<in> set (dead @ (if sa = Yes \<and> ring = ring then [e] else [])). has_ext_ref x s0 = Some True}
                     else ext_refs r0)\<rparr>)"
        unfolding s2_def rs re[symmetric] by simp
      have pk: "path ((heap s1)(e := None)) (hd (keep @ [e])) keep e"
        using i(5) ek by (simp add: path_upd)
      have "loop_post ring sa ring this e s0 xs0 g' s2"
        unfolding loop_post_def Let_def h2
        unfolding dead_def[symmetric] keep_def[symmetric]
        using i(3,4,6,7,9) pk r0 r2 iso(5) ek TrivialRing Yes
        by (auto simp: list_all_iff)
      with l lp show ?thesis by simp
    next
      case NonTrivialRing
      define s2 where "s2 = s1\<lparr>events := events s1 @ [Finalise e],
         heap := (heap s1)(e \<mapsto> iob\<lparr>next := g', cls := UNMARKED\<rparr>)\<rparr>"
      have b: "sweep_ring_body ring sa ring this prev' e g' s1 = Some (prev', this, e, s2)"
        using he iso Yes NonTrivialRing unfolding s2_def
        by (simp add: sweep_ring_body_def sweep_object_def assert_def obj_defs finalise_def)
      have lp: "sweep_ring_loop ring sa ring this prev' e g' s1 = Some (e, s2)"
        using iso(5) b fin by (subst sweep_ring_loop.simps) simp
      have h2: "heap s2 = (heap s1)(e \<mapsto> iob\<lparr>next := g', cls := UNMARKED\<rparr>)"
        "events s2 = events s1 @ [Finalise e]" "regions s2 = regions s1"
        by (simp_all add: s2_def)
      have pk: "path ((heap s1)(e \<mapsto> iob\<lparr>next := g', cls := UNMARKED\<rparr>)) (hd (keep @ [e])) keep e"
        using i(5) ek by (simp add: path_upd)
      have pg: "path ((heap s1)(e \<mapsto> iob\<lparr>next := g', cls := UNMARKED\<rparr>)) e (rev (dead @ [e])) nullptr"
        using i(7) ek NonTrivialRing by (simp add: path_upd)
      have re: "r1 = r0\<lparr>current_memory_used :=
                    current_memory_used r0 + sum_list (map (\<lambda>x. the (obj_size x s0)) keep) +
                    (if ring = ring \<and> sa = No then the (obj_size e s0) else 0),
                  next_not_root :=
                    (if ring \<noteq> ring then hd (keep @ [e]) else next_not_root r0),
                  last_not_root :=
                    (if ring \<noteq> ring then last (this # keep) else last_not_root r0),
                  ext_refs :=
                    (if ring = TrivialRing
                     then ext_refs r0 - {x \<in> set (dead @ (if sa = Yes \<and> ring = ring then [e] else [])). has_ext_ref x s0 = Some True}
                     else ext_refs r0)\<rparr>"
        using Yes NonTrivialRing by (intro RegionTrace.equality) (simp_all add: r1_def)
      have r2: "regions s2 = (regions s0)(this \<mapsto> r0\<lparr>current_memory_used :=
                    current_memory_used r0 + sum_list (map (\<lambda>x. the (obj_size x s0)) keep) +
                    (if ring = ring \<and> sa = No then the (obj_size e s0) else 0),
                  next_not_root :=
                    (if ring \<noteq> ring then hd (keep @ [e]) else next_not_root r0),
                  last_not_root :=
                    (if ring \<noteq> ring then last (this # keep) else last_not_root r0),
                  ext_refs :=
                    (if ring = TrivialRing
                     then ext_refs r0 - {x \<in> set (dead @ (if sa = Yes \<and> ring = ring then [e] else [])). has_ext_ref x s0 = Some True}
                     else ext_refs r0)\<rparr>)"
        unfolding h2 rs re[symmetric] by simp
      have "loop_post ring sa ring this e s0 xs0 e s2"
        unfolding loop_post_def Let_def h2(1,2)
        unfolding dead_def[symmetric] keep_def[symmetric]
        using i(3,4,6,7,9) pk pg r0 r2 iso(1,5) ek NonTrivialRing Yes
        by (auto simp: list_all_iff)
      with l lp show ?thesis by simp
    qed
  qed
qed


lemma loop_postD:
  assumes "loop_post ring sa prim this e s0 xs0 g2 s2"
  shows "\<forall>x. x \<notin> set xs0 \<longrightarrow> x \<noteq> this \<longrightarrow> x \<noteq> e \<longrightarrow> heap s2 x = heap s0 x"
    "e \<noteq> this \<longrightarrow> (if sa = Yes \<and> ring = prim then [e] else []) = [] \<longrightarrow> heap s2 e = heap s0 e"
    "heap s2 this =
          (if ring = prim
           then map_option (\<lambda>m. m\<lparr>next := hd (filter (\<lambda>x. get_class x s0 = Some MARKED) xs0 @ [e])\<rparr>) (heap s0 this)
           else heap s0 this)"
    "path (heap s2) (hd (filter (\<lambda>x. get_class x s0 = Some MARKED) xs0 @ [e]))
        (filter (\<lambda>x. get_class x s0 = Some MARKED) xs0) e"
    "list_all (\<lambda>x. \<exists>ob n. heap s0 x = Some ob \<and>
                         heap s2 x = Some (ob\<lparr>next := n, cls := UNMARKED\<rparr>))
        (filter (\<lambda>x. get_class x s0 = Some MARKED) xs0)"
    "if ring = TrivialRing
         then list_all (\<lambda>x. heap s2 x = None)
                (filter (\<lambda>x. get_class x s0 = Some UNMARKED) xs0 @
                 (if sa = Yes \<and> ring = prim then [e] else [])) \<and> g2 = nullptr
         else path (heap s2) g2
                (rev (filter (\<lambda>x. get_class x s0 = Some UNMARKED) xs0 @
                 (if sa = Yes \<and> ring = prim then [e] else []))) nullptr \<and>
              list_all (\<lambda>x. \<exists>ob n. heap s0 x = Some ob \<and>
                         heap s2 x = Some (ob\<lparr>next := n, cls := UNMARKED\<rparr>))
                (filter (\<lambda>x. get_class x s0 = Some UNMARKED) xs0 @
                 (if sa = Yes \<and> ring = prim then [e] else []))"
    "case regions s0 this of
           None \<Rightarrow> False
         | Some r0 \<Rightarrow>
             regions s2 = (regions s0)(this \<mapsto>
               r0\<lparr>current_memory_used :=
                    current_memory_used r0 +
                    sum_list (map (\<lambda>x. the (obj_size x s0)) (filter (\<lambda>x. get_class x s0 = Some MARKED) xs0)) +
                    (if ring = prim \<and> sa = No then the (obj_size e s0) else 0),
                  next_not_root :=
                    (if ring \<noteq> prim then hd (filter (\<lambda>x. get_class x s0 = Some MARKED) xs0 @ [e])
                     else next_not_root r0),
                  last_not_root :=
                    (if ring \<noteq> prim then last (this # filter (\<lambda>x. get_class x s0 = Some MARKED) xs0)
                     else last_not_root r0),
                  ext_refs :=
                    (if ring = TrivialRing
                     then ext_refs r0 - {x \<in> set (filter (\<lambda>x. get_class x s0 = Some UNMARKED) xs0 @
                            (if sa = Yes \<and> ring = prim then [e] else [])). has_ext_ref x s0 = Some True}
                     else ext_refs r0)\<rparr>)"
    "events s2 =
          events s0 @ map (if ring = TrivialRing then Dealloc else Finalise)
            (filter (\<lambda>x. get_class x s0 = Some UNMARKED) xs0 @
             (if sa = Yes \<and> ring = prim then [e] else []))"
  using assms unfolding loop_post_def Let_def by blast+

lemma ring_postI:
  assumes "\<forall>x. x \<notin> set xs0 \<longrightarrow> x \<noteq> this \<longrightarrow> x \<noteq> e \<longrightarrow> heap s' x = heap s0 x"
    "e \<noteq> this \<longrightarrow> heap s' e = (if sa = Yes \<and> ring = prim then None else heap s0 e)"
    "heap s' this =
          (if ring = prim
           then map_option (\<lambda>m. m\<lparr>next := hd (filter (\<lambda>x. get_class x s0 = Some MARKED) xs0 @ [e])\<rparr>) (heap s0 this)
           else heap s0 this)"
    "path (heap s') (hd (filter (\<lambda>x. get_class x s0 = Some MARKED) xs0 @ [e]))
        (filter (\<lambda>x. get_class x s0 = Some MARKED) xs0) e"
    "list_all (\<lambda>x. \<exists>ob n. heap s0 x = Some ob \<and>
                         heap s' x = Some (ob\<lparr>next := n, cls := UNMARKED\<rparr>))
        (filter (\<lambda>x. get_class x s0 = Some MARKED) xs0)"
    "list_all (\<lambda>x. heap s' x = None) (filter (\<lambda>x. get_class x s0 = Some UNMARKED) xs0)"
    "case regions s0 this of
           None \<Rightarrow> False
         | Some r0 \<Rightarrow>
             regions s' = (regions s0)(this \<mapsto>
               r0\<lparr>current_memory_used :=
                    current_memory_used r0 +
                    sum_list (map (\<lambda>x. the (obj_size x s0)) (filter (\<lambda>x. get_class x s0 = Some MARKED) xs0)) +
                    (if ring = prim \<and> sa = No then the (obj_size e s0) else 0),
                  next_not_root :=
                    (if ring \<noteq> prim then hd (filter (\<lambda>x. get_class x s0 = Some MARKED) xs0 @ [e])
                     else next_not_root r0),
                  last_not_root :=
                    (if ring \<noteq> prim then last (this # filter (\<lambda>x. get_class x s0 = Some MARKED) xs0)
                     else last_not_root r0),
                  ext_refs :=
                    (if ring = TrivialRing
                     then ext_refs r0 - {x \<in> set (filter (\<lambda>x. get_class x s0 = Some UNMARKED) xs0 @
                            (if sa = Yes \<and> ring = prim then [e] else [])). has_ext_ref x s0 = Some True}
                     else ext_refs r0)\<rparr>)"
    "events s' = events s0 @ ring_events ring
            (filter (\<lambda>x. get_class x s0 = Some UNMARKED) xs0 @
             (if sa = Yes \<and> ring = prim then [e] else []))"
  shows "ring_post ring sa prim this e s0 xs0 s'"
  unfolding ring_post_def Let_def using assms by blast


lemma sweep_ring_post:
  assumes pre: "sweep_pre ring sa prim this e s0 xs0"
    and iso: "ring = prim \<Longrightarrow> \<exists>iob. heap s0 e = Some iob \<and> cls iob = ISO \<and> next iob = this \<and>
        trivial (descriptor iob) = (ring = TrivialRing) \<and> e \<noteq> this"
    and en: "e \<noteq> nullptr"
    and mt: "get_class this s0 \<noteq> Some ISO"
    and fl: "ring = NonTrivialRing \<Longrightarrow>
        \<forall>x\<in>set xs0 \<union> set (if sa = Yes \<and> ring = prim then [e] else []).
          \<forall>ob. heap s0 x = Some ob \<longrightarrow> (\<forall>q\<in>set (flds ob). heap s0 q \<noteq> None)"
  shows "\<exists>collect' s'. sweep_ring ring sa this o' prim [] collect s0 = Some ([], collect', s') \<and>
     ring_post ring sa prim this e s0 xs0 s' \<and>
     (ring = TrivialRing \<or>
      filter (\<lambda>x. get_class x s0 = Some UNMARKED) xs0 @
        (if sa = Yes \<and> ring = prim then [e] else []) = [] \<longrightarrow> collect' = collect) \<and>
     ((ring = prim \<longrightarrow> e = o') \<longrightarrow>
      collect' =
        (if ring = NonTrivialRing
         then concat (map (iso_refs o' s0)
                (filter (\<lambda>x. get_class x s0 = Some UNMARKED) xs0 @
                 (if sa = Yes \<and> ring = prim then [e] else [])))
         else []) @ collect)"
proof -
  define dead where "dead = filter (\<lambda>x. get_class x s0 = Some UNMARKED) xs0"
  define keep where "keep = filter (\<lambda>x. get_class x s0 = Some MARKED) xs0"
  define isod where "isod = (if sa = Yes \<and> ring = prim then [e] else [])"
  from pre obtain m0 r0 where m0: "heap s0 this = Some m0" and r0: "regions s0 this = Some r0"
    and st: "if ring = prim then next m0 = hd (xs0 @ [e])
           else next_not_root r0 = hd (xs0 @ [e]) \<and> last_not_root r0 = last (this # xs0) \<and> e = this"
    and di: "distinct (this # xs0)" "e \<notin> set xs0" "nullptr \<notin> set xs0"
    and cl: "list_all (\<lambda>x. get_class x s0 = Some UNMARKED \<or>
                    (sa = No \<and> get_class x s0 = Some MARKED)) xs0"
    by (auto simp: sweep_pre_def split: option.splits)
  have "\<exists>g2 s2. sweep_ring_loop ring sa prim this this (hd (xs0 @ [e])) nullptr s0 = Some (g2, s2) \<and>
     loop_post ring sa prim this e s0 xs0 g2 s2"
  proof (cases "ring = prim")
    case True
    from iso[OF True] obtain iob where "heap s0 e = Some iob" "cls iob = ISO" "next iob = this"
      "trivial (descriptor iob) = (ring = TrivialRing)" "e \<noteq> this" by blast
    from sweep_loop_primary[OF pre[folded True] this] show ?thesis unfolding True .
  next
    case False
    from sweep_loop_secondary[OF pre False] show ?thesis .
  qed
  then obtain g2 s2 where
    lp0: "sweep_ring_loop ring sa prim this this (hd (xs0 @ [e])) nullptr s0 = Some (g2, s2) \<and>
     loop_post ring sa prim this e s0 xs0 g2 s2" by (elim exE) (rule that)
  note lo = conjunct1[OF lp0]
  note lp = loop_postD[OF conjunct2[OF lp0], folded dead_def keep_def isod_def]
  have start: "(if ring = prim then get_next this s0 else Some (next_not_root r0)) =
      Some (hd (xs0 @ [e]))"
    using st m0 mt by (auto simp: get_next_def get_class_def)
  have sr: "sweep_ring ring sa this o' prim [] collect s0 =
     (if ring = NonTrivialRing then do {
       (f, collect, s) \<leftarrow> find_iso_loop g2 o' [] collect s2;
       s \<leftarrow> destroy_loop g2 s;
       Some (f, collect, s)
     } else Some ([], collect, s2))"
    unfolding sweep_ring_def using r0 start lo by simp
  have dk: "set dead \<union> set keep = set xs0" "set dead \<inter> set keep = {}" "distinct dead"
    "distinct keep"
    using cl di(1) unfolding dead_def keep_def list_all_iff by auto
  show ?thesis
  proof (cases ring)
    case TrivialRing
    have "ring_post ring sa prim this e s0 xs0 s2"
    proof (rule ring_postI, fold dead_def keep_def isod_def)
      show "\<forall>x. x \<notin> set xs0 \<longrightarrow> x \<noteq> this \<longrightarrow> x \<noteq> e \<longrightarrow> heap s2 x = heap s0 x" by (rule lp(1))
      show "e \<noteq> this \<longrightarrow> heap s2 e = (if sa = Yes \<and> ring = prim then None else heap s0 e)"
        using lp(2,6) TrivialRing unfolding isod_def by (auto simp: list_all_iff)
      show "heap s2 this = (if ring = prim
           then map_option (\<lambda>m. m\<lparr>next := hd (keep @ [e])\<rparr>) (heap s0 this) else heap s0 this)"
        by (rule lp(3))
      show "path (heap s2) (hd (keep @ [e])) keep e" by (rule lp(4))
      show "list_all (\<lambda>x. \<exists>ob n. heap s0 x = Some ob \<and>
                         heap s2 x = Some (ob\<lparr>next := n, cls := UNMARKED\<rparr>)) keep" by (rule lp(5))
      show "list_all (\<lambda>x. heap s2 x = None) dead"
        using lp(6) TrivialRing by (simp add: list_all_iff)
      show "case regions s0 this of None \<Rightarrow> False
         | Some r0 \<Rightarrow> regions s2 = (regions s0)(this \<mapsto>
               r0\<lparr>current_memory_used :=
                    current_memory_used r0 + sum_list (map (\<lambda>x. the (obj_size x s0)) keep) +
                    (if ring = prim \<and> sa = No then the (obj_size e s0) else 0),
                  next_not_root := (if ring \<noteq> prim then hd (keep @ [e]) else next_not_root r0),
                  last_not_root := (if ring \<noteq> prim then last (this # keep) else last_not_root r0),
                  ext_refs := (if ring = TrivialRing
                     then ext_refs r0 - {x \<in> set (dead @ isod). has_ext_ref x s0 = Some True}
                     else ext_refs r0)\<rparr>)" by (rule lp(7))
      show "events s2 = events s0 @ ring_events ring (dead @ isod)"
        using lp(8) TrivialRing by (simp add: ring_events_def)
    qed
    then show ?thesis using sr TrivialRing by simp
  next
    case NonTrivialRing
    define dl where "dl = rev (dead @ isod)"
    have pg: "path (heap s2) g2 dl nullptr"
      and la: "list_all (\<lambda>x. \<exists>ob n. heap s0 x = Some ob \<and>
                         heap s2 x = Some (ob\<lparr>next := n, cls := UNMARKED\<rparr>)) (dead @ isod)"
      using lp(6) NonTrivialRing unfolding dl_def by simp_all
    have ie: "set isod \<subseteq> {e}" "isod \<noteq> [] \<Longrightarrow> e \<noteq> this" "isod \<noteq> [] \<Longrightarrow> ring = prim"
      using iso unfolding isod_def by (auto split: if_splits)
    have dd: "distinct dl" "nullptr \<notin> set dl" "this \<notin> set dl" "set dl \<inter> set keep = {}"
      "set dl = set dead \<union> set isod"
      using dk di en ie(1,2) unfolding dl_def by (auto simp: isod_def split: if_splits)
    have la': "\<forall>x\<in>set dl. \<exists>ob n. heap s0 x = Some ob \<and>
                         heap s2 x = Some (ob\<lparr>next := n, cls := UNMARKED\<rparr>)"
      using la unfolding dl_def list_all_iff by (simp add: Un_commute)
    have c1: "list_all (\<lambda>d. get_class d s2 \<noteq> Some ISO) dl"
      unfolding list_all_iff
    proof
      fix d assume "d \<in> set dl"
      from bspec[OF la' this] obtain ob0 n where
        "heap s2 d = Some (ob0\<lparr>next := n, cls := UNMARKED\<rparr>)" by blast
      then show "get_class d s2 \<noteq> Some ISO" by (simp add: get_class_def)
    qed
    have al: "\<And>q. heap s0 q \<noteq> None \<Longrightarrow> heap s2 q \<noteq> None"
    proof -
      fix q assume q: "heap s0 q \<noteq> None"
      show "heap s2 q \<noteq> None"
      proof (cases "q = this")
        case True then show ?thesis using lp(3) m0 by auto
      next
        case nt: False
        show ?thesis
        proof (cases "q \<in> set xs0")
          case True
          then have "q \<in> set keep \<or> q \<in> set dl" using dk(1) dd(5) by auto
          then show ?thesis
          proof
            assume "q \<in> set keep"
            then show ?thesis using lp(5) unfolding list_all_iff by auto
          next
            assume "q \<in> set dl"
            from bspec[OF la' this] show ?thesis by auto
          qed
        next
          case nx: False
          show ?thesis
          proof (cases "q = e")
            case False then show ?thesis using lp(1) q nx nt by simp
          next
            case True
            show ?thesis
            proof (cases "isod = []")
              case True then show ?thesis using lp(2) q \<open>q = e\<close> nt unfolding isod_def by simp
            next
              case False
              then have "q \<in> set dl" using \<open>q = e\<close> dd(5) unfolding isod_def by (auto split: if_splits)
              from bspec[OF la' this] show ?thesis by auto
            qed
          qed
        qed
      qed
    qed
    have c2: "list_all (\<lambda>d. \<forall>ob. heap s2 d = Some ob \<longrightarrow> (\<forall>q\<in>set (flds ob). heap s2 q \<noteq> None)) dl"
      unfolding list_all_iff
    proof (intro ballI allI impI)
      fix d ob q assume d: "d \<in> set dl" "heap s2 d = Some ob" "q \<in> set (flds ob)"
      from bspec[OF la' d(1)] obtain ob0 n where o0: "heap s0 d = Some ob0"
        "heap s2 d = Some (ob0\<lparr>next := n, cls := UNMARKED\<rparr>)" by blast
      have "d \<in> set xs0 \<union> set (if sa = Yes \<and> ring = prim then [e] else [])"
        using d(1) dd(5) dk(1) unfolding isod_def by auto
      with fl[OF NonTrivialRing] o0(1) have "\<forall>q\<in>set (flds ob0). heap s0 q \<noteq> None" by blast
      moreover have "flds ob = flds ob0" using d(2) o0(2) by auto
      ultimately show "heap s2 q \<noteq> None" using d(3) al by auto
    qed
    from find_iso_loop_list[OF pg dd(2) c1 c2, of o' collect] obtain c' where
      fi: "find_iso_loop g2 o' [] collect s2 =
        Some ([], c', s2\<lparr>events := events s2 @ map FindIsoFields dl\<rparr>)"
      and fc: "dl = [] \<longrightarrow> c' = collect"
      and fx: "c' = concat (map (iso_refs o' s2) (rev dl)) @ collect" by blast
    have cq: "(get_class q s2 = Some ISO \<and> q \<noteq> o') = (get_class q s0 = Some ISO \<and> q \<noteq> o')"
      if eo: "ring = prim \<longrightarrow> e = o'" for q
    proof (cases "q = this")
      case True
      have "get_class this s2 = get_class this s0" using lp(3) by (auto simp: get_class_def m0)
      then show ?thesis using True by simp
    next
      case nt: False
      show ?thesis
      proof (cases "q \<in> set xs0")
        case True
        then have n0: "get_class q s0 \<noteq> Some ISO" using cl unfolding list_all_iff by auto
        from True have "q \<in> set keep \<or> q \<in> set dl" using dk(1) dd(5) by auto
        then have "get_class q s2 \<noteq> Some ISO"
        proof
          assume "q \<in> set keep"
          with lp(5) obtain ob n where "heap s2 q = Some (ob\<lparr>next := n, cls := UNMARKED\<rparr>)"
            unfolding list_all_iff by blast
          then show ?thesis by (simp add: get_class_def)
        next
          assume "q \<in> set dl"
          from bspec[OF la' this] show ?thesis by (auto simp: get_class_def)
        qed
        with n0 show ?thesis by simp
      next
        case nx: False
        show ?thesis
        proof (cases "q = e")
          case False
          then have "heap s2 q = heap s0 q" using lp(1) nx nt by simp
          then show ?thesis by (simp add: get_class_def)
        next
          case True
          show ?thesis
          proof (cases "isod = []")
            case True
            then have "heap s2 q = heap s0 q" using lp(2) \<open>q = e\<close> nt by simp
            then show ?thesis by (simp add: get_class_def)
          next
            case False
            then have "q = o'" using ie(3) eo \<open>q = e\<close> by simp
            then show ?thesis by simp
          qed
        qed
      qed
    qed
    have ir: "iso_refs o' s2 d = iso_refs o' s0 d" if eo: "ring = prim \<longrightarrow> e = o'" and d: "d \<in> set dl" for d
    proof -
      from bspec[OF la' d] obtain ob0 n where o0: "heap s0 d = Some ob0"
        "heap s2 d = Some (ob0\<lparr>next := n, cls := UNMARKED\<rparr>)" by blast
      show ?thesis unfolding iso_refs_def o0 option.case using cq[OF eo] by simp
    qed
    have fk: "(ring = prim \<longrightarrow> e = o') \<longrightarrow>
      c' = (if ring = NonTrivialRing
         then concat (map (iso_refs o' s0)
                (filter (\<lambda>x. get_class x s0 = Some UNMARKED) xs0 @
                 (if sa = Yes \<and> ring = prim then [e] else [])))
         else []) @ collect"
    proof
      assume eo: "ring = prim \<longrightarrow> e = o'"
      have rd: "rev dl = dead @ isod" by (simp add: dl_def)
      have me: "map (iso_refs o' s2) (dead @ isod) = map (iso_refs o' s0) (dead @ isod)"
        by (rule map_cong[OF refl]) (use ir[OF eo] dd(5) in auto)
      have "c' = concat (map (iso_refs o' s0) (dead @ isod)) @ collect"
        unfolding fx rd me ..
      then show "c' = (if ring = NonTrivialRing
         then concat (map (iso_refs o' s0)
                (filter (\<lambda>x. get_class x s0 = Some UNMARKED) xs0 @
                 (if sa = Yes \<and> ring = prim then [e] else [])))
         else []) @ collect"
        using NonTrivialRing by (simp add: dead_def isod_def)
    qed
    have fc': "ring = TrivialRing \<or>
      filter (\<lambda>x. get_class x s0 = Some UNMARKED) xs0 @
        (if sa = Yes \<and> ring = prim then [e] else []) = [] \<longrightarrow> c' = collect"
      using fc NonTrivialRing unfolding dl_def dead_def isod_def by simp
    let ?s3 = "s2\<lparr>events := events s2 @ map FindIsoFields dl\<rparr>"
    have c1': "list_all (\<lambda>d. get_class d ?s3 \<noteq> Some ISO) dl"
      using c1 by (simp add: get_class_def)
    have pg': "path (heap ?s3) g2 dl nullptr" using pg by simp
    define s' where "s' = ?s3\<lparr>heap := heap ?s3 |` (- set dl),
       events := events ?s3 @ concat (map (\<lambda>d. [Destructor d, Dealloc d]) dl)\<rparr>"
    have de: "destroy_loop g2 ?s3 = Some s'"
      unfolding s'_def by (rule destroy_loop_list[OF pg' dd(1,2) c1'])
    have res: "sweep_ring ring sa this o' prim [] collect s0 = Some ([], c', s')"
      unfolding sr using NonTrivialRing fi de by simp
    have hs: "heap s' = heap s2 |` (- set dl)" "regions s' = regions s2"
      "events s' = events s2 @ map FindIsoFields dl @ concat (map (\<lambda>d. [Destructor d, Dealloc d]) dl)"
      by (simp_all add: s'_def)
    have ho: "\<And>x. x \<notin> set dl \<Longrightarrow> heap s' x = heap s2 x" unfolding hs by simp
    have hi: "\<And>x. x \<in> set dl \<Longrightarrow> heap s' x = None" unfolding hs by simp
    have "ring_post ring sa prim this e s0 xs0 s'"
    proof (rule ring_postI, fold dead_def keep_def isod_def)
      show "\<forall>x. x \<notin> set xs0 \<longrightarrow> x \<noteq> this \<longrightarrow> x \<noteq> e \<longrightarrow> heap s' x = heap s0 x"
      proof (intro allI impI)
        fix x assume x: "x \<notin> set xs0" "x \<noteq> this" "x \<noteq> e"
        then have "x \<notin> set dl" using dd(5) dk(1) ie(1) by auto
        then show "heap s' x = heap s0 x" using ho lp(1) x by simp
      qed
      show "e \<noteq> this \<longrightarrow> heap s' e = (if sa = Yes \<and> ring = prim then None else heap s0 e)"
      proof (cases "sa = Yes \<and> ring = prim")
        case True
        then have "e \<in> set dl" using dd(5) unfolding isod_def by simp
        then show ?thesis using hi True by simp
      next
        case False
        then have "isod = []" unfolding isod_def by simp
        then have "e \<notin> set dl" using dd(5) dk(1) di(2) by auto
        then have "heap s' e = heap s2 e" using ho by simp
        moreover have "e \<noteq> this \<longrightarrow> heap s2 e = heap s0 e"
          using lp(2) \<open>isod = []\<close> unfolding isod_def by simp
        ultimately show ?thesis using False by auto
      qed
      show "heap s' this = (if ring = prim
           then map_option (\<lambda>m. m\<lparr>next := hd (keep @ [e])\<rparr>) (heap s0 this) else heap s0 this)"
        using ho[OF dd(3)] lp(3) by simp
      have "\<And>a. a \<in> set keep \<Longrightarrow> heap s' a = heap s2 a" using ho dd(4) by blast
      then show "path (heap s') (hd (keep @ [e])) keep e"
        using lp(4) by (subst path_cong[of _ _ "heap s2"]) auto
      show "list_all (\<lambda>x. \<exists>ob n. heap s0 x = Some ob \<and>
                         heap s' x = Some (ob\<lparr>next := n, cls := UNMARKED\<rparr>)) keep"
        using lp(5) \<open>\<And>a. a \<in> set keep \<Longrightarrow> heap s' a = heap s2 a\<close>
        unfolding list_all_iff by simp
      show "list_all (\<lambda>x. heap s' x = None) dead"
        using hi dd(5) unfolding list_all_iff by simp
      show "case regions s0 this of None \<Rightarrow> False
         | Some r0 \<Rightarrow> regions s' = (regions s0)(this \<mapsto>
               r0\<lparr>current_memory_used :=
                    current_memory_used r0 + sum_list (map (\<lambda>x. the (obj_size x s0)) keep) +
                    (if ring = prim \<and> sa = No then the (obj_size e s0) else 0),
                  next_not_root := (if ring \<noteq> prim then hd (keep @ [e]) else next_not_root r0),
                  last_not_root := (if ring \<noteq> prim then last (this # keep) else last_not_root r0),
                  ext_refs := (if ring = TrivialRing
                     then ext_refs r0 - {x \<in> set (dead @ isod). has_ext_ref x s0 = Some True}
                     else ext_refs r0)\<rparr>)"
        unfolding hs by (rule lp(7))
      show "events s' = events s0 @ ring_events ring (dead @ isod)"
        unfolding hs(3) lp(8) dl_def using NonTrivialRing by (simp add: ring_events_def)
    qed
    with res fc' fk show ?thesis by blast
  qed
qed


lemma ring_postD:
  assumes "ring_post ring sa prim this e s0 xs0 s'"
  shows "\<forall>x. x \<notin> set xs0 \<longrightarrow> x \<noteq> this \<longrightarrow> x \<noteq> e \<longrightarrow> heap s' x = heap s0 x"
    "e \<noteq> this \<longrightarrow> heap s' e = (if sa = Yes \<and> ring = prim then None else heap s0 e)"
    "heap s' this =
          (if ring = prim
           then map_option (\<lambda>m. m\<lparr>next := hd (filter (\<lambda>x. get_class x s0 = Some MARKED) xs0 @ [e])\<rparr>) (heap s0 this)
           else heap s0 this)"
    "path (heap s') (hd (filter (\<lambda>x. get_class x s0 = Some MARKED) xs0 @ [e]))
        (filter (\<lambda>x. get_class x s0 = Some MARKED) xs0) e"
    "list_all (\<lambda>x. \<exists>ob n. heap s0 x = Some ob \<and>
                         heap s' x = Some (ob\<lparr>next := n, cls := UNMARKED\<rparr>))
        (filter (\<lambda>x. get_class x s0 = Some MARKED) xs0)"
    "list_all (\<lambda>x. heap s' x = None) (filter (\<lambda>x. get_class x s0 = Some UNMARKED) xs0)"
    "case regions s0 this of
           None \<Rightarrow> False
         | Some r0 \<Rightarrow>
             regions s' = (regions s0)(this \<mapsto>
               r0\<lparr>current_memory_used :=
                    current_memory_used r0 +
                    sum_list (map (\<lambda>x. the (obj_size x s0)) (filter (\<lambda>x. get_class x s0 = Some MARKED) xs0)) +
                    (if ring = prim \<and> sa = No then the (obj_size e s0) else 0),
                  next_not_root :=
                    (if ring \<noteq> prim then hd (filter (\<lambda>x. get_class x s0 = Some MARKED) xs0 @ [e])
                     else next_not_root r0),
                  last_not_root :=
                    (if ring \<noteq> prim then last (this # filter (\<lambda>x. get_class x s0 = Some MARKED) xs0)
                     else last_not_root r0),
                  ext_refs :=
                    (if ring = TrivialRing
                     then ext_refs r0 - {x \<in> set (filter (\<lambda>x. get_class x s0 = Some UNMARKED) xs0 @
                            (if sa = Yes \<and> ring = prim then [e] else [])). has_ext_ref x s0 = Some True}
                     else ext_refs r0)\<rparr>)"
    "events s' = events s0 @ ring_events ring
            (filter (\<lambda>x. get_class x s0 = Some UNMARKED) xs0 @
             (if sa = Yes \<and> ring = prim then [e] else []))"
  using assms unfolding ring_post_def Let_def by blast+

lemma sweep_pre_primary:
  assumes "heap s this = Some m" "regions s this = Some r"
    "path (heap s) (next m) (ps @ [o']) this" "distinct (this # ps @ [o'])" "nullptr \<notin> set ps"
    "list_all (\<lambda>x. get_class x s = Some UNMARKED \<or> (sa = No \<and> get_class x s = Some MARKED)) ps"
    "list_all (\<lambda>x. is_trivial x s = Some (ring = TrivialRing)) ps"
  shows "sweep_pre ring sa ring this o' s ps"
proof -
  from path_last_next[OF assms(3)] have p: "path (heap s) (next m) ps o'" by auto
  have h: "next m = hd (ps @ [o'])" using p by (cases ps) auto
  show ?thesis unfolding sweep_pre_def using assms p h by simp
qed

lemma sweep_pre_secondary:
  assumes "heap s this = Some m" "regions s this = Some r"
    "path (heap s) (next_not_root r) ss this" "last_not_root r = last (this # ss)"
    "distinct (this # ss)" "nullptr \<notin> set ss" "ring \<noteq> prim"
    "list_all (\<lambda>x. get_class x s = Some UNMARKED \<or> (sa = No \<and> get_class x s = Some MARKED)) ss"
    "list_all (\<lambda>x. is_trivial x s = Some (ring = TrivialRing)) ss"
  shows "sweep_pre ring sa prim this this s ss"
proof -
  have h: "next_not_root r = hd (ss @ [this])" using assms(3) by (cases ss) auto
  show ?thesis unfolding sweep_pre_def using assms h by simp
qed


lemma fields_allocD:
  "fields_alloc xs s \<Longrightarrow> x \<in> set xs \<Longrightarrow> heap s x = Some ob \<Longrightarrow> q \<in> set (flds ob) \<Longrightarrow>
   heap s q \<noteq> None"
  unfolding fields_alloc_def list_all_iff by (fastforce split: option.splits)

lemma iso_refs_regions [simp]: "iso_refs o' (s\<lparr>regions := rg\<rparr>) = iso_refs o' s"
proof
  fix d
  have "\<And>q. get_class q (s\<lparr>regions := rg\<rparr>) = get_class q s" by (simp add: get_class_def)
  then show "iso_refs o' (s\<lparr>regions := rg\<rparr>) d = iso_refs o' s d"
    by (cases "heap s d") (simp_all add: iso_refs_def)
qed

lemma sweep_passes_A:
  assumes wf: "wf_rings this o' ps ss s" and rp: "ring_partition o' ps ss s"
    and ya: "sa = Yes \<Longrightarrow> unmarked (ps @ ss) s"
    and fa: "fields_alloc (ps @ o' # ss) s"
    and nt: "is_trivial o' s = Some False"
    and s1: "s1 = s\<lparr>regions := (regions s)(this \<mapsto> r\<lparr>current_memory_used := 0\<rparr>)\<rparr>"
    and r: "regions s this = Some r"
  shows "\<exists>c1 c2 s2 s3.
     sweep_ring NonTrivialRing sa this o' NonTrivialRing [] collect s1 = Some ([], c1, s2) \<and>
     sweep_ring TrivialRing sa this o' NonTrivialRing [] c1 s2 = Some ([], c2, s3) \<and>
     ring_post NonTrivialRing sa NonTrivialRing this o' s1 ps s2 \<and>
     ring_post TrivialRing sa NonTrivialRing this this s2 ss s3 \<and>
     (filter (\<lambda>x. get_class x s = Some UNMARKED) ps @ (if sa = Yes then [o'] else []) = [] \<longrightarrow>
        c1 = collect) \<and> c2 = c1 \<and>
     c1 = concat (map (iso_refs o' s)
            (filter (\<lambda>x. get_class x s = Some UNMARKED) ps @ (if sa = Yes then [o'] else []))) @
          collect"
proof -
  from wf obtain m r' where f: "heap s this = Some m" "regions s this = Some r'" "cls m = UNMARKED"
    "path (heap s) (next m) (ps @ [o']) this" "path (heap s) (next_not_root r') ss this"
    "last_not_root r' = last (this # ss)" "distinct (this # ps @ o' # ss)"
    "nullptr \<notin> set (this # ps @ o' # ss)" "get_class o' s = Some ISO"
    "list_all (\<lambda>a. get_class a s = Some UNMARKED \<or> get_class a s = Some MARKED) (ps @ ss)"
    by (rule wf_ringsD)
  have rr: "r' = r" using f(2) r by simp
  have h1: "heap s1 = heap s" by (simp add: s1)
  have g1: "\<And>x. get_class x s1 = get_class x s" "\<And>x. is_trivial x s1 = is_trivial x s"
    by (simp_all add: get_class_def is_trivial_def h1)
  have r1: "regions s1 this = Some (r\<lparr>current_memory_used := 0\<rparr>)" by (simp add: s1)
  have clP: "list_all (\<lambda>x. get_class x s1 = Some UNMARKED \<or> (sa = No \<and> get_class x s1 = Some MARKED)) ps"
    and clS: "list_all (\<lambda>x. get_class x s = Some UNMARKED \<or> (sa = No \<and> get_class x s = Some MARKED)) ss"
    using f(10) ya unfolding g1 list_all_iff unmarked_def by (cases sa; auto)+
  have trP: "list_all (\<lambda>x. is_trivial x s1 = Some (NonTrivialRing = TrivialRing)) ps"
    and trS: "list_all (\<lambda>x. is_trivial x s = Some (TrivialRing = TrivialRing)) ss"
    using rp nt unfolding g1 ring_partition_def list_all_iff by auto
  have pre1: "sweep_pre NonTrivialRing sa NonTrivialRing this o' s1 ps"
    by (rule sweep_pre_primary[OF _ r1 _ _ _ clP trP, of m]) (use f h1 in auto)
  from wf_rings_heap[OF wf, of o'] obtain iob where iob: "heap s o' = Some iob" by auto
  have io: "cls iob = ISO" "next iob = this" "trivial (descriptor iob) = False"
    using wf_rings_iso(1,2)[OF wf] nt iob by (auto simp: get_class_def get_region_def is_trivial_def)
  have iso1: "NonTrivialRing = NonTrivialRing \<Longrightarrow> \<exists>iob. heap s1 o' = Some iob \<and> cls iob = ISO \<and>
      next iob = this \<and> trivial (descriptor iob) = (NonTrivialRing = TrivialRing) \<and> o' \<noteq> this"
    using iob io f(7) h1 by auto
  have en: "o' \<noteq> nullptr" "this \<noteq> nullptr" using f(8) by auto
  have mt1: "get_class this s1 \<noteq> Some ISO" using f(1,3) by (simp add: get_class_def h1)
  have fl1: "NonTrivialRing = NonTrivialRing \<Longrightarrow>
        \<forall>x\<in>set ps \<union> set (if sa = Yes \<and> NonTrivialRing = NonTrivialRing then [o'] else []).
         \<forall>ob. heap s1 x = Some ob \<longrightarrow> (\<forall>q\<in>set (flds ob). heap s1 q \<noteq> None)"
  proof (intro ballI allI impI)
    fix x ob q
    assume a: "x \<in> set ps \<union> set (if sa = Yes \<and> NonTrivialRing = NonTrivialRing then [o'] else [])"
      "heap s1 x = Some ob" "q \<in> set (flds ob)"
    from a(1) have "x \<in> set (ps @ o' # ss)" by (auto split: if_splits)
    from fields_allocD[OF fa this _ a(3)] a(2) show "heap s1 q \<noteq> None" by (simp add: h1)
  qed
  from sweep_ring_post[OF pre1 iso1 en(1) mt1 fl1, of o' collect] obtain c1 s2 where
    p1: "sweep_ring NonTrivialRing sa this o' NonTrivialRing [] collect s1 = Some ([], c1, s2) \<and>
     ring_post NonTrivialRing sa NonTrivialRing this o' s1 ps s2 \<and>
     (NonTrivialRing = TrivialRing \<or>
      filter (\<lambda>x. get_class x s1 = Some UNMARKED) ps @
        (if sa = Yes \<and> NonTrivialRing = NonTrivialRing then [o'] else []) = [] \<longrightarrow> c1 = collect)"
    and p1x: "(NonTrivialRing = NonTrivialRing \<longrightarrow> o' = o') \<longrightarrow>
      c1 = (if NonTrivialRing = NonTrivialRing
         then concat (map (iso_refs o' s1)
                (filter (\<lambda>x. get_class x s1 = Some UNMARKED) ps @
                 (if sa = Yes \<and> NonTrivialRing = NonTrivialRing then [o'] else [])))
         else []) @ collect"
    by blast
  have k1: "filter (\<lambda>x. get_class x s = Some UNMARKED) ps @ (if sa = Yes then [o'] else []) = [] \<longrightarrow>
        c1 = collect"
    using conjunct2[OF conjunct2[OF p1]] by (simp add: g1)
  have k2: "c1 = concat (map (iso_refs o' s)
            (filter (\<lambda>x. get_class x s = Some UNMARKED) ps @ (if sa = Yes then [o'] else []))) @
          collect"
  proof -
    have i1: "iso_refs o' s1 = iso_refs o' s" by (simp add: s1)
    show ?thesis using p1x by (simp add: g1 i1)
  qed
  note q = ring_postD[OF conjunct1[OF conjunct2[OF p1]]]
  have hS: "\<And>x. x \<in> set ss \<Longrightarrow> heap s2 x = heap s x"
    using q(1) f(7) h1 by auto
  have h2t: "\<exists>m2. heap s2 this = Some m2 \<and> cls m2 = UNMARKED"
    using q(3) f(1,3) h1 by auto
  then obtain m2 where m2: "heap s2 this = Some m2" "cls m2 = UNMARKED" by blast
  obtain r2 where r2: "regions s2 this = Some r2" "next_not_root r2 = next_not_root r"
    "last_not_root r2 = last_not_root r"
    using q(7) r1 by auto
  have pS: "path (heap s2) (next_not_root r2) ss this"
    using f(5) hS r2(2) rr by (subst path_cong[of _ _ "heap s"]) auto
  have clS2: "list_all (\<lambda>x. get_class x s2 = Some UNMARKED \<or> (sa = No \<and> get_class x s2 = Some MARKED)) ss"
    using clS hS unfolding list_all_iff get_class_def by simp
  have trS2: "list_all (\<lambda>x. is_trivial x s2 = Some (TrivialRing = TrivialRing)) ss"
    using trS hS unfolding list_all_iff is_trivial_def by simp
  have pre2: "sweep_pre TrivialRing sa NonTrivialRing this this s2 ss"
    by (rule sweep_pre_secondary[OF m2(1) r2(1) pS _ _ _ _ clS2 trS2]) (use f r2 rr in auto)
  have mt2: "get_class this s2 \<noteq> Some ISO" using m2 by (simp add: get_class_def)
  from sweep_ring_post[OF pre2 _ en(2) mt2, of o' c1] obtain c2 s3 where
    p2: "sweep_ring TrivialRing sa this o' NonTrivialRing [] c1 s2 = Some ([], c2, s3) \<and>
     ring_post TrivialRing sa NonTrivialRing this this s2 ss s3 \<and> c2 = c1" by auto
  from p1 p2 k1 k2 show ?thesis by blast
qed


lemma sweep_passes_B:
  assumes wf: "wf_rings this o' ps ss s" and rp: "ring_partition o' ps ss s"
    and ya: "sa = Yes \<Longrightarrow> unmarked (ps @ ss) s"
    and fa: "fields_alloc (ps @ o' # ss) s"
    and nt: "is_trivial o' s = Some True"
    and s1: "s1 = s\<lparr>regions := (regions s)(this \<mapsto> r\<lparr>current_memory_used := 0\<rparr>)\<rparr>"
    and r: "regions s this = Some r"
  shows "\<exists>c1 c2 s2 s3.
     sweep_ring NonTrivialRing sa this o' TrivialRing [] collect s1 = Some ([], c1, s2) \<and>
     sweep_ring TrivialRing sa this o' TrivialRing [] c1 s2 = Some ([], c2, s3) \<and>
     ring_post NonTrivialRing sa TrivialRing this this s1 ss s2 \<and>
     ring_post TrivialRing sa TrivialRing this o' s2 ps s3 \<and>
     (filter (\<lambda>x. get_class x s = Some UNMARKED) ss = [] \<longrightarrow> c1 = collect) \<and> c2 = c1 \<and>
     c1 = concat (map (iso_refs o' s) (filter (\<lambda>x. get_class x s = Some UNMARKED) ss)) @ collect"
proof -
  from wf obtain m r' where f: "heap s this = Some m" "regions s this = Some r'" "cls m = UNMARKED"
    "path (heap s) (next m) (ps @ [o']) this" "path (heap s) (next_not_root r') ss this"
    "last_not_root r' = last (this # ss)" "distinct (this # ps @ o' # ss)"
    "nullptr \<notin> set (this # ps @ o' # ss)" "get_class o' s = Some ISO"
    "list_all (\<lambda>a. get_class a s = Some UNMARKED \<or> get_class a s = Some MARKED) (ps @ ss)"
    by (rule wf_ringsD)
  have rr: "r' = r" using f(2) r by simp
  have h1: "heap s1 = heap s" by (simp add: s1)
  have g1: "\<And>x. get_class x s1 = get_class x s" "\<And>x. is_trivial x s1 = is_trivial x s"
    by (simp_all add: get_class_def is_trivial_def h1)
  have r1: "regions s1 this = Some (r\<lparr>current_memory_used := 0\<rparr>)" by (simp add: s1)
  have clS: "list_all (\<lambda>x. get_class x s1 = Some UNMARKED \<or> (sa = No \<and> get_class x s1 = Some MARKED)) ss"
    and clP: "list_all (\<lambda>x. get_class x s = Some UNMARKED \<or> (sa = No \<and> get_class x s = Some MARKED)) ps"
    using f(10) ya unfolding g1 list_all_iff unmarked_def by (cases sa; auto)+
  have trS: "list_all (\<lambda>x. is_trivial x s1 = Some (NonTrivialRing = TrivialRing)) ss"
    and trP: "list_all (\<lambda>x. is_trivial x s = Some (TrivialRing = TrivialRing)) ps"
    using rp nt unfolding g1 ring_partition_def list_all_iff by auto
  have m1: "heap s1 this = Some m" using f(1) h1 by simp
  have pS: "path (heap s1) (next_not_root (r\<lparr>current_memory_used := 0\<rparr>)) ss this"
    using f(5) rr h1 by simp
  have pre1: "sweep_pre NonTrivialRing sa TrivialRing this this s1 ss"
    by (rule sweep_pre_secondary[OF m1 r1 pS _ _ _ _ clS trS]) (use f rr in auto)
  from wf_rings_heap[OF wf, of o'] obtain iob where iob: "heap s o' = Some iob" by auto
  have io: "cls iob = ISO" "next iob = this" "trivial (descriptor iob) = True"
    using wf_rings_iso(1,2)[OF wf] nt iob by (auto simp: get_class_def get_region_def is_trivial_def)
  have en: "o' \<noteq> nullptr" "this \<noteq> nullptr" using f(8) by auto
  have mt1: "get_class this s1 \<noteq> Some ISO" using f(1,3) by (simp add: get_class_def h1)
  have fl1: "NonTrivialRing = NonTrivialRing \<Longrightarrow>
        \<forall>x\<in>set ss \<union> set (if sa = Yes \<and> NonTrivialRing = TrivialRing then [this] else []).
         \<forall>ob. heap s1 x = Some ob \<longrightarrow> (\<forall>q\<in>set (flds ob). heap s1 q \<noteq> None)"
  proof (intro ballI allI impI)
    fix x ob q
    assume a: "x \<in> set ss \<union> set (if sa = Yes \<and> NonTrivialRing = TrivialRing then [this] else [])"
      "heap s1 x = Some ob" "q \<in> set (flds ob)"
    from a(1) have "x \<in> set (ps @ o' # ss)" by (auto split: if_splits)
    from fields_allocD[OF fa this _ a(3)] a(2) show "heap s1 q \<noteq> None" by (simp add: h1)
  qed
  from sweep_ring_post[OF pre1 _ en(2) mt1 fl1, of o' collect] obtain c1 s2 where
    p1: "sweep_ring NonTrivialRing sa this o' TrivialRing [] collect s1 = Some ([], c1, s2) \<and>
     ring_post NonTrivialRing sa TrivialRing this this s1 ss s2 \<and>
     (NonTrivialRing = TrivialRing \<or>
      filter (\<lambda>x. get_class x s1 = Some UNMARKED) ss @
        (if sa = Yes \<and> NonTrivialRing = TrivialRing then [this] else []) = [] \<longrightarrow> c1 = collect)"
    and p1x: "(NonTrivialRing = TrivialRing \<longrightarrow> this = o') \<longrightarrow>
      c1 = (if NonTrivialRing = NonTrivialRing
         then concat (map (iso_refs o' s1)
                (filter (\<lambda>x. get_class x s1 = Some UNMARKED) ss @
                 (if sa = Yes \<and> NonTrivialRing = TrivialRing then [this] else [])))
         else []) @ collect"
    by auto
  have k1: "filter (\<lambda>x. get_class x s = Some UNMARKED) ss = [] \<longrightarrow> c1 = collect"
    using conjunct2[OF conjunct2[OF p1]] by (simp add: g1)
  have k2: "c1 = concat (map (iso_refs o' s) (filter (\<lambda>x. get_class x s = Some UNMARKED) ss)) @ collect"
  proof -
    have i1: "iso_refs o' s1 = iso_refs o' s" by (simp add: s1)
    show ?thesis using p1x by (simp add: g1 i1)
  qed
  note q = ring_postD[OF conjunct1[OF conjunct2[OF p1]]]
  have hP: "\<And>x. x \<in> set ps \<or> x = o' \<Longrightarrow> heap s2 x = heap s x"
    using q(1) f(7) h1 by auto
  have m2: "heap s2 this = Some m" using q(3) m1 by simp
  obtain r2 where r2: "regions s2 this = Some r2"
    using q(7) r1 by auto
  have pP: "path (heap s2) (next m) (ps @ [o']) this"
    using f(4) hP by (subst path_cong[of _ _ "heap s"]) auto
  have clP2: "list_all (\<lambda>x. get_class x s2 = Some UNMARKED \<or> (sa = No \<and> get_class x s2 = Some MARKED)) ps"
    using clP hP unfolding list_all_iff get_class_def by simp
  have trP2: "list_all (\<lambda>x. is_trivial x s2 = Some (TrivialRing = TrivialRing)) ps"
    using trP hP unfolding list_all_iff is_trivial_def by simp
  have pre2: "sweep_pre TrivialRing sa TrivialRing this o' s2 ps"
    by (rule sweep_pre_primary[OF m2 r2 pP _ _ clP2 trP2]) (use f in auto)
  have iso2: "TrivialRing = TrivialRing \<Longrightarrow> \<exists>iob. heap s2 o' = Some iob \<and> cls iob = ISO \<and>
      next iob = this \<and> trivial (descriptor iob) = (TrivialRing = TrivialRing) \<and> o' \<noteq> this"
    using iob io f(7) hP by auto
  have mt2: "get_class this s2 \<noteq> Some ISO" using m2 f(3) by (simp add: get_class_def)
  from sweep_ring_post[OF pre2 iso2 en(1) mt2, of o' c1] obtain c2 s3 where
    p2: "sweep_ring TrivialRing sa this o' TrivialRing [] c1 s2 = Some ([], c2, s3) \<and>
     ring_post TrivialRing sa TrivialRing this o' s2 ps s3 \<and> c2 = c1" by auto
  from p1 p2 k1 k2 show ?thesis by blast
qed

lemma ring_post_region:
  assumes rp: "ring_post ring sa prim this e s0 xs0 s'" and r0: "regions s0 this = Some r0"
  obtains r2 where "regions s' this = Some r2" "\<forall>x. x \<noteq> this \<longrightarrow> regions s' x = regions s0 x"
    "current_memory_used r2 = current_memory_used r0 +
        sum_list (map (\<lambda>x. the (obj_size x s0)) (filter (\<lambda>x. get_class x s0 = Some MARKED) xs0)) +
        (if ring = prim \<and> sa = No then the (obj_size e s0) else 0)"
    "previous_memory_used r2 = previous_memory_used r0"
    "next_not_root r2 = (if ring \<noteq> prim then hd (filter (\<lambda>x. get_class x s0 = Some MARKED) xs0 @ [e])
                     else next_not_root r0)"
    "last_not_root r2 = (if ring \<noteq> prim then last (this # filter (\<lambda>x. get_class x s0 = Some MARKED) xs0)
                     else last_not_root r0)"
    "ext_refs r2 = (if ring = TrivialRing
                     then ext_refs r0 - {x \<in> set (filter (\<lambda>x. get_class x s0 = Some UNMARKED) xs0 @
                            (if sa = Yes \<and> ring = prim then [e] else [])). has_ext_ref x s0 = Some True}
                     else ext_refs r0)"
    "hash_set r2 = hash_set r0"
proof -
  note q = ring_postD(7)[OF rp, unfolded r0 option.case]
  show ?thesis
    by (rule that[of "the (regions s' this)"]) (simp_all add: q)
qed

lemma sweep_postI:
  assumes "\<forall>x. x \<notin> set (this # ps @ o' # ss) \<longrightarrow> heap s' x = heap s x"
    "heap s' o' = (if sa = Yes then None else heap s o')"
    "heap s' this = map_option (\<lambda>m. m\<lparr>next := hd (filter (\<lambda>x. get_class x s = Some MARKED) ps @ [o'])\<rparr>) (heap s this)"
    "path (heap s') (hd (filter (\<lambda>x. get_class x s = Some MARKED) ps @ [o']))
        (filter (\<lambda>x. get_class x s = Some MARKED) ps) o'"
    "path (heap s') (hd (filter (\<lambda>x. get_class x s = Some MARKED) ss @ [this]))
        (filter (\<lambda>x. get_class x s = Some MARKED) ss) this"
    "list_all (\<lambda>x. \<exists>ob n. heap s x = Some ob \<and> heap s' x = Some (ob\<lparr>next := n, cls := UNMARKED\<rparr>))
        (filter (\<lambda>x. get_class x s = Some MARKED) ps @ filter (\<lambda>x. get_class x s = Some MARKED) ss)"
    "list_all (\<lambda>x. heap s' x = None)
        ((filter (\<lambda>x. get_class x s = Some UNMARKED) ps @ (if sa = Yes then [o'] else [])) @
         filter (\<lambda>x. get_class x s = Some UNMARKED) ss)"
    and r: "regions s this = Some r" "regions s' this = Some r'"
      "\<forall>x. x \<noteq> this \<longrightarrow> regions s' x = regions s x"
    and fs: "current_memory_used r' =
        sum_list (map (\<lambda>x. the (obj_size x s)) (filter (\<lambda>x. get_class x s = Some MARKED) ps)) +
        sum_list (map (\<lambda>x. the (obj_size x s)) (filter (\<lambda>x. get_class x s = Some MARKED) ss)) +
        (if sa = No then the (obj_size o' s) else 0)"
      "previous_memory_used r' = s2sc (current_memory_used r')"
      "next_not_root r' = hd (filter (\<lambda>x. get_class x s = Some MARKED) ss @ [this])"
      "last_not_root r' = last (this # filter (\<lambda>x. get_class x s = Some MARKED) ss)"
      "ext_refs r' = ext_refs r -
         {x \<in> set (if is_trivial o' s = Some True
                   then filter (\<lambda>x. get_class x s = Some UNMARKED) ps @ (if sa = Yes then [o'] else [])
                   else filter (\<lambda>x. get_class x s = Some UNMARKED) ss). has_ext_ref x s = Some True}"
      "hash_set r' = (\<lambda>a. if hash_set r a = Some True then Some False else None)"
    and ev: "events s' = events s @
       ring_events NonTrivialRing
         (if is_trivial o' s = Some True then filter (\<lambda>x. get_class x s = Some UNMARKED) ss
          else filter (\<lambda>x. get_class x s = Some UNMARKED) ps @ (if sa = Yes then [o'] else [])) @
       ring_events TrivialRing
         (if is_trivial o' s = Some True
          then filter (\<lambda>x. get_class x s = Some UNMARKED) ps @ (if sa = Yes then [o'] else [])
          else filter (\<lambda>x. get_class x s = Some UNMARKED) ss) @ [SweepSet this marked]"
  shows "sweep_post s2sc sa this o' ps ss marked s s'"
proof -
  let ?kP = "filter (\<lambda>x. get_class x s = Some MARKED) ps"
  let ?kS = "filter (\<lambda>x. get_class x s = Some MARKED) ss"
  let ?dP = "filter (\<lambda>x. get_class x s = Some UNMARKED) ps @ (if sa = Yes then [o'] else [])"
  let ?dS = "filter (\<lambda>x. get_class x s = Some UNMARKED) ss"
  let ?tot = "sum_list (map (\<lambda>x. the (obj_size x s)) ?kP) + sum_list (map (\<lambda>x. the (obj_size x s)) ?kS) +
        (if sa = No then the (obj_size o' s) else 0)"
  let ?R = "r\<lparr>current_memory_used := ?tot,
                 previous_memory_used := s2sc ?tot,
                 next_not_root := hd (?kS @ [this]),
                 last_not_root := last (this # ?kS),
                 ext_refs := ext_refs r -
                   {x \<in> set (if is_trivial o' s = Some True then ?dP else ?dS). has_ext_ref x s = Some True},
                 hash_set := (\<lambda>a. if hash_set r a = Some True then Some False else None)\<rparr>"
  have "r' = ?R" by (intro RegionTrace.equality) (simp_all add: fs)
  then have "regions s' = (regions s)(this \<mapsto> ?R)" using r by (auto simp: fun_eq_iff)
  then have rg: "case regions s this of None \<Rightarrow> False | Some r \<Rightarrow> regions s' = (regions s)(this \<mapsto>
       r\<lparr>current_memory_used := ?tot,
                 previous_memory_used := s2sc ?tot,
                 next_not_root := hd (?kS @ [this]),
                 last_not_root := last (this # ?kS),
                 ext_refs := ext_refs r -
                   {x \<in> set (if is_trivial o' s = Some True then ?dP else ?dS). has_ext_ref x s = Some True},
                 hash_set := (\<lambda>a. if hash_set r a = Some True then Some False else None)\<rparr>)"
    unfolding r(1) option.case .
  show ?thesis
    unfolding sweep_post_def Let_def
    apply (intro conjI)
            apply (rule assms(1))
           apply (rule assms(2))
          apply (rule assms(3))
         apply (rule assms(4))
        apply (rule assms(5))
       apply (rule assms(6))
      apply (rule assms(7))
     apply (rule rg)
    apply (rule ev)
    done
qed


lemma heap_eq_obs:
  assumes "heap s2 x = heap s x"
  shows "get_class x s2 = get_class x s" "obj_size x s2 = obj_size x s"
    "has_ext_ref x s2 = has_ext_ref x s" "is_trivial x s2 = is_trivial x s"
  using assms by (simp_all add: get_class_def obj_size_def has_ext_ref_def is_trivial_def)

lemma sweep_eval:
  assumes "regions s this = Some r" "is_trivial o' s = Some t"
    "sweep_ring NonTrivialRing sa this o' (if t then TrivialRing else NonTrivialRing) [] collect
       (s\<lparr>regions := (regions s)(this \<mapsto> r\<lparr>current_memory_used := 0\<rparr>)\<rparr>) = Some ([], c1, s2)"
    "sweep_ring TrivialRing sa this o' (if t then TrivialRing else NonTrivialRing) [] c1 s2 =
       Some ([], c2, s3)"
    "regions s3 this = Some r3"
  shows "sweep s2sc sa this o' [] collect marked s = Some ([], c2,
     s3\<lparr>regions := (regions s3)(this \<mapsto> r3\<lparr>hash_set := (\<lambda>a. if hash_set r3 a = Some True then Some False else None),
      previous_memory_used := s2sc (current_memory_used r3)\<rparr>),
      events := events s3 @ [SweepSet this marked]\<rparr>)"
proof -
  let ?s1 = "s\<lparr>regions := (regions s)(this \<mapsto> r\<lparr>current_memory_used := 0\<rparr>)\<rparr>"
  have u1: "upd_region this (\<lambda>r. r\<lparr>current_memory_used := 0\<rparr>) s = Some ?s1"
    by (simp add: upd_region_def assms(1))
  have t1: "is_trivial o' ?s1 = Some t" using assms(2) by (simp add: is_trivial_def)
  let ?s4 = "s3\<lparr>regions := (regions s3)(this \<mapsto> r3\<lparr>hash_set := (\<lambda>a. if hash_set r3 a = Some True then Some False else None)\<rparr>),
        events := events s3 @ [SweepSet this marked]\<rparr>"
  have ss: "sweep_set this marked s3 = Some ?s4"
    by (simp add: sweep_set_def upd_region_def assms(5))
  have u2: "upd_region this (\<lambda>r. r\<lparr>previous_memory_used := s2sc (current_memory_used r)\<rparr>) ?s4 =
     Some (s3\<lparr>regions := (regions s3)(this \<mapsto> r3\<lparr>hash_set := (\<lambda>a. if hash_set r3 a = Some True then Some False else None),
      previous_memory_used := s2sc (current_memory_used r3)\<rparr>),
      events := events s3 @ [SweepSet this marked]\<rparr>)"
    by (simp add: upd_region_def)
  show ?thesis
    unfolding sweep_def u1 bind.bind_lunit t1 Let_def assms(3) prod.case assms(4) ss u2 ..
qed

lemma sweep_nontrivial_iso:
  assumes wf: "wf_rings this o' ps ss s" and rp: "ring_partition o' ps ss s"
    and ya: "sa = Yes \<Longrightarrow> unmarked (ps @ ss) s"
    and fa: "fields_alloc (ps @ o' # ss) s"
    and nt: "is_trivial o' s = Some False"
  shows "\<exists>c' s'. sweep s2sc sa this o' [] collect marked s = Some ([], c', s') \<and>
     sweep_post s2sc sa this o' ps ss marked s s' \<and>
     (collected NonTrivialRing sa o' ps ss s = [] \<longrightarrow> c' = collect) \<and>
     c' = pushed_isos sa o' ps ss s @ collect"
proof -
  from wf obtain m r where f: "heap s this = Some m" "regions s this = Some r" "cls m = UNMARKED"
    "path (heap s) (next m) (ps @ [o']) this" "path (heap s) (next_not_root r) ss this"
    "last_not_root r = last (this # ss)" "distinct (this # ps @ o' # ss)"
    "nullptr \<notin> set (this # ps @ o' # ss)" "get_class o' s = Some ISO"
    "list_all (\<lambda>a. get_class a s = Some UNMARKED \<or> get_class a s = Some MARKED) (ps @ ss)"
    by (rule wf_ringsD)
  define s1 where "s1 = s\<lparr>regions := (regions s)(this \<mapsto> r\<lparr>current_memory_used := 0\<rparr>)\<rparr>"
  from sweep_passes_A[OF wf rp ya fa nt s1_def f(2), where collect=collect] obtain c1 c2 s2 s3 where
    P: "sweep_ring NonTrivialRing sa this o' NonTrivialRing [] collect s1 = Some ([], c1, s2)"
     "sweep_ring TrivialRing sa this o' NonTrivialRing [] c1 s2 = Some ([], c2, s3)"
     "ring_post NonTrivialRing sa NonTrivialRing this o' s1 ps s2"
     "ring_post TrivialRing sa NonTrivialRing this this s2 ss s3"
     "filter (\<lambda>x. get_class x s = Some UNMARKED) ps @ (if sa = Yes then [o'] else []) = [] \<longrightarrow>
        c1 = collect" "c2 = c1"
     "c1 = concat (map (iso_refs o' s)
            (filter (\<lambda>x. get_class x s = Some UNMARKED) ps @ (if sa = Yes then [o'] else []))) @
          collect" by blast
  have col: "collected NonTrivialRing sa o' ps ss s = [] \<longrightarrow> c2 = collect"
    using P(5,6) nt by (simp add: collected_def)
  have colx: "c2 = pushed_isos sa o' ps ss s @ collect"
    using P(6,7) nt by (simp add: pushed_isos_def collected_def)
  have h1: "heap s1 = heap s" by (simp add: s1_def)
  have g1: "\<And>x. get_class x s1 = get_class x s" "\<And>x. obj_size x s1 = obj_size x s"
    "\<And>x. has_ext_ref x s1 = has_ext_ref x s"
    by (simp_all add: get_class_def obj_size_def has_ext_ref_def h1)
  have r1: "regions s1 this = Some (r\<lparr>current_memory_used := 0\<rparr>)"
    and o1: "\<forall>x. x \<noteq> this \<longrightarrow> regions s1 x = regions s x" and e1: "events s1 = events s"
    by (simp_all add: s1_def)
  note q1 = ring_postD[OF P(3), unfolded g1 h1]
  note q2 = ring_postD[OF P(4)]
  let ?kP = "filter (\<lambda>x. get_class x s = Some MARKED) ps"
  let ?kS = "filter (\<lambda>x. get_class x s = Some MARKED) ss"
  let ?uP = "filter (\<lambda>x. get_class x s = Some UNMARKED) ps"
  let ?uS = "filter (\<lambda>x. get_class x s = Some UNMARKED) ss"
  have hS: "\<And>x. x \<in> set ss \<Longrightarrow> heap s2 x = heap s x"
    using q1(1) f(7) by auto
  have hP: "\<And>x. x \<in> set ps \<or> x = o' \<Longrightarrow> heap s3 x = heap s2 x"
    using q2(1) f(7) by auto
  have fk: "filter (\<lambda>x. get_class x s2 = Some MARKED) ss = ?kS"
    and fu: "filter (\<lambda>x. get_class x s2 = Some UNMARKED) ss = ?uS"
    by (rule filter_cong[OF refl], simp add: heap_eq_obs(1)[OF hS])+
  have fm: "map (\<lambda>x. the (obj_size x s2)) ?kS = map (\<lambda>x. the (obj_size x s)) ?kS"
    by (rule map_cong[OF refl]) (simp add: heap_eq_obs(2)[OF hS])
  have fe: "{x \<in> set ?uS. has_ext_ref x s2 = Some True} = {x \<in> set ?uS. has_ext_ref x s = Some True}"
    using heap_eq_obs(3)[OF hS] by auto
  note q2' = q2[unfolded fk fu]
  from ring_post_region[OF P(3) r1] obtain r2 where r2: "regions s2 this = Some r2"
    "\<forall>x. x \<noteq> this \<longrightarrow> regions s2 x = regions s1 x"
    "current_memory_used r2 = current_memory_used (r\<lparr>current_memory_used := 0\<rparr>) +
        sum_list (map (\<lambda>x. the (obj_size x s1)) (filter (\<lambda>x. get_class x s1 = Some MARKED) ps)) +
        (if NonTrivialRing = NonTrivialRing \<and> sa = No then the (obj_size o' s1) else 0)"
    "previous_memory_used r2 = previous_memory_used (r\<lparr>current_memory_used := 0\<rparr>)"
    "next_not_root r2 = (if NonTrivialRing \<noteq> NonTrivialRing
         then hd (filter (\<lambda>x. get_class x s1 = Some MARKED) ps @ [o'])
         else next_not_root (r\<lparr>current_memory_used := 0\<rparr>))"
    "last_not_root r2 = (if NonTrivialRing \<noteq> NonTrivialRing
         then last (this # filter (\<lambda>x. get_class x s1 = Some MARKED) ps)
         else last_not_root (r\<lparr>current_memory_used := 0\<rparr>))"
    "ext_refs r2 = (if NonTrivialRing = TrivialRing
                     then ext_refs (r\<lparr>current_memory_used := 0\<rparr>) -
                        {x \<in> set (filter (\<lambda>x. get_class x s1 = Some UNMARKED) ps @
                            (if sa = Yes \<and> NonTrivialRing = NonTrivialRing then [o'] else [])).
                         has_ext_ref x s1 = Some True}
                     else ext_refs (r\<lparr>current_memory_used := 0\<rparr>))"
    "hash_set r2 = hash_set (r\<lparr>current_memory_used := 0\<rparr>)" .
  from ring_post_region[OF P(4) r2(1)] obtain r3 where r3: "regions s3 this = Some r3"
    "\<forall>x. x \<noteq> this \<longrightarrow> regions s3 x = regions s2 x"
    "current_memory_used r3 = current_memory_used r2 +
        sum_list (map (\<lambda>x. the (obj_size x s2)) (filter (\<lambda>x. get_class x s2 = Some MARKED) ss)) +
        (if TrivialRing = NonTrivialRing \<and> sa = No then the (obj_size this s2) else 0)"
    "previous_memory_used r3 = previous_memory_used r2"
    "next_not_root r3 = (if TrivialRing \<noteq> NonTrivialRing
         then hd (filter (\<lambda>x. get_class x s2 = Some MARKED) ss @ [this])
         else next_not_root r2)"
    "last_not_root r3 = (if TrivialRing \<noteq> NonTrivialRing
         then last (this # filter (\<lambda>x. get_class x s2 = Some MARKED) ss)
         else last_not_root r2)"
    "ext_refs r3 = (if TrivialRing = TrivialRing
                     then ext_refs r2 -
                        {x \<in> set (filter (\<lambda>x. get_class x s2 = Some UNMARKED) ss @
                            (if sa = Yes \<and> TrivialRing = NonTrivialRing then [this] else [])).
                         has_ext_ref x s2 = Some True}
                     else ext_refs r2)"
    "hash_set r3 = hash_set r2" .
  define r5 where "r5 = r3\<lparr>hash_set := (\<lambda>a. if hash_set r3 a = Some True then Some False else None),
      previous_memory_used := s2sc (current_memory_used r3)\<rparr>"
  define s5 where "s5 = s3\<lparr>regions := (regions s3)(this \<mapsto> r5),
      events := events s3 @ [SweepSet this marked]\<rparr>"
  have res: "sweep s2sc sa this o' [] collect marked s = Some ([], c2, s5)"
    unfolding s5_def r5_def
    by (rule sweep_eval[OF f(2) nt _ _ r3(1), where ?c1.0=c1 and ?s2.0=s2])
       (simp_all only: if_False P(1,2)[unfolded s1_def])
  have h5: "heap s5 = heap s3" by (simp add: s5_def)
  have post: "sweep_post s2sc sa this o' ps ss marked s s5"
  proof (rule sweep_postI[where r=r and r'=r5])
    show "\<forall>x. x \<notin> set (this # ps @ o' # ss) \<longrightarrow> heap s5 x = heap s x"
      using q1(1) q2(1) by (simp add: h5)
    show "heap s5 o' = (if sa = Yes then None else heap s o')"
      using q1(2) hP[of o'] f(7) by (simp add: h5)
    show "heap s5 this = map_option (\<lambda>m. m\<lparr>next := hd (?kP @ [o'])\<rparr>) (heap s this)"
      using q1(3) q2(3) by (simp add: h5)
    have "\<And>x. x \<in> set ?kP \<Longrightarrow> heap s3 x = heap s2 x" using hP by simp
    then show "path (heap s5) (hd (?kP @ [o'])) ?kP o'"
      unfolding h5 using q1(4) by (subst path_cong[of _ _ "heap s2"]) auto
    show "path (heap s5) (hd (?kS @ [this])) ?kS this" unfolding h5 by (rule q2'(4))
    show "list_all (\<lambda>x. \<exists>ob n. heap s x = Some ob \<and> heap s5 x = Some (ob\<lparr>next := n, cls := UNMARKED\<rparr>))
        (?kP @ ?kS)"
      unfolding h5 list_all_append
    proof
      show "list_all (\<lambda>x. \<exists>ob n. heap s x = Some ob \<and> heap s3 x = Some (ob\<lparr>next := n, cls := UNMARKED\<rparr>)) ?kP"
        using q1(5) hP unfolding list_all_iff by simp
      show "list_all (\<lambda>x. \<exists>ob n. heap s x = Some ob \<and> heap s3 x = Some (ob\<lparr>next := n, cls := UNMARKED\<rparr>)) ?kS"
        using q2'(5) hS unfolding list_all_iff by simp
    qed
    show "list_all (\<lambda>x. heap s5 x = None) ((?uP @ (if sa = Yes then [o'] else [])) @ ?uS)"
      unfolding h5 list_all_append
    proof (intro conjI)
      show "list_all (\<lambda>x. heap s3 x = None) ?uP" using q1(6) hP unfolding list_all_iff by simp
      show "list_all (\<lambda>x. heap s3 x = None) (if sa = Yes then [o'] else [])"
        using q1(2) hP[of o'] f(7) by simp
      show "list_all (\<lambda>x. heap s3 x = None) ?uS" by (rule q2'(6))
    qed
    show "regions s this = Some r" by (rule f(2))
    show "regions s5 this = Some r5" by (simp add: s5_def)
    show "\<forall>x. x \<noteq> this \<longrightarrow> regions s5 x = regions s x"
      using r3(2) r2(2) o1 by (simp add: s5_def)
    show c5: "current_memory_used r5 = sum_list (map (\<lambda>x. the (obj_size x s)) ?kP) +
        sum_list (map (\<lambda>x. the (obj_size x s)) ?kS) + (if sa = No then the (obj_size o' s) else 0)"
      unfolding r5_def using r3(3) r2(3) by (simp add: fk fm g1)
    show "previous_memory_used r5 = s2sc (current_memory_used r5)" by (simp add: r5_def)
    show "next_not_root r5 = hd (?kS @ [this])" using r3(5) by (simp add: r5_def fk)
    show "last_not_root r5 = last (this # ?kS)" using r3(6) by (simp add: r5_def fk)
    show "ext_refs r5 = ext_refs r -
         {x \<in> set (if is_trivial o' s = Some True then ?uP @ (if sa = Yes then [o'] else []) else ?uS).
          has_ext_ref x s = Some True}"
      using r3(7) r2(7) fe by (simp add: r5_def fu nt)
    show "hash_set r5 = (\<lambda>a. if hash_set r a = Some True then Some False else None)"
      using r3(8) r2(8) by (simp add: r5_def)
    show "events s5 = events s @
       ring_events NonTrivialRing
         (if is_trivial o' s = Some True then ?uS else ?uP @ (if sa = Yes then [o'] else [])) @
       ring_events TrivialRing
         (if is_trivial o' s = Some True then ?uP @ (if sa = Yes then [o'] else []) else ?uS) @
       [SweepSet this marked]"
      using q1(8) q2'(8) by (simp add: s5_def nt e1)
  qed
  from res post col colx show ?thesis by blast
qed


lemma sweep_trivial_iso:
  assumes wf: "wf_rings this o' ps ss s" and rp: "ring_partition o' ps ss s"
    and ya: "sa = Yes \<Longrightarrow> unmarked (ps @ ss) s"
    and fa: "fields_alloc (ps @ o' # ss) s"
    and nt: "is_trivial o' s = Some True"
  shows "\<exists>c' s'. sweep s2sc sa this o' [] collect marked s = Some ([], c', s') \<and>
     sweep_post s2sc sa this o' ps ss marked s s' \<and>
     (collected NonTrivialRing sa o' ps ss s = [] \<longrightarrow> c' = collect) \<and>
     c' = pushed_isos sa o' ps ss s @ collect"
proof -
  from wf obtain m r where f: "heap s this = Some m" "regions s this = Some r" "cls m = UNMARKED"
    "path (heap s) (next m) (ps @ [o']) this" "path (heap s) (next_not_root r) ss this"
    "last_not_root r = last (this # ss)" "distinct (this # ps @ o' # ss)"
    "nullptr \<notin> set (this # ps @ o' # ss)" "get_class o' s = Some ISO"
    "list_all (\<lambda>a. get_class a s = Some UNMARKED \<or> get_class a s = Some MARKED) (ps @ ss)"
    by (rule wf_ringsD)
  define s1 where "s1 = s\<lparr>regions := (regions s)(this \<mapsto> r\<lparr>current_memory_used := 0\<rparr>)\<rparr>"
  from sweep_passes_B[OF wf rp ya fa nt s1_def f(2), where collect=collect] obtain c1 c2 s2 s3 where
    P: "sweep_ring NonTrivialRing sa this o' TrivialRing [] collect s1 = Some ([], c1, s2)"
     "sweep_ring TrivialRing sa this o' TrivialRing [] c1 s2 = Some ([], c2, s3)"
     "ring_post NonTrivialRing sa TrivialRing this this s1 ss s2"
     "ring_post TrivialRing sa TrivialRing this o' s2 ps s3"
     "filter (\<lambda>x. get_class x s = Some UNMARKED) ss = [] \<longrightarrow> c1 = collect" "c2 = c1"
     "c1 = concat (map (iso_refs o' s) (filter (\<lambda>x. get_class x s = Some UNMARKED) ss)) @ collect"
     by blast
  have col: "collected NonTrivialRing sa o' ps ss s = [] \<longrightarrow> c2 = collect"
    using P(5,6) nt by (simp add: collected_def)
  have colx: "c2 = pushed_isos sa o' ps ss s @ collect"
    using P(6,7) nt by (simp add: pushed_isos_def collected_def)
  have h1: "heap s1 = heap s" by (simp add: s1_def)
  have g1: "\<And>x. get_class x s1 = get_class x s" "\<And>x. obj_size x s1 = obj_size x s"
    "\<And>x. has_ext_ref x s1 = has_ext_ref x s"
    by (simp_all add: get_class_def obj_size_def has_ext_ref_def h1)
  have r1: "regions s1 this = Some (r\<lparr>current_memory_used := 0\<rparr>)"
    and o1: "\<forall>x. x \<noteq> this \<longrightarrow> regions s1 x = regions s x" and e1: "events s1 = events s"
    by (simp_all add: s1_def)
  note q1 = ring_postD[OF P(3), unfolded g1 h1]
  note q2 = ring_postD[OF P(4)]
  let ?kP = "filter (\<lambda>x. get_class x s = Some MARKED) ps"
  let ?kS = "filter (\<lambda>x. get_class x s = Some MARKED) ss"
  let ?uP = "filter (\<lambda>x. get_class x s = Some UNMARKED) ps"
  let ?uS = "filter (\<lambda>x. get_class x s = Some UNMARKED) ss"
  have hP: "\<And>x. x \<in> set ps \<or> x = o' \<Longrightarrow> heap s2 x = heap s x"
    using q1(1) f(7) by auto
  have hS: "\<And>x. x \<in> set ss \<Longrightarrow> heap s3 x = heap s2 x"
    using q2(1) f(7) by auto
  have fk: "filter (\<lambda>x. get_class x s2 = Some MARKED) ps = ?kP"
    and fu: "filter (\<lambda>x. get_class x s2 = Some UNMARKED) ps = ?uP"
    by (rule filter_cong[OF refl], simp add: heap_eq_obs(1)[OF hP])+
  have fm: "map (\<lambda>x. the (obj_size x s2)) ?kP = map (\<lambda>x. the (obj_size x s)) ?kP"
    by (rule map_cong[OF refl]) (simp add: heap_eq_obs(2)[OF hP])
  have fo: "obj_size o' s2 = obj_size o' s" by (simp add: heap_eq_obs(2)[OF hP])
  have fe: "{x \<in> set (?uP @ (if sa = Yes then [o'] else [])). has_ext_ref x s2 = Some True} =
      {x \<in> set (?uP @ (if sa = Yes then [o'] else [])). has_ext_ref x s = Some True}"
    using heap_eq_obs(3)[OF hP] by auto
  note q2' = q2[unfolded fk fu]
  from ring_post_region[OF P(3) r1] obtain r2 where r2: "regions s2 this = Some r2"
    "\<forall>x. x \<noteq> this \<longrightarrow> regions s2 x = regions s1 x"
    "current_memory_used r2 = current_memory_used (r\<lparr>current_memory_used := 0\<rparr>) +
        sum_list (map (\<lambda>x. the (obj_size x s1)) (filter (\<lambda>x. get_class x s1 = Some MARKED) ss)) +
        (if NonTrivialRing = TrivialRing \<and> sa = No then the (obj_size this s1) else 0)"
    "previous_memory_used r2 = previous_memory_used (r\<lparr>current_memory_used := 0\<rparr>)"
    "next_not_root r2 = (if NonTrivialRing \<noteq> TrivialRing
         then hd (filter (\<lambda>x. get_class x s1 = Some MARKED) ss @ [this])
         else next_not_root (r\<lparr>current_memory_used := 0\<rparr>))"
    "last_not_root r2 = (if NonTrivialRing \<noteq> TrivialRing
         then last (this # filter (\<lambda>x. get_class x s1 = Some MARKED) ss)
         else last_not_root (r\<lparr>current_memory_used := 0\<rparr>))"
    "ext_refs r2 = (if NonTrivialRing = TrivialRing
                     then ext_refs (r\<lparr>current_memory_used := 0\<rparr>) -
                        {x \<in> set (filter (\<lambda>x. get_class x s1 = Some UNMARKED) ss @
                            (if sa = Yes \<and> NonTrivialRing = TrivialRing then [this] else [])).
                         has_ext_ref x s1 = Some True}
                     else ext_refs (r\<lparr>current_memory_used := 0\<rparr>))"
    "hash_set r2 = hash_set (r\<lparr>current_memory_used := 0\<rparr>)" .
  from ring_post_region[OF P(4) r2(1)] obtain r3 where r3: "regions s3 this = Some r3"
    "\<forall>x. x \<noteq> this \<longrightarrow> regions s3 x = regions s2 x"
    "current_memory_used r3 = current_memory_used r2 +
        sum_list (map (\<lambda>x. the (obj_size x s2)) (filter (\<lambda>x. get_class x s2 = Some MARKED) ps)) +
        (if TrivialRing = TrivialRing \<and> sa = No then the (obj_size o' s2) else 0)"
    "previous_memory_used r3 = previous_memory_used r2"
    "next_not_root r3 = (if TrivialRing \<noteq> TrivialRing
         then hd (filter (\<lambda>x. get_class x s2 = Some MARKED) ps @ [o'])
         else next_not_root r2)"
    "last_not_root r3 = (if TrivialRing \<noteq> TrivialRing
         then last (this # filter (\<lambda>x. get_class x s2 = Some MARKED) ps)
         else last_not_root r2)"
    "ext_refs r3 = (if TrivialRing = TrivialRing
                     then ext_refs r2 -
                        {x \<in> set (filter (\<lambda>x. get_class x s2 = Some UNMARKED) ps @
                            (if sa = Yes \<and> TrivialRing = TrivialRing then [o'] else [])).
                         has_ext_ref x s2 = Some True}
                     else ext_refs r2)"
    "hash_set r3 = hash_set r2" .
  define r5 where "r5 = r3\<lparr>hash_set := (\<lambda>a. if hash_set r3 a = Some True then Some False else None),
      previous_memory_used := s2sc (current_memory_used r3)\<rparr>"
  define s5 where "s5 = s3\<lparr>regions := (regions s3)(this \<mapsto> r5),
      events := events s3 @ [SweepSet this marked]\<rparr>"
  have res: "sweep s2sc sa this o' [] collect marked s = Some ([], c2, s5)"
    unfolding s5_def r5_def
    by (rule sweep_eval[OF f(2) nt _ _ r3(1), where ?c1.0=c1 and ?s2.0=s2])
       (simp_all only: if_True P(1,2)[unfolded s1_def])
  have h5: "heap s5 = heap s3" by (simp add: s5_def)
  have ne: "o' \<noteq> this" using f(7) by auto
  have post: "sweep_post s2sc sa this o' ps ss marked s s5"
  proof (rule sweep_postI[where r=r and r'=r5])
    show "\<forall>x. x \<notin> set (this # ps @ o' # ss) \<longrightarrow> heap s5 x = heap s x"
      using q1(1) q2(1) by (simp add: h5)
    show "heap s5 o' = (if sa = Yes then None else heap s o')"
      using q2(2) hP[of o'] ne by (simp add: h5)
    show "heap s5 this = map_option (\<lambda>m. m\<lparr>next := hd (?kP @ [o'])\<rparr>) (heap s this)"
      using q1(3) q2'(3) by (simp add: h5)
    show "path (heap s5) (hd (?kP @ [o'])) ?kP o'" unfolding h5 by (rule q2'(4))
    have "\<And>x. x \<in> set ?kS \<Longrightarrow> heap s3 x = heap s2 x" using hS by simp
    then show "path (heap s5) (hd (?kS @ [this])) ?kS this"
      unfolding h5 using q1(4) by (subst path_cong[of _ _ "heap s2"]) auto
    show "list_all (\<lambda>x. \<exists>ob n. heap s x = Some ob \<and> heap s5 x = Some (ob\<lparr>next := n, cls := UNMARKED\<rparr>))
        (?kP @ ?kS)"
      unfolding h5 list_all_append
    proof
      show "list_all (\<lambda>x. \<exists>ob n. heap s x = Some ob \<and> heap s3 x = Some (ob\<lparr>next := n, cls := UNMARKED\<rparr>)) ?kP"
        using q2'(5) hP unfolding list_all_iff by simp
      show "list_all (\<lambda>x. \<exists>ob n. heap s x = Some ob \<and> heap s3 x = Some (ob\<lparr>next := n, cls := UNMARKED\<rparr>)) ?kS"
        using q1(5) hS unfolding list_all_iff by simp
    qed
    show "list_all (\<lambda>x. heap s5 x = None) ((?uP @ (if sa = Yes then [o'] else [])) @ ?uS)"
      unfolding h5 list_all_append
    proof (intro conjI)
      show "list_all (\<lambda>x. heap s3 x = None) ?uP" by (rule q2'(6))
      show "list_all (\<lambda>x. heap s3 x = None) (if sa = Yes then [o'] else [])"
        using q2(2) ne by simp
      show "list_all (\<lambda>x. heap s3 x = None) ?uS" using q1(6) hS unfolding list_all_iff by simp
    qed
    show "regions s this = Some r" by (rule f(2))
    show "regions s5 this = Some r5" by (simp add: s5_def)
    show "\<forall>x. x \<noteq> this \<longrightarrow> regions s5 x = regions s x"
      using r3(2) r2(2) o1 by (simp add: s5_def)
    show c5: "current_memory_used r5 = sum_list (map (\<lambda>x. the (obj_size x s)) ?kP) +
        sum_list (map (\<lambda>x. the (obj_size x s)) ?kS) + (if sa = No then the (obj_size o' s) else 0)"
      unfolding r5_def using r3(3) r2(3) by (simp add: fk fm fo g1)
    show "previous_memory_used r5 = s2sc (current_memory_used r5)" by (simp add: r5_def)
    show "next_not_root r5 = hd (?kS @ [this])" using r3(5) r2(5) by (simp add: r5_def g1)
    show "last_not_root r5 = last (this # ?kS)" using r3(6) r2(6) by (simp add: r5_def g1)
    show "ext_refs r5 = ext_refs r -
         {x \<in> set (if is_trivial o' s = Some True then ?uP @ (if sa = Yes then [o'] else []) else ?uS).
          has_ext_ref x s = Some True}"
      using r3(7) r2(7) fe by (simp add: r5_def fu nt)
    show "hash_set r5 = (\<lambda>a. if hash_set r a = Some True then Some False else None)"
      using r3(8) r2(8) by (simp add: r5_def)
    show "events s5 = events s @
       ring_events NonTrivialRing
         (if is_trivial o' s = Some True then ?uS else ?uP @ (if sa = Yes then [o'] else [])) @
       ring_events TrivialRing
         (if is_trivial o' s = Some True then ?uP @ (if sa = Yes then [o'] else []) else ?uS) @
       [SweepSet this marked]"
      using q1(8) q2'(8) by (simp add: s5_def nt e1)
  qed
  from res post col colx show ?thesis by blast
qed

lemma sweep_total:
  assumes wf: "wf_rings this o' ps ss s" and rp: "ring_partition o' ps ss s"
    and ya: "sa = Yes \<Longrightarrow> unmarked (ps @ ss) s"
    and fa: "fields_alloc (ps @ o' # ss) s"
  shows "\<exists>c' s'. sweep s2sc sa this o' [] collect marked s = Some ([], c', s') \<and>
     sweep_post s2sc sa this o' ps ss marked s s' \<and>
     (collected NonTrivialRing sa o' ps ss s = [] \<longrightarrow> c' = collect) \<and>
     c' = pushed_isos sa o' ps ss s @ collect"
proof -
  from wf_rings_heap[OF wf, of o'] obtain iob where "heap s o' = Some iob" by auto
  then have "is_trivial o' s = Some True \<or> is_trivial o' s = Some False"
    by (simp add: is_trivial_def)
  then show ?thesis
    using sweep_trivial_iso[OF wf rp ya fa] sweep_nontrivial_iso[OF wf rp ya fa] by blast
qed

lemma sweep_postD:
  assumes "sweep_post s2sc sa this o' ps ss marked s s'"
  shows "\<forall>x. x \<notin> set (this # ps @ o' # ss) \<longrightarrow> heap s' x = heap s x"
    "heap s' o' = (if sa = Yes then None else heap s o')"
    "heap s' this = map_option (\<lambda>m. m\<lparr>next := hd (filter (\<lambda>x. get_class x s = Some MARKED) ps @ [o'])\<rparr>) (heap s this)"
    "path (heap s') (hd (filter (\<lambda>x. get_class x s = Some MARKED) ps @ [o']))
        (filter (\<lambda>x. get_class x s = Some MARKED) ps) o'"
    "path (heap s') (hd (filter (\<lambda>x. get_class x s = Some MARKED) ss @ [this]))
        (filter (\<lambda>x. get_class x s = Some MARKED) ss) this"
    "list_all (\<lambda>x. \<exists>ob n. heap s x = Some ob \<and> heap s' x = Some (ob\<lparr>next := n, cls := UNMARKED\<rparr>))
        (filter (\<lambda>x. get_class x s = Some MARKED) ps @ filter (\<lambda>x. get_class x s = Some MARKED) ss)"
    "list_all (\<lambda>x. heap s' x = None)
        ((filter (\<lambda>x. get_class x s = Some UNMARKED) ps @ (if sa = Yes then [o'] else [])) @
         filter (\<lambda>x. get_class x s = Some UNMARKED) ss)"
    "events s' = events s @
       ring_events NonTrivialRing
         (if is_trivial o' s = Some True then filter (\<lambda>x. get_class x s = Some UNMARKED) ss
          else filter (\<lambda>x. get_class x s = Some UNMARKED) ps @ (if sa = Yes then [o'] else [])) @
       ring_events TrivialRing
         (if is_trivial o' s = Some True
          then filter (\<lambda>x. get_class x s = Some UNMARKED) ps @ (if sa = Yes then [o'] else [])
          else filter (\<lambda>x. get_class x s = Some UNMARKED) ss) @ [SweepSet this marked]"
  using assms unfolding sweep_post_def Let_def by blast+

lemma sweep_post_region:
  assumes sp: "sweep_post s2sc sa this o' ps ss marked s s'"
  obtains r r' where "regions s this = Some r" "regions s' this = Some r'"
      "\<forall>x. x \<noteq> this \<longrightarrow> regions s' x = regions s x"
      "current_memory_used r' =
        sum_list (map (\<lambda>x. the (obj_size x s)) (filter (\<lambda>x. get_class x s = Some MARKED) ps)) +
        sum_list (map (\<lambda>x. the (obj_size x s)) (filter (\<lambda>x. get_class x s = Some MARKED) ss)) +
        (if sa = No then the (obj_size o' s) else 0)"
      "previous_memory_used r' = s2sc (current_memory_used r')"
      "next_not_root r' = hd (filter (\<lambda>x. get_class x s = Some MARKED) ss @ [this])"
      "last_not_root r' = last (this # filter (\<lambda>x. get_class x s = Some MARKED) ss)"
      "ext_refs r' = ext_refs r -
         {x \<in> set (if is_trivial o' s = Some True
                   then filter (\<lambda>x. get_class x s = Some UNMARKED) ps @ (if sa = Yes then [o'] else [])
                   else filter (\<lambda>x. get_class x s = Some UNMARKED) ss). has_ext_ref x s = Some True}"
      "hash_set r' = (\<lambda>a. if hash_set r a = Some True then Some False else None)"
proof -
  from sp have c: "case regions s this of None \<Rightarrow> False | Some r \<Rightarrow> regions s' = (regions s)(this \<mapsto>
       r\<lparr>current_memory_used := sum_list (map (\<lambda>x. the (obj_size x s)) (filter (\<lambda>x. get_class x s = Some MARKED) ps)) +
        sum_list (map (\<lambda>x. the (obj_size x s)) (filter (\<lambda>x. get_class x s = Some MARKED) ss)) +
        (if sa = No then the (obj_size o' s) else 0),
         previous_memory_used := s2sc (sum_list (map (\<lambda>x. the (obj_size x s)) (filter (\<lambda>x. get_class x s = Some MARKED) ps)) +
        sum_list (map (\<lambda>x. the (obj_size x s)) (filter (\<lambda>x. get_class x s = Some MARKED) ss)) +
        (if sa = No then the (obj_size o' s) else 0)),
         next_not_root := hd (filter (\<lambda>x. get_class x s = Some MARKED) ss @ [this]),
         last_not_root := last (this # filter (\<lambda>x. get_class x s = Some MARKED) ss),
         ext_refs := ext_refs r -
         {x \<in> set (if is_trivial o' s = Some True
                   then filter (\<lambda>x. get_class x s = Some UNMARKED) ps @ (if sa = Yes then [o'] else [])
                   else filter (\<lambda>x. get_class x s = Some UNMARKED) ss). has_ext_ref x s = Some True},
         hash_set := (\<lambda>a. if hash_set r a = Some True then Some False else None)\<rparr>)"
    unfolding sweep_post_def Let_def by blast
  then obtain r where r: "regions s this = Some r" by (cases "regions s this") auto
  note q = c[unfolded r option.case]
  show ?thesis
    by (rule that[of r "the (regions s' this)"]) (simp_all add: q r)
qed

lemma path_snoc:
  "path h x as y \<Longrightarrow> h y = Some ob \<Longrightarrow> next ob = z \<Longrightarrow> y \<notin> set as \<Longrightarrow> path h x (as @ [y]) z"
  by (induction as arbitrary: x) (auto split: option.splits)


lemma sweep_post_wf:
  assumes wf: "wf_rings this o' ps ss s"
    and sp: "sweep_post s2sc No this o' ps ss marked s s'"
  shows "wf_rings this o' (filter (\<lambda>x. get_class x s = Some MARKED) ps)
           (filter (\<lambda>x. get_class x s = Some MARKED) ss) s'"
    and "unmarked (filter (\<lambda>x. get_class x s = Some MARKED) ps @
                   filter (\<lambda>x. get_class x s = Some MARKED) ss) s'"
    and "\<forall>x\<in>set (o' # filter (\<lambda>x. get_class x s = Some MARKED) ps @
                   filter (\<lambda>x. get_class x s = Some MARKED) ss).
           obj_size x s' = obj_size x s \<and> is_trivial x s' = is_trivial x s \<and>
           map_option flds (heap s' x) = map_option flds (heap s x)"
proof -
  let ?kP = "filter (\<lambda>x. get_class x s = Some MARKED) ps"
  let ?kS = "filter (\<lambda>x. get_class x s = Some MARKED) ss"
  from wf obtain m r where f: "heap s this = Some m" "regions s this = Some r" "cls m = UNMARKED"
    "path (heap s) (next m) (ps @ [o']) this" "path (heap s) (next_not_root r) ss this"
    "last_not_root r = last (this # ss)" "distinct (this # ps @ o' # ss)"
    "nullptr \<notin> set (this # ps @ o' # ss)" "get_class o' s = Some ISO"
    "list_all (\<lambda>a. get_class a s = Some UNMARKED \<or> get_class a s = Some MARKED) (ps @ ss)"
    by (rule wf_ringsD)
  note q = sweep_postD[OF sp]
  from sweep_post_region[OF sp] obtain r0 r' where r': "regions s this = Some r0"
      "regions s' this = Some r'"
      "\<forall>x. x \<noteq> this \<longrightarrow> regions s' x = regions s x"
      "current_memory_used r' =
        sum_list (map (\<lambda>x. the (obj_size x s)) (filter (\<lambda>x. get_class x s = Some MARKED) ps)) +
        sum_list (map (\<lambda>x. the (obj_size x s)) (filter (\<lambda>x. get_class x s = Some MARKED) ss)) +
        (if No = No then the (obj_size o' s) else 0)"
      "previous_memory_used r' = s2sc (current_memory_used r')"
      "next_not_root r' = hd (filter (\<lambda>x. get_class x s = Some MARKED) ss @ [this])"
      "last_not_root r' = last (this # filter (\<lambda>x. get_class x s = Some MARKED) ss)"
      "ext_refs r' = ext_refs r0 -
         {x \<in> set (if is_trivial o' s = Some True
                   then filter (\<lambda>x. get_class x s = Some UNMARKED) ps @ (if No = Yes then [o'] else [])
                   else filter (\<lambda>x. get_class x s = Some UNMARKED) ss). has_ext_ref x s = Some True}"
      "hash_set r' = (\<lambda>a. if hash_set r0 a = Some True then Some False else None)" .
  have ho: "heap s' o' = heap s o'" using q(2) by simp
  from path_last_next[OF f(4)] obtain iob where iob: "heap s o' = Some iob" "next iob = this" by blast
  have m': "heap s' this = Some (m\<lparr>next := hd (?kP @ [o'])\<rparr>)" using q(3) f(1) by simp
  have oP: "o' \<notin> set ?kP" using f(7) by auto
  have p1: "path (heap s') (next (m\<lparr>next := hd (?kP @ [o'])\<rparr>)) (?kP @ [o']) this"
    using path_snoc[OF q(4) _ iob(2) oP] iob(1) ho by simp
  have p2: "path (heap s') (next_not_root r') ?kS this" using q(5) r'(6) by simp
  have di: "distinct (this # ?kP @ o' # ?kS)" using f(7) by auto
  have nn: "nullptr \<notin> set (this # ?kP @ o' # ?kS)" using f(8) by auto
  have ci: "get_class o' s' = Some ISO" using f(9) ho by (simp add: get_class_def)
  have ku: "list_all (\<lambda>a. get_class a s' = Some UNMARKED) (?kP @ ?kS)"
    unfolding list_all_iff
  proof
    fix x assume "x \<in> set (?kP @ ?kS)"
    with q(6) obtain ob n where "heap s' x = Some (ob\<lparr>next := n, cls := UNMARKED\<rparr>)"
      unfolding list_all_iff by blast
    then show "get_class x s' = Some UNMARKED" by (simp add: get_class_def)
  qed
  then have kc: "list_all (\<lambda>a. get_class a s' = Some UNMARKED \<or> get_class a s' = Some MARKED) (?kP @ ?kS)"
    unfolding list_all_iff by simp
  show "wf_rings this o' ?kP ?kS s'"
    unfolding wf_rings_def m' r'(2) prod.case option.case
    apply (intro conjI)
    using f(3) apply simp
          apply (rule p1)
         apply (rule p2)
        apply (rule r'(7))
       apply (rule di)
      apply (rule nn)
     apply (rule ci)
    apply (rule kc)
    done
  show "unmarked (?kP @ ?kS) s'" unfolding unmarked_def by (rule ku)
  show "\<forall>x\<in>set (o' # ?kP @ ?kS). obj_size x s' = obj_size x s \<and> is_trivial x s' = is_trivial x s \<and>
           map_option flds (heap s' x) = map_option flds (heap s x)"
  proof
    fix x assume "x \<in> set (o' # ?kP @ ?kS)"
    then have "x = o' \<or> x \<in> set (?kP @ ?kS)" by auto
    then show "obj_size x s' = obj_size x s \<and> is_trivial x s' = is_trivial x s \<and>
           map_option flds (heap s' x) = map_option flds (heap s x)"
    proof
      assume "x = o'" then show ?thesis using ho by (simp add: obj_size_def is_trivial_def)
    next
      assume "x \<in> set (?kP @ ?kS)"
      with q(6) obtain ob n where "heap s x = Some ob" "heap s' x = Some (ob\<lparr>next := n, cls := UNMARKED\<rparr>)"
        unfolding list_all_iff by blast
      then show ?thesis by (simp add: obj_size_def is_trivial_def)
    qed
  qed
qed

text \<open>
  C3 (post-sweep, normal mode). On a well-formed region whose objects hold no dangling
  reference, \<open>sweep\<close> with \<open>SweepAll::No\<close> returns, and in the state it leaves every
  member that was UNMARKED is deallocated, every member that was MARKED is UNMARKED,
  the two rings are well formed and hold exactly the members that were MARKED, in
  their old order, and \<open>current_memory_used\<close> is the sum, in \<open>size_t\<close> arithmetic, of
  the descriptor sizes of these survivors plus the size of the iso.
\<close>

theorem sweep_post_state:
  assumes wf: "wf_rings this o' ps ss s" and rp: "ring_partition o' ps ss s"
    and fa: "fields_alloc (ps @ o' # ss) s"
  shows "\<exists>c' s' r'. sweep s2sc No this o' [] collect marked s = Some ([], c', s') \<and>
     regions s' this = Some r' \<and>
     (\<forall>x\<in>set (ps @ ss). get_class x s = Some UNMARKED \<longrightarrow> heap s' x = None) \<and>
     (\<forall>x\<in>set (ps @ ss). get_class x s = Some MARKED \<longrightarrow> get_class x s' = Some UNMARKED) \<and>
     wf_rings this o' (filter (\<lambda>x. get_class x s = Some MARKED) ps)
        (filter (\<lambda>x. get_class x s = Some MARKED) ss) s' \<and>
     current_memory_used r' =
        sum_list (map (\<lambda>x. the (obj_size x s'))
          (filter (\<lambda>x. get_class x s = Some MARKED) ps @
           filter (\<lambda>x. get_class x s = Some MARKED) ss)) + the (obj_size o' s')"
proof -
  let ?kP = "filter (\<lambda>x. get_class x s = Some MARKED) ps"
  let ?kS = "filter (\<lambda>x. get_class x s = Some MARKED) ss"
  have ya: "No = Yes \<Longrightarrow> unmarked (ps @ ss) s" by simp
  from sweep_total[OF wf rp ya fa, where collect=collect and marked=marked and ?s2sc.0=s2sc]
  obtain c' s' where res: "sweep s2sc No this o' [] collect marked s = Some ([], c', s')"
    and sp: "sweep_post s2sc No this o' ps ss marked s s'" by blast
  note q = sweep_postD[OF sp]
  note w = sweep_post_wf[OF wf sp]
  from sweep_post_region[OF sp] obtain r0 r' where r': "regions s this = Some r0"
      "regions s' this = Some r'"
      "\<forall>x. x \<noteq> this \<longrightarrow> regions s' x = regions s x"
      "current_memory_used r' =
        sum_list (map (\<lambda>x. the (obj_size x s)) (filter (\<lambda>x. get_class x s = Some MARKED) ps)) +
        sum_list (map (\<lambda>x. the (obj_size x s)) (filter (\<lambda>x. get_class x s = Some MARKED) ss)) +
        (if No = No then the (obj_size o' s) else 0)"
      "previous_memory_used r' = s2sc (current_memory_used r')"
      "next_not_root r' = hd (filter (\<lambda>x. get_class x s = Some MARKED) ss @ [this])"
      "last_not_root r' = last (this # filter (\<lambda>x. get_class x s = Some MARKED) ss)"
      "ext_refs r' = ext_refs r0 -
         {x \<in> set (if is_trivial o' s = Some True
                   then filter (\<lambda>x. get_class x s = Some UNMARKED) ps @ (if No = Yes then [o'] else [])
                   else filter (\<lambda>x. get_class x s = Some UNMARKED) ss). has_ext_ref x s = Some True}"
      "hash_set r' = (\<lambda>a. if hash_set r0 a = Some True then Some False else None)" .
  have d: "\<forall>x\<in>set (ps @ ss). get_class x s = Some UNMARKED \<longrightarrow> heap s' x = None"
    using q(7) unfolding list_all_iff by auto
  have k: "\<forall>x\<in>set (ps @ ss). get_class x s = Some MARKED \<longrightarrow> get_class x s' = Some UNMARKED"
    using w(2) unfolding unmarked_def list_all_iff by auto
  have sz: "map (\<lambda>x. the (obj_size x s')) (?kP @ ?kS) = map (\<lambda>x. the (obj_size x s)) (?kP @ ?kS)"
    by (rule map_cong[OF refl]) (use w(3) in simp)
  have so: "obj_size o' s' = obj_size o' s" using w(3) by simp
  have cm: "current_memory_used r' =
      sum_list (map (\<lambda>x. the (obj_size x s')) (?kP @ ?kS)) + the (obj_size o' s')"
    unfolding sz so r'(4) by simp
  from res r'(2) d k w(1) cm show ?thesis by blast
qed

text \<open>
  C2 (order of the sweep). On a well-formed region \<open>sweep\<close> returns, and what it adds to
  the event log is, in this order: the finaliser of every object collected from the
  non-trivial ring, in walk order; \<open>find_iso_fields\<close> on each of them (phase A); for
  each of them its destructor immediately followed by its deallocation (phase B);
  then the deallocations of the trivial ring; then \<open>sweep_set\<close>. So the non-trivial
  ring is swept first, every finaliser precedes phase A, phase A is complete before
  the first destructor, and each destructor is next to the deallocation of the same
  object.
\<close>

theorem sweep_event_order:
  assumes wf: "wf_rings this o' ps ss s" and rp: "ring_partition o' ps ss s"
    and ya: "sa = Yes \<Longrightarrow> unmarked (ps @ ss) s"
    and fa: "fields_alloc (ps @ o' # ss) s"
  shows "\<exists>c' s'. sweep s2sc sa this o' [] collect marked s = Some ([], c', s') \<and>
     events s' = events s @
       map Finalise (collected NonTrivialRing sa o' ps ss s) @
       map FindIsoFields (rev (collected NonTrivialRing sa o' ps ss s)) @
       concat (map (\<lambda>d. [Destructor d, Dealloc d]) (rev (collected NonTrivialRing sa o' ps ss s))) @
       map Dealloc (collected TrivialRing sa o' ps ss s) @
       [SweepSet this marked]"
proof -
  from sweep_total[OF wf rp ya fa, where collect=collect and marked=marked and ?s2sc.0=s2sc]
  obtain c' s' where res: "sweep s2sc sa this o' [] collect marked s = Some ([], c', s')"
    and sp: "sweep_post s2sc sa this o' ps ss marked s s'" by blast
  note e = sweep_postD(8)[OF sp]
  have "events s' = events s @
       map Finalise (collected NonTrivialRing sa o' ps ss s) @
       map FindIsoFields (rev (collected NonTrivialRing sa o' ps ss s)) @
       concat (map (\<lambda>d. [Destructor d, Dealloc d]) (rev (collected NonTrivialRing sa o' ps ss s))) @
       map Dealloc (collected TrivialRing sa o' ps ss s) @
       [SweepSet this marked]"
    unfolding e collected_def ring_events_def by simp
  with res show ?thesis by blast
qed



lemma mark_invD:
  assumes "mark_inv this o' s0 dfs s"
  shows "\<And>p. heap s p = heap s0 p \<or>
          (\<exists>ob. heap s0 p = Some ob \<and> cls ob = UNMARKED \<and> reach s0 o' p \<and>
                heap s p = Some (ob\<lparr>cls := MARKED\<rparr>))"
    "\<And>q. q \<in> set dfs \<Longrightarrow> \<exists>p ob. reach s0 o' p \<and> heap s0 p = Some ob \<and>
          (p = o' \<or> cls ob = UNMARKED) \<and> q \<in> set (flds ob)"
    "\<And>p ob q. heap s0 p = Some ob \<Longrightarrow> p = o' \<or> (cls ob = UNMARKED \<and> get_class p s = Some MARKED) \<Longrightarrow>
          q \<in> set (flds ob) \<Longrightarrow> q \<in> set dfs \<or> get_class q s \<noteq> Some UNMARKED"
    "events s = events s0"
    "\<And>x. x \<noteq> this \<Longrightarrow> regions s x = regions s0 x"
    "\<exists>r0 r. regions s0 this = Some r0 \<and> regions s this = Some r \<and> r = r0\<lparr>hash_set := hash_set r\<rparr>"
proof -
  note a = assms[unfolded mark_inv_def]
  show "\<And>p. heap s p = heap s0 p \<or>
          (\<exists>ob. heap s0 p = Some ob \<and> cls ob = UNMARKED \<and> reach s0 o' p \<and>
                heap s p = Some (ob\<lparr>cls := MARKED\<rparr>))" using a by blast
  show "\<And>q. q \<in> set dfs \<Longrightarrow> \<exists>p ob. reach s0 o' p \<and> heap s0 p = Some ob \<and>
          (p = o' \<or> cls ob = UNMARKED) \<and> q \<in> set (flds ob)" using a by blast
  show "\<And>p ob q. heap s0 p = Some ob \<Longrightarrow> p = o' \<or> (cls ob = UNMARKED \<and> get_class p s = Some MARKED) \<Longrightarrow>
          q \<in> set (flds ob) \<Longrightarrow> q \<in> set dfs \<or> get_class q s \<noteq> Some UNMARKED"
    using conjunct1[OF conjunct2[OF conjunct2[OF a]]] by blast
  show "events s = events s0" using a by blast
  show "\<And>x. x \<noteq> this \<Longrightarrow> regions s x = regions s0 x" using a by blast
  have "case (regions s0 this, regions s this) of
        (Some r0, Some r) \<Rightarrow> r = r0\<lparr>hash_set := hash_set r\<rparr> | _ \<Rightarrow> False"
    using a by blast
  then show "\<exists>r0 r. regions s0 this = Some r0 \<and> regions s this = Some r \<and> r = r0\<lparr>hash_set := hash_set r\<rparr>"
    by (auto split: option.splits)
qed

lemma mark_invI:
  assumes "\<And>p. heap s p = heap s0 p \<or>
          (\<exists>ob. heap s0 p = Some ob \<and> cls ob = UNMARKED \<and> reach s0 o' p \<and>
                heap s p = Some (ob\<lparr>cls := MARKED\<rparr>))"
    "\<And>q. q \<in> set dfs \<Longrightarrow> \<exists>p ob. reach s0 o' p \<and> heap s0 p = Some ob \<and>
          (p = o' \<or> cls ob = UNMARKED) \<and> q \<in> set (flds ob)"
    "\<And>p ob q. heap s0 p = Some ob \<Longrightarrow> p = o' \<or> (cls ob = UNMARKED \<and> get_class p s = Some MARKED) \<Longrightarrow>
          q \<in> set (flds ob) \<Longrightarrow> q \<in> set dfs \<or> get_class q s \<noteq> Some UNMARKED"
    "events s = events s0"
    "\<And>x. x \<noteq> this \<Longrightarrow> regions s x = regions s0 x"
    "regions s0 this = Some r0" "regions s this = Some r" "r = r0\<lparr>hash_set := hash_set r\<rparr>"
  shows "mark_inv this o' s0 dfs s"
  unfolding mark_inv_def
  apply (intro conjI allI ballI impI)
  subgoal for p by (rule assms(1))
  subgoal for q by (rule assms(2))
  subgoal for p ob q using assms(3)[of p ob q] by blast
  subgoal by (rule assms(4))
  subgoal for x by (rule assms(5))
  subgoal using assms(6,7,8) by simp
  done


lemma mark_inv_class:
  assumes "mark_inv this o' s0 dfs s"
  shows "get_class p s = get_class p s0 \<or>
     (get_class p s0 = Some UNMARKED \<and> get_class p s = Some MARKED \<and> reach s0 o' p)"
  using mark_invD(1)[OF assms, of p] by (auto simp: get_class_def)

lemma mark_inv_dom:
  assumes "mark_inv this o' s0 dfs s"
  shows "dom (heap s) = dom (heap s0)"
proof -
  have "\<And>p. (heap s p = None) = (heap s0 p = None)"
    using mark_invD(1)[OF assms] by (metis option.distinct(1))
  then show ?thesis by (auto simp: dom_def)
qed

lemma mark_step_skip:
  assumes inv: "mark_inv this o' s0 (p # dfs) s"
    and c: "get_class p s \<noteq> Some UNMARKED"
    and h: "heap s' = heap s" "events s' = events s"
    and r: "\<And>x. x \<noteq> this \<Longrightarrow> regions s' x = regions s x"
      "regions s this = Some r1" "regions s' this = Some (r1\<lparr>hash_set := hs\<rparr>)"
  shows "mark_inv this o' s0 dfs s'"
proof -
  note i = mark_invD[OF inv]
  from i(6) r(2) obtain r0 where r0: "regions s0 this = Some r0" "r1 = r0\<lparr>hash_set := hash_set r1\<rparr>"
    by auto
  have gc: "\<And>x. get_class x s' = get_class x s" by (simp add: get_class_def h)
  show ?thesis
  proof (rule mark_invI[where ?r0.0=r0 and r="r1\<lparr>hash_set := hs\<rparr>"])
    show "\<And>p. heap s' p = heap s0 p \<or>
          (\<exists>ob. heap s0 p = Some ob \<and> cls ob = UNMARKED \<and> reach s0 o' p \<and>
                heap s' p = Some (ob\<lparr>cls := MARKED\<rparr>))" unfolding h by (rule i(1))
    show "\<And>q. q \<in> set dfs \<Longrightarrow> \<exists>p ob. reach s0 o' p \<and> heap s0 p = Some ob \<and>
          (p = o' \<or> cls ob = UNMARKED) \<and> q \<in> set (flds ob)" using i(2) by simp
    show "\<And>pa ob q. heap s0 pa = Some ob \<Longrightarrow> pa = o' \<or> (cls ob = UNMARKED \<and> get_class pa s' = Some MARKED) \<Longrightarrow>
          q \<in> set (flds ob) \<Longrightarrow> q \<in> set dfs \<or> get_class q s' \<noteq> Some UNMARKED"
    proof -
      fix pa ob q assume a: "heap s0 pa = Some ob"
        "pa = o' \<or> (cls ob = UNMARKED \<and> get_class pa s' = Some MARKED)" "q \<in> set (flds ob)"
      from i(3)[OF a(1) a(2)[unfolded gc] a(3)]
      have "q \<in> set (p # dfs) \<or> get_class q s \<noteq> Some UNMARKED" .
      then show "q \<in> set dfs \<or> get_class q s' \<noteq> Some UNMARKED"
        unfolding gc using c by auto
    qed
    show "events s' = events s0" using i(4) h(2) by simp
    show "\<And>x. x \<noteq> this \<Longrightarrow> regions s' x = regions s0 x" using i(5) r(1) by simp
    show "regions s0 this = Some r0" by (rule r0(1))
    show "regions s' this = Some (r1\<lparr>hash_set := hs\<rparr>)" by (rule r(3))
    show "r1\<lparr>hash_set := hs\<rparr> = r0\<lparr>hash_set := hash_set (r1\<lparr>hash_set := hs\<rparr>)\<rparr>"
      by (subst r0(2)) simp
  qed
qed

lemma mark_step_mark:
  assumes inv: "mark_inv this o' s0 (p # dfs) s"
    and c: "get_class p s = Some UNMARKED"
    and ob: "heap s p = Some ob"
  shows "mark_inv this o' s0 (rev (flds ob) @ dfs) (s\<lparr>heap := (heap s)(p \<mapsto> ob\<lparr>cls := MARKED\<rparr>)\<rparr>)"
proof -
  let ?s' = "s\<lparr>heap := (heap s)(p \<mapsto> ob\<lparr>cls := MARKED\<rparr>)\<rparr>"
  note i = mark_invD[OF inv]
  from i(6) obtain r0 r where r0: "regions s0 this = Some r0" "regions s this = Some r"
    "r = r0\<lparr>hash_set := hash_set r\<rparr>" by blast
  have cu: "cls ob = UNMARKED" using c ob by (simp add: get_class_def)
  have h0: "heap s0 p = Some ob" using i(1)[of p] ob cu by auto
  from i(2)[of p] obtain p0 ob0 where p0: "reach s0 o' p0" "heap s0 p0 = Some ob0"
    "p0 = o' \<or> cls ob0 = UNMARKED" "p \<in> set (flds ob0)" by auto
  have c0: "get_class p s0 = Some UNMARKED" using h0 cu by (simp add: get_class_def)
  have rp: "reach s0 o' p" by (rule reach_field[OF p0 disjI1[OF c0]])
  have gc: "\<And>x. x \<noteq> p \<Longrightarrow> get_class x ?s' = get_class x s" by (simp add: get_class_def)
  have gp: "get_class p ?s' = Some MARKED" by (simp add: get_class_def)
  show ?thesis
  proof (rule mark_invI[where ?r0.0=r0 and r=r])
    show "\<And>x. heap ?s' x = heap s0 x \<or>
          (\<exists>ob. heap s0 x = Some ob \<and> cls ob = UNMARKED \<and> reach s0 o' x \<and>
                heap ?s' x = Some (ob\<lparr>cls := MARKED\<rparr>))"
    proof -
      fix x show "heap ?s' x = heap s0 x \<or>
          (\<exists>ob. heap s0 x = Some ob \<and> cls ob = UNMARKED \<and> reach s0 o' x \<and>
                heap ?s' x = Some (ob\<lparr>cls := MARKED\<rparr>))"
      proof (cases "x = p")
        case True then show ?thesis using h0 cu rp by simp
      next
        case False then show ?thesis using i(1)[of x] by simp
      qed
    qed
    show "\<And>q. q \<in> set (rev (flds ob) @ dfs) \<Longrightarrow> \<exists>p ob. reach s0 o' p \<and> heap s0 p = Some ob \<and>
          (p = o' \<or> cls ob = UNMARKED) \<and> q \<in> set (flds ob)"
    proof -
      fix q assume "q \<in> set (rev (flds ob) @ dfs)"
      then have "q \<in> set (flds ob) \<or> q \<in> set dfs" by auto
      then show "\<exists>p ob. reach s0 o' p \<and> heap s0 p = Some ob \<and>
          (p = o' \<or> cls ob = UNMARKED) \<and> q \<in> set (flds ob)"
      proof
        assume "q \<in> set (flds ob)" then show ?thesis using rp h0 cu by blast
      next
        assume "q \<in> set dfs" then show ?thesis using i(2)[of q] by simp
      qed
    qed
    show "\<And>pa oa q. heap s0 pa = Some oa \<Longrightarrow> pa = o' \<or> (cls oa = UNMARKED \<and> get_class pa ?s' = Some MARKED) \<Longrightarrow>
          q \<in> set (flds oa) \<Longrightarrow> q \<in> set (rev (flds ob) @ dfs) \<or> get_class q ?s' \<noteq> Some UNMARKED"
    proof -
      fix pa oa q assume a: "heap s0 pa = Some oa"
        "pa = o' \<or> (cls oa = UNMARKED \<and> get_class pa ?s' = Some MARKED)" "q \<in> set (flds oa)"
      show "q \<in> set (rev (flds ob) @ dfs) \<or> get_class q ?s' \<noteq> Some UNMARKED"
      proof (cases "pa = p")
        case True
        then have "oa = ob" using a(1) h0 by simp
        then show ?thesis using a(3) by simp
      next
        case False
        then have "get_class pa (s\<lparr>heap := (heap s)(p \<mapsto> ob\<lparr>cls := MARKED\<rparr>)\<rparr>) = get_class pa s"
          by (rule gc)
        with a(2) have "pa = o' \<or> (cls oa = UNMARKED \<and> get_class pa s = Some MARKED)"
          by metis
        from i(3)[OF a(1) this a(3)] have d: "q \<in> set (p # dfs) \<or> get_class q s \<noteq> Some UNMARKED" .
        show ?thesis
        proof (cases "q = p")
          case True then show ?thesis using gp by simp
        next
          case False then show ?thesis using d gc[of q] by auto
        qed
      qed
    qed
    show "events ?s' = events s0" using i(4) by simp
    show "\<And>x. x \<noteq> this \<Longrightarrow> regions ?s' x = regions s0 x" using i(5) by simp
    show "regions s0 this = Some r0" by (rule r0(1))
    show "regions ?s' this = Some r" using r0(2) by simp
    show "r = r0\<lparr>hash_set := hash_set r\<rparr>" by (rule r0(3))
  qed
qed


lemma RememberedSet_mark_result:
  assumes "regions s this = Some r1"
  shows "\<exists>m2 s2 hs. RememberedSet_mark this q m s = Some (m2, s2) \<and> heap s2 = heap s \<and>
     events s2 = events s \<and> (\<forall>x. x \<noteq> this \<longrightarrow> regions s2 x = regions s x) \<and>
     regions s2 this = Some (r1\<lparr>hash_set := hs\<rparr>)"
proof (cases "hash_set r1 q = Some True")
  case True
  then have "RememberedSet_mark this q m s = Some (m, s)"
    by (simp add: RememberedSet_mark_def assms)
  moreover have "regions s this = Some (r1\<lparr>hash_set := hash_set r1\<rparr>)" using assms by simp
  ultimately show ?thesis by blast
next
  case False
  let ?s2 = "s\<lparr>regions := (regions s)(this \<mapsto> r1\<lparr>hash_set := (hash_set r1)(q \<mapsto> True)\<rparr>)\<rparr>"
  have "RememberedSet_mark this q m s = Some (m + 1, ?s2)"
    using False by (simp add: RememberedSet_mark_def assms upd_region_def)
  moreover have "heap ?s2 = heap s" "events ?s2 = events s"
    "\<forall>x. x \<noteq> this \<longrightarrow> regions ?s2 x = regions s x"
    "regions ?s2 this = Some (r1\<lparr>hash_set := (hash_set r1)(q \<mapsto> True)\<rparr>)" by simp_all
  ultimately show ?thesis by blast
qed

lemma mark_loop_total:
  assumes fin: "finite (dom (heap s0))" and ra: "refs_alloc s0 o'"
    and inv: "mark_inv this o' s0 dfs s"
  shows "\<exists>m' s'. mark_loop this dfs m s = Some (m', s') \<and> mark_inv this o' s0 [] s'"
proof -
  have "wf (less_than <*lex*> less_than)" by (intro wf_lex_prod wf_less_than)
  then show ?thesis using inv
  proof (induction "(card {p. get_class p s = Some UNMARKED}, length dfs)" arbitrary: dfs m s
      rule: wf_induct_rule)
    case less
    note IH = less.hyps and inv = less.prems
    show ?case
    proof (cases dfs)
      case Nil
      then show ?thesis using inv by (subst mark_loop.simps) simp
    next
      case (Cons p ds)
      note i = mark_invD[OF inv[unfolded Cons]]
      from i(2)[of p] obtain p0 ob0 where p0: "reach s0 o' p0" "heap s0 p0 = Some ob0"
        "p0 = o' \<or> cls ob0 = UNMARKED" "p \<in> set (flds ob0)" by auto
      from ra p0 have "heap s0 p \<noteq> None" unfolding refs_alloc_def by blast
      then have "heap s p \<noteq> None" using i(1)[of p] by auto
      then obtain ob where ob: "heap s p = Some ob" by auto
      from i(6) obtain r0 r1 where r1: "regions s this = Some r1" by blast
      have gcl: "get_class p s = Some (cls ob)" using ob by (simp add: get_class_def)
      have skip: "\<exists>m' s'. mark_loop this ds m2 s2 = Some (m', s') \<and> mark_inv this o' s0 [] s'"
        if c: "cls ob \<noteq> UNMARKED" and h: "heap s2 = heap s" "events s2 = events s"
          "\<forall>x. x \<noteq> this \<longrightarrow> regions s2 x = regions s x"
          "regions s2 this = Some (r1\<lparr>hash_set := hs\<rparr>)" for m2 s2 hs
      proof -
        have c': "get_class p s \<noteq> Some UNMARKED" using c gcl by simp
        have inv2: "mark_inv this o' s0 ds s2"
          by (rule mark_step_skip[OF inv[unfolded Cons] c' h(1,2) _ r1 h(4)]) (use h(3) in simp)
        have "{p. get_class p s2 = Some UNMARKED} = {p. get_class p s = Some UNMARKED}"
          by (simp add: get_class_def h(1))
        then have "((card {p. get_class p s2 = Some UNMARKED}, length ds),
            (card {p. get_class p s = Some UNMARKED}, length dfs)) \<in> less_than <*lex*> less_than"
          using Cons by simp
        from IH[OF this inv2] show ?thesis .
      qed
      have same: "\<exists>m' s'. mark_loop this ds m s = Some (m', s') \<and> mark_inv this o' s0 [] s'"
        if c: "cls ob \<noteq> UNMARKED"
        by (rule skip[OF c, of s "hash_set r1"]) (simp_all add: r1)
      have rem: "\<exists>m' s'. (do { (marked, s) \<leftarrow> RememberedSet_mark this q m s;
            mark_loop this ds marked s }) = Some (m', s') \<and> mark_inv this o' s0 [] s'"
        if c: "cls ob \<noteq> UNMARKED" for q
      proof -
        from RememberedSet_mark_result[OF r1, of q m] obtain m2 s2 hs where
          rs: "RememberedSet_mark this q m s = Some (m2, s2)" and h: "heap s2 = heap s"
          "events s2 = events s" "\<forall>x. x \<noteq> this \<longrightarrow> regions s2 x = regions s x"
          "regions s2 this = Some (r1\<lparr>hash_set := hs\<rparr>)" by blast
        from skip[OF c h, of m2] show ?thesis by (simp add: rs)
      qed
      show ?thesis
      proof (cases "cls ob")
        case ISO
        then show ?thesis unfolding Cons using same
          by (subst mark_loop.simps) (simp add: gcl)
      next
        case MARKED
        then show ?thesis unfolding Cons using same
          by (subst mark_loop.simps) (simp add: gcl)
      next
        case SCC_PTR
        then show ?thesis unfolding Cons using rem[of "next ob"]
          by (subst mark_loop.simps) (simp add: gcl immutable_def ob)
      next
        case RC
        then show ?thesis unfolding Cons using rem[of p]
          by (subst mark_loop.simps) (simp add: gcl)
      next
        case COWN
        then show ?thesis unfolding Cons using rem[of p]
          by (subst mark_loop.simps) (simp add: gcl)
      next
        case UNMARKED
        let ?s1 = "s\<lparr>heap := (heap s)(p \<mapsto> ob\<lparr>cls := MARKED\<rparr>)\<rparr>"
        have c': "get_class p s = Some UNMARKED" using UNMARKED gcl by simp
        have inv2: "mark_inv this o' s0 (rev (flds ob) @ ds) ?s1"
          by (rule mark_step_mark[OF inv[unfolded Cons] c' ob])
        have U: "{x. get_class x ?s1 = Some UNMARKED} = {x. get_class x s = Some UNMARKED} - {p}"
          by (auto simp: get_class_def)
        have "{x. get_class x s = Some UNMARKED} \<subseteq> dom (heap s)"
          by (auto simp: get_class_def)
        then have fU: "finite {x. get_class x s = Some UNMARKED}"
          using fin mark_inv_dom[OF inv] by (metis finite_subset)
        have "card {x. get_class x ?s1 = Some UNMARKED} < card {x. get_class x s = Some UNMARKED}"
          unfolding U using fU c' by (intro card_Diff1_less) simp_all
        then have "((card {x. get_class x ?s1 = Some UNMARKED}, length (rev (flds ob) @ ds)),
            (card {p. get_class p s = Some UNMARKED}, length dfs)) \<in> less_than <*lex*> less_than"
          by simp
        from IH[OF this inv2, of m] show ?thesis unfolding Cons
          by (subst mark_loop.simps) (simp add: gcl UNMARKED obj_mark_def upd_obj_def ob trace_def)
      qed
    qed
  qed
qed


lemma mark_inv_init:
  assumes "heap s o' = Some iob" "regions s this = Some r"
  shows "mark_inv this o' s (rev (flds iob)) s"
proof (rule mark_invI[where ?r0.0=r and r=r])
  show "\<And>q. q \<in> set (rev (flds iob)) \<Longrightarrow> \<exists>p ob. reach s o' p \<and> heap s p = Some ob \<and>
          (p = o' \<or> cls ob = UNMARKED) \<and> q \<in> set (flds ob)"
    using assms(1) reach_iso[of s o'] by auto
  show "\<And>p ob q. heap s p = Some ob \<Longrightarrow> p = o' \<or> (cls ob = UNMARKED \<and> get_class p s = Some MARKED) \<Longrightarrow>
          q \<in> set (flds ob) \<Longrightarrow> q \<in> set (rev (flds iob)) \<or> get_class q s \<noteq> Some UNMARKED"
    using assms(1) by (auto simp: get_class_def)
qed (simp_all add: assms)

lemma mark_total:
  assumes fin: "finite (dom (heap s))" and ra: "refs_alloc s o'"
    and io: "heap s o' = Some iob" and rg: "regions s this = Some r"
  shows "\<exists>m' s'. mark this o' [] m s = Some (m', s') \<and> mark_inv this o' s [] s'"
proof -
  from mark_loop_total[OF fin ra mark_inv_init[OF io rg], of m]
  show ?thesis by (simp add: mark_def trace_def io)
qed

lemma mark_inv_reached:
  assumes inv: "mark_inv this o' s0 [] s'" and io: "get_class o' s0 = Some ISO"
    and rc: "reach s0 o' p"
  shows "get_class p s' = Some MARKED \<or> get_class p s' = Some ISO"
  using rc
proof (induction rule: reach.induct)
  case reach_iso
  from mark_inv_class[OF inv, of o'] io show ?case by auto
next
  case (reach_field p ob q)
  have tr: "p = o' \<or> (cls ob = UNMARKED \<and> get_class p s' = Some MARKED)"
  proof (cases "p = o'")
    case False
    then have u: "cls ob = UNMARKED" using reach_field.hyps(3) by simp
    then have "get_class p s0 = Some UNMARKED" using reach_field.hyps(2) by (simp add: get_class_def)
    with mark_inv_class[OF inv, of p] reach_field.IH u show ?thesis by auto
  qed simp
  from mark_invD(3)[OF inv reach_field.hyps(2) tr reach_field.hyps(4)]
  have nu: "get_class q s' \<noteq> Some UNMARKED" by simp
  from mark_inv_class[OF inv, of q] reach_field.hyps(5) nu show ?case by auto
qed

lemma mark_inv_marked:
  assumes inv: "mark_inv this o' s0 dfs s'" and m: "get_class p s' = Some MARKED"
  shows "reach s0 o' p \<or> get_class p s0 = Some MARKED"
  using mark_inv_class[OF inv, of p] m by auto

text \<open>
  C4 (post-mark). On a finite heap, for a well-formed region whose members are all
  UNMARKED and whose traced objects hold no dangling reference, \<open>mark\<close> called with
  an empty work list returns. In the state it leaves, every object reachable from the
  iso by references inside the region is MARKED or is an iso; an object that is
  MARKED is reachable or was MARKED before the call; so no member of the region that
  is unreachable is MARKED.
\<close>

theorem mark_post:
  assumes fin: "finite (dom (heap s))" and wf: "wf_rings this o' ps ss s"
    and um: "unmarked (ps @ ss) s" and ra: "refs_alloc s o'"
  shows "\<exists>marked' s'. mark this o' [] marked s = Some (marked', s') \<and>
     (\<forall>p. reach s o' p \<longrightarrow> get_class p s' = Some MARKED \<or> get_class p s' = Some ISO) \<and>
     (\<forall>p. get_class p s' = Some MARKED \<longrightarrow> reach s o' p \<or> get_class p s = Some MARKED) \<and>
     (\<forall>p\<in>set (ps @ ss). get_class p s' = Some MARKED \<longrightarrow> reach s o' p)"
proof -
  from wf obtain m r where f: "heap s this = Some m" "regions s this = Some r" "cls m = UNMARKED"
    "path (heap s) (next m) (ps @ [o']) this" "path (heap s) (next_not_root r) ss this"
    "last_not_root r = last (this # ss)" "distinct (this # ps @ o' # ss)"
    "nullptr \<notin> set (this # ps @ o' # ss)" "get_class o' s = Some ISO"
    "list_all (\<lambda>a. get_class a s = Some UNMARKED \<or> get_class a s = Some MARKED) (ps @ ss)"
    by (rule wf_ringsD)
  from f(9) obtain iob where io: "heap s o' = Some iob" by (auto simp: get_class_def)
  from mark_total[OF fin ra io f(2), of marked] obtain m' s' where
    res: "mark this o' [] marked s = Some (m', s')" and inv: "mark_inv this o' s [] s'" by blast
  have a: "\<forall>p. reach s o' p \<longrightarrow> get_class p s' = Some MARKED \<or> get_class p s' = Some ISO"
    using mark_inv_reached[OF inv f(9)] by blast
  have b: "\<forall>p. get_class p s' = Some MARKED \<longrightarrow> reach s o' p \<or> get_class p s = Some MARKED"
    using mark_inv_marked[OF inv] by blast
  have c: "\<forall>p\<in>set (ps @ ss). get_class p s' = Some MARKED \<longrightarrow> reach s o' p"
  proof (intro ballI impI)
    fix p assume p: "p \<in> set (ps @ ss)" "get_class p s' = Some MARKED"
    from um p(1) have "get_class p s = Some UNMARKED" unfolding unmarked_def list_all_iff by blast
    with mark_inv_marked[OF inv p(2)] show "reach s o' p" by simp
  qed
  from res a b c show ?thesis by blast
qed

lemma path_next_eq:
  "path h x as y \<Longrightarrow> path h' x as y \<Longrightarrow> a \<in> set as \<Longrightarrow>
   map_option next (h a) = map_option next (h' a)"
proof (induction as arbitrary: x)
  case Nil then show ?case by simp
next
  case (Cons b bs)
  from path_hd_next[OF Cons.prems(1)] obtain ob where ob: "h b = Some ob" "x = b"
    "path h (next ob) bs y" "bs \<noteq> [] \<longrightarrow> next ob = hd bs" "bs = [] \<longrightarrow> next ob = y" by blast
  from path_hd_next[OF Cons.prems(2)] obtain ob' where ob': "h' b = Some ob'"
    "path h' (next ob') bs y" "bs \<noteq> [] \<longrightarrow> next ob' = hd bs" "bs = [] \<longrightarrow> next ob' = y" by blast
  have n: "next ob = next ob'" using ob(4,5) ob'(3,4) by (cases bs) auto
  show ?case
  proof (cases "a = b")
    case True then show ?thesis using ob(1) ob'(1) n by simp
  next
    case False
    then have "a \<in> set bs" using Cons.prems(3) by simp
    from Cons.IH[OF ob(3) ob'(2)[folded n] this] show ?thesis .
  qed
qed

lemma filter_all: "list_all P xs \<Longrightarrow> filter P xs = xs"
  by (induction xs) auto

lemma filter_none: "list_all (\<lambda>x. \<not> P x) xs \<Longrightarrow> filter P xs = []"
  by (induction xs) auto

lemma sweep_all_marked:
  assumes wf: "wf_rings this o' ps ss s" and rp: "ring_partition o' ps ss s"
    and am: "list_all (\<lambda>x. get_class x s = Some MARKED) (ps @ ss)"
    and fa: "fields_alloc (ps @ o' # ss) s"
    and r: "regions s this = Some r"
  shows "\<exists>s'. sweep s2sc No this o' [] collect marked s = Some ([], collect, s') \<and>
     (\<forall>x. heap s' x = (if x \<in> set (ps @ ss) then map_option (\<lambda>ob. ob\<lparr>cls := UNMARKED\<rparr>) (heap s x)
                       else heap s x)) \<and>
     (\<exists>r'. regions s' = (regions s)(this \<mapsto> r') \<and>
        current_memory_used r' =
          sum_list (map (\<lambda>x. the (obj_size x s)) ps) + sum_list (map (\<lambda>x. the (obj_size x s)) ss) +
          the (obj_size o' s) \<and>
        previous_memory_used r' = s2sc (current_memory_used r') \<and>
        next_not_root r' = next_not_root r \<and> last_not_root r' = last_not_root r \<and>
        ext_refs r' = ext_refs r) \<and>
     events s' = events s @ [SweepSet this marked]"
proof -
  from wf obtain m r0 where f: "heap s this = Some m" "regions s this = Some r0" "cls m = UNMARKED"
    "path (heap s) (next m) (ps @ [o']) this" "path (heap s) (next_not_root r0) ss this"
    "last_not_root r0 = last (this # ss)" "distinct (this # ps @ o' # ss)"
    "nullptr \<notin> set (this # ps @ o' # ss)" "get_class o' s = Some ISO"
    "list_all (\<lambda>a. get_class a s = Some UNMARKED \<or> get_class a s = Some MARKED) (ps @ ss)"
    by (rule wf_ringsD)
  have rr: "r0 = r" using f(2) r by simp
  have amP: "list_all (\<lambda>x. get_class x s = Some MARKED) ps"
    and amS: "list_all (\<lambda>x. get_class x s = Some MARKED) ss" using am by simp_all
  have kP: "filter (\<lambda>x. get_class x s = Some MARKED) ps = ps"
    and kS: "filter (\<lambda>x. get_class x s = Some MARKED) ss = ss"
    by (rule filter_all[OF amP], rule filter_all[OF amS])
  have uP: "filter (\<lambda>x. get_class x s = Some UNMARKED) ps = []"
    and uS: "filter (\<lambda>x. get_class x s = Some UNMARKED) ss = []"
    by (rule filter_none, use amP in \<open>simp add: list_all_iff\<close>,
        rule filter_none, use amS in \<open>simp add: list_all_iff\<close>)
  have ya: "No = Yes \<Longrightarrow> unmarked (ps @ ss) s" by simp
  have cn: "collected NonTrivialRing No o' ps ss s = []" by (simp add: collected_def uP uS)
  from sweep_total[OF wf rp ya fa, where collect=collect and marked=marked and ?s2sc.0=s2sc]
  obtain c' s' where res0: "sweep s2sc No this o' [] collect marked s = Some ([], c', s')"
    and sp: "sweep_post s2sc No this o' ps ss marked s s'"
    and cc: "collected NonTrivialRing No o' ps ss s = [] \<longrightarrow> c' = collect" by blast
  have res: "sweep s2sc No this o' [] collect marked s = Some ([], collect, s')"
    using res0 cc cn by simp
  note q = sweep_postD[OF sp, unfolded kP kS uP uS]
  from sweep_post_region[OF sp] obtain r00 r' where r': "regions s this = Some r00"
      "regions s' this = Some r'"
      "\<forall>x. x \<noteq> this \<longrightarrow> regions s' x = regions s x"
      "current_memory_used r' =
        sum_list (map (\<lambda>x. the (obj_size x s)) (filter (\<lambda>x. get_class x s = Some MARKED) ps)) +
        sum_list (map (\<lambda>x. the (obj_size x s)) (filter (\<lambda>x. get_class x s = Some MARKED) ss)) +
        (if No = No then the (obj_size o' s) else 0)"
      "previous_memory_used r' = s2sc (current_memory_used r')"
      "next_not_root r' = hd (filter (\<lambda>x. get_class x s = Some MARKED) ss @ [this])"
      "last_not_root r' = last (this # filter (\<lambda>x. get_class x s = Some MARKED) ss)"
      "ext_refs r' = ext_refs r00 -
         {x \<in> set (if is_trivial o' s = Some True
                   then filter (\<lambda>x. get_class x s = Some UNMARKED) ps @ (if No = Yes then [o'] else [])
                   else filter (\<lambda>x. get_class x s = Some UNMARKED) ss). has_ext_ref x s = Some True}"
      "hash_set r' = (\<lambda>a. if hash_set r00 a = Some True then Some False else None)" .
  have r00: "r00 = r" using r'(1) r by simp
  have hdP: "hd (ps @ [o']) = next m" using path_hd[OF f(4)] by simp
  have hdS: "hd (ss @ [this]) = next_not_root r"
  proof (cases ss)
    case Nil then show ?thesis using f(5) rr by simp
  next
    case Cons then show ?thesis using path_hd[OF f(5)] rr by simp
  qed
  from path_last_next[OF f(4)] have pP: "path (heap s) (next m) ps o'" by blast
  have hp: "heap s' x = (if x \<in> set (ps @ ss) then map_option (\<lambda>ob. ob\<lparr>cls := UNMARKED\<rparr>) (heap s x)
                       else heap s x)" for x
  proof (cases "x \<in> set (ps @ ss)")
    case True
    with q(6) obtain ob n where ob: "heap s x = Some ob" "heap s' x = Some (ob\<lparr>next := n, cls := UNMARKED\<rparr>)"
      unfolding list_all_iff by blast
    have "map_option next (heap s' x) = map_option next (heap s x)"
    proof (cases "x \<in> set ps")
      case True
      from path_next_eq[OF q(4)[unfolded hdP] pP True] show ?thesis .
    next
      case False
      then have "x \<in> set ss" using True by simp
      from path_next_eq[OF q(5)[unfolded hdS] f(5)[unfolded rr] this] show ?thesis .
    qed
    then have "n = next ob" using ob by simp
    then show ?thesis using True ob by simp
  next
    case False
    show ?thesis
    proof (cases "x = this")
      case True
      then show ?thesis using False q(3) f(1) hdP by simp
    next
      case nt: False
      show ?thesis
      proof (cases "x = o'")
        case True then show ?thesis using False q(2) by simp
      next
        case no: False
        then show ?thesis using False nt q(1) by simp
      qed
    qed
  qed
  have rg: "regions s' = (regions s)(this \<mapsto> r')" using r'(2,3) by (auto simp: fun_eq_iff)
  have cm: "current_memory_used r' =
          sum_list (map (\<lambda>x. the (obj_size x s)) ps) + sum_list (map (\<lambda>x. the (obj_size x s)) ss) +
          the (obj_size o' s)" using r'(4) by (simp add: kP kS)
  have nn: "next_not_root r' = next_not_root r" using r'(6) hdS by (simp add: kS)
  have ln: "last_not_root r' = last_not_root r" using r'(7) f(6) rr by (simp add: kS)
  have er: "ext_refs r' = ext_refs r" using r'(8) r00 by (simp add: uP uS)
  have ev: "events s' = events s @ [SweepSet this marked]"
    using q(8) by (simp add: ring_events_def)
  from res hp rg cm r'(5) nn ln er ev show ?thesis by blast
qed


lemma reach_pred:
  assumes "reach s o' p" "p \<noteq> o'"
  shows "\<exists>p0 ob0. reach s o' p0 \<and> heap s p0 = Some ob0 \<and> (p0 = o' \<or> cls ob0 = UNMARKED) \<and>
     p \<in> set (flds ob0) \<and> (get_class p s = Some UNMARKED \<or> get_class p s = Some ISO)"
  using assms by (cases rule: reach.cases) auto

lemma reach_transfer:
  assumes um: "unmarked xs s" and cl: "region_closed o' xs s"
    and A: "\<And>x. x = o' \<or> (x \<in> set xs \<and> reach s o' x) \<Longrightarrow>
        heap s x \<noteq> None \<and> map_option flds (heap s1 x) = map_option flds (heap s x) \<and>
        get_class x s1 = get_class x s"
    and B: "\<And>x ob q. x = o' \<or> (x \<in> set xs \<and> reach s o' x) \<Longrightarrow> heap s x = Some ob \<Longrightarrow>
        q \<in> set (flds ob) \<Longrightarrow>
        get_class q s1 = get_class q s \<or> (q \<in> set xs \<and> \<not> reach s o' q \<and> heap s1 q = None)"
  shows "reach s1 o' p \<longleftrightarrow> reach s o' p"
proof
  assume "reach s o' p"
  then show "reach s1 o' p"
  proof (induction rule: reach.induct)
    case reach_iso show ?case by (rule reach.reach_iso)
  next
    case (reach_field p ob q)
    have T: "p = o' \<or> (p \<in> set xs \<and> reach s o' p)"
    proof (cases "p = o'")
      case False
      then have "get_class p s = Some UNMARKED"
        using reach_field.hyps(2,3) by (simp add: get_class_def)
      with cl reach_field.hyps(1) show ?thesis unfolding region_closed_def by blast
    qed simp
    from A[OF T] reach_field.hyps(2) obtain ob1 where ob1: "heap s1 p = Some ob1"
      "flds ob1 = flds ob" "cls ob1 = cls ob" by (auto simp: get_class_def)
    have rq: "reach s o' q"
      by (rule reach.reach_field[OF reach_field.hyps(1,2,3,4,5)])
    from B[OF T reach_field.hyps(2,4)] rq have "get_class q s1 = get_class q s" by blast
    with reach_field.hyps(5) have c: "get_class q s1 = Some UNMARKED \<or> get_class q s1 = Some ISO"
      by simp
    show ?case
      by (rule reach.reach_field[OF reach_field.IH ob1(1) _ _ c])
         (use reach_field.hyps(3,4) ob1 in auto)
  qed
next
  assume "reach s1 o' p"
  then show "reach s o' p"
  proof (induction rule: reach.induct)
    case reach_iso show ?case by (rule reach.reach_iso)
  next
    case (reach_field p ob1 q)
    have T: "p = o' \<or> (p \<in> set xs \<and> reach s o' p)"
    proof (cases "p = o'")
      case False
      from reach_pred[OF reach_field.IH False] obtain p0 ob0 where p0: "reach s o' p0"
        "heap s p0 = Some ob0" "p0 = o' \<or> cls ob0 = UNMARKED" "p \<in> set (flds ob0)" by blast
      have T0: "p0 = o' \<or> (p0 \<in> set xs \<and> reach s o' p0)"
      proof (cases "p0 = o'")
        case False
        then have "get_class p0 s = Some UNMARKED" using p0(2,3) by (simp add: get_class_def)
        with cl p0(1) show ?thesis unfolding region_closed_def by blast
      qed simp
      from B[OF T0 p0(2,4)] reach_field.IH have "get_class p s1 = get_class p s" by blast
      moreover have "get_class p s1 = Some UNMARKED"
        using reach_field.hyps(2,3) False by (simp add: get_class_def)
      ultimately have "get_class p s = Some UNMARKED" by simp
      with cl reach_field.IH show ?thesis unfolding region_closed_def by blast
    qed simp
    from A[OF T] reach_field.hyps(2) obtain ob where ob: "heap s p = Some ob"
      "flds ob = flds ob1" "cls ob = cls ob1" by (auto simp: get_class_def)
    have q: "q \<in> set (flds ob)" using reach_field.hyps(4) ob(2) by simp
    have nn: "heap s1 q \<noteq> None" using reach_field.hyps(5) by (auto simp: get_class_def)
    from B[OF T ob(1) q] nn have "get_class q s1 = get_class q s" by blast
    with reach_field.hyps(5) have c: "get_class q s = Some UNMARKED \<or> get_class q s = Some ISO"
      by simp
    show ?case
      by (rule reach.reach_field[OF reach_field.IH ob(1) _ q c])
         (use reach_field.hyps(3) ob(3) in auto)
  qed
qed

lemma mark_exact:
  assumes inv: "mark_inv this o' s [] sm" and io: "get_class o' s = Some ISO"
    and um: "unmarked xs s" and cl: "region_closed o' xs s"
  shows "heap sm x = (if x \<in> set xs \<and> reach s o' x
                      then map_option (\<lambda>ob. ob\<lparr>cls := MARKED\<rparr>) (heap s x) else heap s x)"
proof (cases "x \<in> set xs \<and> reach s o' x")
  case True
  then have u: "get_class x s = Some UNMARKED" using um unfolding unmarked_def list_all_iff by blast
  from mark_inv_reached[OF inv io] True
  have "get_class x sm = Some MARKED \<or> get_class x sm = Some ISO" by blast
  with mark_invD(1)[OF inv, of x] u have "\<exists>ob. heap s x = Some ob \<and> heap sm x = Some (ob\<lparr>cls := MARKED\<rparr>)"
    by (auto simp: get_class_def)
  then show ?thesis using True by auto
next
  case False
  have "heap sm x = heap s x"
  proof (rule ccontr)
    assume "heap sm x \<noteq> heap s x"
    with mark_invD(1)[OF inv, of x] obtain ob where "heap s x = Some ob" "cls ob = UNMARKED"
      "reach s o' x" by blast
    then have "x \<in> set xs" using cl unfolding region_closed_def by (simp add: get_class_def)
    with \<open>reach s o' x\<close> False show False by simp
  qed
  then show ?thesis by (simp only: False if_False)
qed

lemma wf_rings_tags:
  assumes wf: "wf_rings this o' ps ss s"
    and h: "\<And>x. x \<in> set (ps @ ss) \<Longrightarrow> \<exists>ob c. heap s x = Some ob \<and> heap s' x = Some (ob\<lparr>cls := c\<rparr>) \<and>
        (c = UNMARKED \<or> c = MARKED)"
    and ht: "heap s' this = heap s this" and ho: "heap s' o' = heap s o'"
    and rg: "\<And>r. regions s this = Some r \<Longrightarrow> \<exists>r'. regions s' this = Some r' \<and>
        next_not_root r' = next_not_root r \<and> last_not_root r' = last_not_root r"
  shows "wf_rings this o' ps ss s'"
proof -
  from wf obtain m r where f: "heap s this = Some m" "regions s this = Some r" "cls m = UNMARKED"
    "path (heap s) (next m) (ps @ [o']) this" "path (heap s) (next_not_root r) ss this"
    "last_not_root r = last (this # ss)" "distinct (this # ps @ o' # ss)"
    "nullptr \<notin> set (this # ps @ o' # ss)" "get_class o' s = Some ISO"
    "list_all (\<lambda>a. get_class a s = Some UNMARKED \<or> get_class a s = Some MARKED) (ps @ ss)"
    by (rule wf_ringsD)
  from rg[OF f(2)] obtain r' where r': "regions s' this = Some r'"
    "next_not_root r' = next_not_root r" "last_not_root r' = last_not_root r" by blast
  have nx: "map_option next (heap s' x) = map_option next (heap s x)" if "x \<in> set (ps @ o' # ss)" for x
  proof (cases "x = o'")
    case True then show ?thesis using ho by simp
  next
    case False
    then have "x \<in> set (ps @ ss)" using that by auto
    from h[OF this] show ?thesis by auto
  qed
  have p1: "path (heap s') (next m) (ps @ [o']) this"
    using f(4) by (subst path_cong[of _ _ "heap s"]) (auto intro: nx)
  have p2: "path (heap s') (next_not_root r') ss this"
    unfolding r'(2) using f(5) by (subst path_cong[of _ _ "heap s"]) (auto intro: nx)
  have ci: "get_class o' s' = Some ISO" using f(9) ho by (simp add: get_class_def)
  have kc: "list_all (\<lambda>a. get_class a s' = Some UNMARKED \<or> get_class a s' = Some MARKED) (ps @ ss)"
    unfolding list_all_iff
  proof
    fix x assume "x \<in> set (ps @ ss)"
    from h[OF this] show "get_class x s' = Some UNMARKED \<or> get_class x s' = Some MARKED"
      by (auto simp: get_class_def)
  qed
  have m': "heap s' this = Some m" using ht f(1) by simp
  have l': "last_not_root r' = last (this # ss)" using r'(3) f(6) by simp
  show ?thesis
    unfolding wf_rings_def m' r'(1) prod.case option.case
    apply (intro conjI)
           apply (rule f(3))
          apply (rule p1)
         apply (rule p2)
        apply (rule l')
       apply (rule f(7))
      apply (rule f(8))
     apply (rule ci)
    apply (rule kc)
    done
qed

lemma refs_alloc_closed:
  assumes cl: "region_closed o' (ps @ ss) s" and fa: "fields_alloc (ps @ o' # ss) s"
  shows "refs_alloc s o'"
  unfolding refs_alloc_def
proof (intro allI impI ballI)
  fix p ob q assume a: "reach s o' p" "heap s p = Some ob" "p = o' \<or> cls ob = UNMARKED"
    "q \<in> set (flds ob)"
  have "p \<in> set (ps @ o' # ss)"
  proof (cases "p = o'")
    case False
    then have "get_class p s = Some UNMARKED" using a(2,3) by (simp add: get_class_def)
    with cl a(1) show ?thesis unfolding region_closed_def by auto
  qed simp
  from fields_allocD[OF fa this a(2,4)] show "heap s q \<noteq> None" .
qed

lemma obj_retag: "cls ob = c \<Longrightarrow> ob\<lparr>cls := c', cls := c\<rparr> = (ob :: Object)"
  by (cases ob) simp

lemma gc_quiescent:
  assumes fin: "finite (dom (heap s))"
    and wf: "wf_rings this o' ps ss s" and rp: "ring_partition o' ps ss s"
    and um: "unmarked (ps @ ss) s" and cl: "region_closed o' (ps @ ss) s"
    and ar: "\<forall>x\<in>set (ps @ ss). reach s o' x"
    and fa: "fields_alloc (ps @ o' # ss) s"
    and r: "regions s this = Some r"
  shows "\<exists>s' r' m'. gc s2sc iar ari o' s = Some s' \<and> heap s' = heap s \<and>
     regions s' = (regions s)(this \<mapsto> r') \<and>
     current_memory_used r' =
       sum_list (map (\<lambda>x. the (obj_size x s)) ps) + sum_list (map (\<lambda>x. the (obj_size x s)) ss) +
       the (obj_size o' s) \<and>
     previous_memory_used r' = s2sc (current_memory_used r') \<and>
     next_not_root r' = next_not_root r \<and> last_not_root r' = last_not_root r \<and>
     ext_refs r' = ext_refs r \<and>
     events s' = events s @ [SweepSet this m']"
proof -
  from wf obtain m r0 where f: "heap s this = Some m" "regions s this = Some r0" "cls m = UNMARKED"
    "path (heap s) (next m) (ps @ [o']) this" "path (heap s) (next_not_root r0) ss this"
    "last_not_root r0 = last (this # ss)" "distinct (this # ps @ o' # ss)"
    "nullptr \<notin> set (this # ps @ o' # ss)" "get_class o' s = Some ISO"
    "list_all (\<lambda>a. get_class a s = Some UNMARKED \<or> get_class a s = Some MARKED) (ps @ ss)"
    by (rule wf_ringsD)
  from f(9) obtain iob where io: "heap s o' = Some iob" by (auto simp: get_class_def)
  note ra = refs_alloc_closed[OF cl fa]
  from mark_total[OF fin ra io r, of 0] obtain m2 sm where
    mk: "mark this o' [] 0 s = Some (m2, sm)" and inv: "mark_inv this o' s [] sm" by blast
  note ex = mark_exact[OF inv f(9) um cl]
  have hm: "heap sm x = map_option (\<lambda>ob. ob\<lparr>cls := MARKED\<rparr>) (heap s x)" if "x \<in> set (ps @ ss)" for x
    using ex[of x] that ar by simp
  have hn: "heap sm x = heap s x" if "x \<notin> set (ps @ ss)" for x
    using ex[of x] that by simp
  have mu: "\<exists>ob. heap s x = Some ob \<and> cls ob = UNMARKED" if "x \<in> set (ps @ ss)" for x
    using um that unfolding unmarked_def list_all_iff by (auto simp: get_class_def)
  from mark_invD(6)[OF inv] r obtain rm where rm: "regions sm this = Some rm"
    "rm = r\<lparr>hash_set := hash_set rm\<rparr>" by auto
  have rmf: "next_not_root rm = next_not_root r" "last_not_root rm = last_not_root r"
    "ext_refs rm = ext_refs r"
    by (subst rm(2), simp)+
  have tn: "this \<notin> set (ps @ ss)" "o' \<notin> set (ps @ ss)" using f(7) by auto
  have wfm: "wf_rings this o' ps ss sm"
  proof (rule wf_rings_tags[OF wf])
    fix x assume x: "x \<in> set (ps @ ss)"
    from mu[OF x] hm[OF x] show "\<exists>ob c. heap s x = Some ob \<and> heap sm x = Some (ob\<lparr>cls := c\<rparr>) \<and>
        (c = UNMARKED \<or> c = MARKED)" by auto
  next
    show "heap sm this = heap s this" by (rule hn[OF tn(1)])
    show "heap sm o' = heap s o'" by (rule hn[OF tn(2)])
  next
    fix r1 assume "regions s this = Some r1"
    then have "r1 = r" using r by simp
    then show "\<exists>r'. regions sm this = Some r' \<and> next_not_root r' = next_not_root r1 \<and>
        last_not_root r' = last_not_root r1" using rm(1) rmf by simp
  qed
  have ob_eq: "obj_size x sm = obj_size x s \<and> is_trivial x sm = is_trivial x s \<and>
      map_option flds (heap sm x) = map_option flds (heap s x)" for x
  proof (cases "x \<in> set (ps @ ss)")
    case True
    from mu[OF True] hm[OF True] show ?thesis by (auto simp: obj_size_def is_trivial_def)
  next
    case False
    from hn[OF False] show ?thesis by (simp add: obj_size_def is_trivial_def)
  qed
  have rpm: "ring_partition o' ps ss sm"
    by (subst ring_partition_cong[of ps o' ss sm s]) (use ob_eq rp in auto)
  have dm: "heap sm x \<noteq> None" if "heap s x \<noteq> None" for x
    using that hm[of x] hn[of x] by (cases "x \<in> set (ps @ ss)") auto
  have fam: "fields_alloc (ps @ o' # ss) sm"
    unfolding fields_alloc_def list_all_iff
  proof
    fix x assume x: "x \<in> set (ps @ o' # ss)"
    show "case heap sm x of None \<Rightarrow> True | Some ob \<Rightarrow> Ball (set (flds ob)) (\<lambda>q. heap sm q \<noteq> None)"
    proof (cases "heap sm x")
      case (Some obm)
      from ob_eq[of x] have "map_option flds (heap s x) = Some (flds obm)" using Some by simp
      then obtain ob where ob: "heap s x = Some ob" "flds ob = flds obm" by (cases "heap s x") auto
      have "\<forall>q\<in>set (flds obm). heap sm q \<noteq> None"
      proof
        fix q assume "q \<in> set (flds obm)"
        then have "q \<in> set (flds ob)" using ob(2) by simp
        from dm[OF fields_allocD[OF fa x ob(1) this]] show "heap sm q \<noteq> None" .
      qed
      then show ?thesis using Some by simp
    qed simp
  qed
  have am: "list_all (\<lambda>x. get_class x sm = Some MARKED) (ps @ ss)"
    unfolding list_all_iff
  proof
    fix x assume x: "x \<in> set (ps @ ss)"
    from mu[OF x] hm[OF x] show "get_class x sm = Some MARKED" by (auto simp: get_class_def)
  qed
  from sweep_all_marked[OF wfm rpm am fam rm(1), of s2sc "[]" m2] obtain s' r' where
    sw: "sweep s2sc No this o' [] [] m2 sm = Some ([], [], s')"
    and hs: "\<forall>x. heap s' x = (if x \<in> set (ps @ ss) then map_option (\<lambda>ob. ob\<lparr>cls := UNMARKED\<rparr>) (heap sm x)
                       else heap sm x)"
    and rs: "regions s' = (regions sm)(this \<mapsto> r')"
      "current_memory_used r' =
          sum_list (map (\<lambda>x. the (obj_size x sm)) ps) + sum_list (map (\<lambda>x. the (obj_size x sm)) ss) +
          the (obj_size o' sm)"
      "previous_memory_used r' = s2sc (current_memory_used r')"
      "next_not_root r' = next_not_root rm" "last_not_root r' = last_not_root rm"
      "ext_refs r' = ext_refs rm"
    and ev: "events s' = events sm @ [SweepSet this m2]" by blast
  have heq: "heap s' = heap s"
  proof
    fix x show "heap s' x = heap s x"
    proof (cases "x \<in> set (ps @ ss)")
      case True
      from mu[OF True] obtain ob where ob: "heap s x = Some ob" "cls ob = UNMARKED" by blast
      then show ?thesis using hs True hm[OF True] by (simp add: obj_retag)
    next
      case False then show ?thesis using hs hn[OF False] by simp
    qed
  qed
  have req: "regions s' = (regions s)(this \<mapsto> r')"
    unfolding rs(1) using mark_invD(5)[OF inv] by (auto simp: fun_eq_iff)
  have cm: "current_memory_used r' =
       sum_list (map (\<lambda>x. the (obj_size x s)) ps) + sum_list (map (\<lambda>x. the (obj_size x s)) ss) +
       the (obj_size o' s)" unfolding rs(2) by (simp add: ob_eq)
  have ev': "events s' = events s @ [SweepSet this m2]" using ev mark_invD(4)[OF inv] by simp
  have gr: "get_region o' s = Some this" by (rule wf_rings_iso(2)[OF wf])
  have gcr: "gc s2sc iar ari o' s = Some s'"
    unfolding gc_def get_def
    by (simp add: f(9) gr assert_def is_trace_region_def r mk sw)
       (subst gc_loop.simps, simp)
  from gcr heq req cm rs(3) rs(4)[unfolded rmf] rs(5)[unfolded rmf] rs(6)[unfolded rmf] ev'
  show ?thesis by blast
qed

lemma mark_region:
  assumes fin: "finite (dom (heap s))"
    and wf: "wf_rings this o' ps ss s" and rp: "ring_partition o' ps ss s"
    and um: "unmarked (ps @ ss) s" and cl: "region_closed o' (ps @ ss) s"
    and fa: "fields_alloc (ps @ o' # ss) s"
    and mk: "mark this o' [] m0 s = Some (m, sm)"
  shows "mark_inv this o' s [] sm"
    and "\<And>x. heap sm x = (if x \<in> set (ps @ ss) \<and> reach s o' x
                      then map_option (\<lambda>ob. ob\<lparr>cls := MARKED\<rparr>) (heap s x) else heap s x)"
    and "wf_rings this o' ps ss sm" and "ring_partition o' ps ss sm"
    and "fields_alloc (ps @ o' # ss) sm"
    and "\<And>x. x \<in> set (ps @ ss) \<Longrightarrow>
           get_class x sm = Some (if reach s o' x then MARKED else UNMARKED)"
proof -
  from wf obtain mt r where f: "heap s this = Some mt" "regions s this = Some r" "cls mt = UNMARKED"
    "path (heap s) (next mt) (ps @ [o']) this" "path (heap s) (next_not_root r) ss this"
    "last_not_root r = last (this # ss)" "distinct (this # ps @ o' # ss)"
    "nullptr \<notin> set (this # ps @ o' # ss)" "get_class o' s = Some ISO"
    "list_all (\<lambda>a. get_class a s = Some UNMARKED \<or> get_class a s = Some MARKED) (ps @ ss)"
    by (rule wf_ringsD)
  from f(9) obtain iob where io: "heap s o' = Some iob" by (auto simp: get_class_def)
  note ra = refs_alloc_closed[OF cl fa]
  from mark_total[OF fin ra io f(2), of m0] mk show inv: "mark_inv this o' s [] sm" by auto
  note ex = mark_exact[OF inv f(9) um cl]
  show "\<And>x. heap sm x = (if x \<in> set (ps @ ss) \<and> reach s o' x
                      then map_option (\<lambda>ob. ob\<lparr>cls := MARKED\<rparr>) (heap s x) else heap s x)"
    by (rule ex)
  have mu: "\<exists>ob. heap s x = Some ob \<and> cls ob = UNMARKED" if "x \<in> set (ps @ ss)" for x
    using um that unfolding unmarked_def list_all_iff by (auto simp: get_class_def)
  from mark_invD(6)[OF inv] f(2) obtain rm where rm: "regions sm this = Some rm"
    "rm = r\<lparr>hash_set := hash_set rm\<rparr>" by auto
  have rmf: "next_not_root rm = next_not_root r" "last_not_root rm = last_not_root r"
    by (subst rm(2), simp)+
  have tn: "this \<notin> set (ps @ ss)" "o' \<notin> set (ps @ ss)" using f(7) by auto
  show wfm: "wf_rings this o' ps ss sm"
  proof (rule wf_rings_tags[OF wf])
    fix x assume x: "x \<in> set (ps @ ss)"
    from mu[OF x] obtain ob where ob: "heap s x = Some ob" "cls ob = UNMARKED" by blast
    show "\<exists>ob c. heap s x = Some ob \<and> heap sm x = Some (ob\<lparr>cls := c\<rparr>) \<and>
        (c = UNMARKED \<or> c = MARKED)"
    proof (cases "reach s o' x")
      case True
      then have "heap sm x = Some (ob\<lparr>cls := MARKED\<rparr>)" using ex[of x] x ob by simp
      then show ?thesis using ob(1) by blast
    next
      case False
      have "ob\<lparr>cls := UNMARKED\<rparr> = ob" using ob(2) by (cases ob) simp
      then have "heap sm x = Some (ob\<lparr>cls := UNMARKED\<rparr>)" using ex[of x] ob False by simp
      then show ?thesis using ob(1) by blast
    qed
  next
    show "heap sm this = heap s this" using ex[of this] tn by simp
    show "heap sm o' = heap s o'" using ex[of o'] tn by simp
  next
    fix r1 assume "regions s this = Some r1"
    then have "r1 = r" using f(2) by simp
    then show "\<exists>r'. regions sm this = Some r' \<and> next_not_root r' = next_not_root r1 \<and>
        last_not_root r' = last_not_root r1" using rm(1) rmf by simp
  qed
  have ob_eq: "is_trivial x sm = is_trivial x s \<and>
      map_option flds (heap sm x) = map_option flds (heap s x)" for x
    using ex[of x] by (cases "heap s x") (auto simp: is_trivial_def)
  show "ring_partition o' ps ss sm"
    by (subst ring_partition_cong[of ps o' ss sm s]) (use ob_eq rp in auto)
  have dm: "heap sm x \<noteq> None" if "heap s x \<noteq> None" for x
    using that ex[of x] by auto
  show "fields_alloc (ps @ o' # ss) sm"
    unfolding fields_alloc_def list_all_iff
  proof
    fix x assume x: "x \<in> set (ps @ o' # ss)"
    show "case heap sm x of None \<Rightarrow> True | Some ob \<Rightarrow> Ball (set (flds ob)) (\<lambda>q. heap sm q \<noteq> None)"
    proof (cases "heap sm x")
      case (Some obm)
      from ob_eq[of x] have "map_option flds (heap s x) = Some (flds obm)" using Some by simp
      then obtain ob where ob: "heap s x = Some ob" "flds ob = flds obm" by (cases "heap s x") auto
      have "\<forall>q\<in>set (flds obm). heap sm q \<noteq> None"
      proof
        fix q assume "q \<in> set (flds obm)"
        then have "q \<in> set (flds ob)" using ob(2) by simp
        from dm[OF fields_allocD[OF fa x ob(1) this]] show "heap sm q \<noteq> None" .
      qed
      then show ?thesis using Some by simp
    qed simp
  qed
  show "\<And>x. x \<in> set (ps @ ss) \<Longrightarrow>
           get_class x sm = Some (if reach s o' x then MARKED else UNMARKED)"
  proof -
    fix x assume x: "x \<in> set (ps @ ss)"
    from mu[OF x] obtain ob where ob: "heap s x = Some ob" "cls ob = UNMARKED" by blast
    show "get_class x sm = Some (if reach s o' x then MARKED else UNMARKED)"
      using ex[of x] x ob by (simp add: get_class_def)
  qed
qed

lemma release_frameD:
  assumes "release_frame this o' xs s2 s1"
  shows "regions s1 this = regions s2 this"
    and "\<And>p ob. p \<in> set (this # o' # xs) \<Longrightarrow> heap s2 p = Some ob \<Longrightarrow> heap s1 p = Some ob"
    and "\<And>p ob q. p \<in> set (o' # xs) \<Longrightarrow> p \<noteq> this \<Longrightarrow> heap s2 p = Some ob \<Longrightarrow>
           q \<in> set (flds ob) \<Longrightarrow> heap s1 q = heap s2 q"
  using assms unfolding release_frame_def by auto

lemma first_gc_view:
  assumes fin: "finite (dom (heap s))"
    and wf: "wf_rings this o' ps ss s" and rp: "ring_partition o' ps ss s"
    and um: "unmarked (ps @ ss) s" and cl: "region_closed o' (ps @ ss) s"
    and fa: "fields_alloc (ps @ o' # ss) s"
    and mk: "mark this o' [] m0 s = Some (m, sm)"
    and sw: "sweep s2sc No this o' [] [] m sm = Some (f, c, s2)"
    and fr: "release_frame this o' (ps @ ss) s2 s1"
  shows "wf_rings this o' (filter (reach s o') ps) (filter (reach s o') ss) s1"
    and "ring_partition o' (filter (reach s o') ps) (filter (reach s o') ss) s1"
    and "unmarked (filter (reach s o') ps @ filter (reach s o') ss) s1"
    and "\<And>x. x = o' \<or> (x \<in> set (ps @ ss) \<and> reach s o' x) \<Longrightarrow>
        heap s x \<noteq> None \<and> map_option flds (heap s1 x) = map_option flds (heap s x) \<and>
        get_class x s1 = get_class x s"
    and "\<And>x ob q. x = o' \<or> (x \<in> set (ps @ ss) \<and> reach s o' x) \<Longrightarrow> heap s x = Some ob \<Longrightarrow>
        q \<in> set (flds ob) \<Longrightarrow>
        get_class q s1 = get_class q s \<or> (q \<in> set (ps @ ss) \<and> \<not> reach s o' q \<and> heap s1 q = None)"
    and "\<exists>r1. regions s1 this = Some r1 \<and>
        current_memory_used r1 =
          sum_list (map (\<lambda>x. the (obj_size x s1)) (filter (reach s o') ps)) +
          sum_list (map (\<lambda>x. the (obj_size x s1)) (filter (reach s o') ss)) +
          the (obj_size o' s1) \<and>
        previous_memory_used r1 = s2sc (current_memory_used r1)"
proof -
  let ?kP = "filter (reach s o') ps" and ?kS = "filter (reach s o') ss"
  from wf obtain mt r where f: "heap s this = Some mt" "regions s this = Some r" "cls mt = UNMARKED"
    "path (heap s) (next mt) (ps @ [o']) this" "path (heap s) (next_not_root r) ss this"
    "last_not_root r = last (this # ss)" "distinct (this # ps @ o' # ss)"
    "nullptr \<notin> set (this # ps @ o' # ss)" "get_class o' s = Some ISO"
    "list_all (\<lambda>a. get_class a s = Some UNMARKED \<or> get_class a s = Some MARKED) (ps @ ss)"
    by (rule wf_ringsD)
  note M = mark_region[OF fin wf rp um cl fa mk]
  have mu: "\<exists>ob. heap s x = Some ob \<and> cls ob = UNMARKED" if "x \<in> set (ps @ ss)" for x
    using um that unfolding unmarked_def list_all_iff by (auto simp: get_class_def)
  have fP: "filter (\<lambda>x. get_class x sm = Some MARKED) ps = ?kP"
    and fS: "filter (\<lambda>x. get_class x sm = Some MARKED) ss = ?kS"
    by (rule filter_cong[OF refl], simp add: M(6))+
  have uP: "filter (\<lambda>x. get_class x sm = Some UNMARKED) ps = filter (\<lambda>x. \<not> reach s o' x) ps"
    and uS: "filter (\<lambda>x. get_class x sm = Some UNMARKED) ss = filter (\<lambda>x. \<not> reach s o' x) ss"
    by (rule filter_cong[OF refl], simp add: M(6))+
  have ya: "No = Yes \<Longrightarrow> unmarked (ps @ ss) sm" by simp
  from sweep_total[where sa=No and collect="[]" and marked=m and ?s2sc.0=s2sc, OF M(3) M(4) _ M(5)] sw
  have sp: "sweep_post s2sc No this o' ps ss m sm s2" by auto
  note W = sweep_post_wf[OF M(3) sp, unfolded fP fS]
  note q = sweep_postD[OF sp, unfolded fP fS uP uS]
  note F = release_frameD[OF fr]
  have sub: "set (this # ?kP @ o' # ?kS) \<subseteq> set (this # o' # ps @ ss)" by auto
  have heq: "heap s1 x = heap s2 x" if "x \<in> set (this # ?kP @ o' # ?kS)" for x
  proof -
    from wf_rings_heap[OF W(1) that] obtain ob where ob: "heap s2 x = Some ob" by blast
    from F(2)[OF _ ob] sub that show ?thesis using ob by auto
  qed
  show w1: "wf_rings this o' ?kP ?kS s1"
    by (subst wf_rings_cong[of this ?kP o' ?kS s1 s2]) (use heq F(1) W(1) in auto)
  have hm0: "heap sm x = heap s x" if "x \<notin> set (ps @ ss)" for x
    using M(2)[of x] that by simp
  have tn: "this \<notin> set (ps @ ss)" "o' \<notin> set (ps @ ss)" "o' \<noteq> this" using f(7) by auto
  have ho: "heap s1 o' = heap s o'"
    using heq[of o'] q(2) hm0[OF tn(2)] by simp
  have surv: "\<exists>ob n. heap s x = Some ob \<and> cls ob = UNMARKED \<and>
      heap s1 x = Some (ob\<lparr>cls := MARKED, next := n, cls := UNMARKED\<rparr>)"
    if x: "x \<in> set (ps @ ss)" "reach s o' x" for x
  proof -
    from mu[OF x(1)] obtain ob where ob: "heap s x = Some ob" "cls ob = UNMARKED" by blast
    have k: "x \<in> set (?kP @ ?kS)" using x by auto
    have "heap sm x = Some (ob\<lparr>cls := MARKED\<rparr>)" using M(2)[of x] x ob by simp
    moreover from q(6) k obtain obm n where "heap sm x = Some obm"
      "heap s2 x = Some (obm\<lparr>next := n, cls := UNMARKED\<rparr>)" unfolding list_all_iff by blast
    ultimately have "heap s2 x = Some (ob\<lparr>cls := MARKED, next := n, cls := UNMARKED\<rparr>)" by simp
    moreover have "heap s1 x = heap s2 x" using heq[of x] k by auto
    ultimately show ?thesis using ob by auto
  qed
  show A: "\<And>x. x = o' \<or> (x \<in> set (ps @ ss) \<and> reach s o' x) \<Longrightarrow>
        heap s x \<noteq> None \<and> map_option flds (heap s1 x) = map_option flds (heap s x) \<and>
        get_class x s1 = get_class x s"
  proof -
    fix x assume "x = o' \<or> (x \<in> set (ps @ ss) \<and> reach s o' x)"
    then show "heap s x \<noteq> None \<and> map_option flds (heap s1 x) = map_option flds (heap s x) \<and>
        get_class x s1 = get_class x s"
    proof
      assume "x = o'"
      then show ?thesis using ho f(9) by (auto simp: get_class_def)
    next
      assume "x \<in> set (ps @ ss) \<and> reach s o' x"
      then have "x \<in> set (ps @ ss)" "reach s o' x" by simp_all
      from surv[OF this] show ?thesis by (auto simp: get_class_def)
    qed
  qed
  have dead: "heap s2 x = None" if "x \<in> set (ps @ ss)" "\<not> reach s o' x" for x
    using q(7) that unfolding list_all_iff by auto
  show B: "\<And>x ob q. x = o' \<or> (x \<in> set (ps @ ss) \<and> reach s o' x) \<Longrightarrow> heap s x = Some ob \<Longrightarrow>
        q \<in> set (flds ob) \<Longrightarrow>
        get_class q s1 = get_class q s \<or> (q \<in> set (ps @ ss) \<and> \<not> reach s o' q \<and> heap s1 q = None)"
  proof -
    fix x ob q assume T: "x = o' \<or> (x \<in> set (ps @ ss) \<and> reach s o' x)"
      and ob: "heap s x = Some ob" and qf: "q \<in> set (flds ob)"
    have xi: "x \<in> set (o' # ps @ ss)" "x \<noteq> this" "x \<in> set (this # ?kP @ o' # ?kS)"
      using T tn f(7) by auto
    from A[OF T] ob obtain ob1 where ob1: "heap s1 x = Some ob1" "flds ob1 = flds ob"
      by (cases "heap s1 x") auto
    have "heap s2 x = Some ob1" using heq[OF xi(3)] ob1(1) by simp
    from F(3)[OF xi(1,2) this] qf ob1(2) have hq: "heap s1 q = heap s2 q" by simp
    show "get_class q s1 = get_class q s \<or> (q \<in> set (ps @ ss) \<and> \<not> reach s o' q \<and> heap s1 q = None)"
    proof (cases "q \<in> set (ps @ ss)")
      case True
      show ?thesis
      proof (cases "reach s o' q")
        case True
        from A[of q] True \<open>q \<in> set (ps @ ss)\<close> show ?thesis by simp
      next
        case False
        then show ?thesis using dead[OF True False] hq True by simp
      qed
    next
      case False
      show ?thesis
      proof (cases "q = o'")
        case True then show ?thesis using A[of o'] by simp
      next
        case no: False
        show ?thesis
        proof (cases "q = this")
          case True
          have "get_class this s2 = get_class this s"
            using q(3) hm0[OF tn(1)] f(1) by (simp add: get_class_def)
          then show ?thesis using hq True by (simp add: get_class_def)
        next
          case nt: False
          then have "heap s2 q = heap sm q" using q(1) False no by simp
          then show ?thesis using hq hm0[OF False] by (simp add: get_class_def)
        qed
      qed
    qed
  qed
  have tr: "is_trivial x s1 = is_trivial x s" if "x \<in> set (o' # ?kP @ ?kS)" for x
  proof -
    have "heap s1 x = heap s2 x" using heq[of x] that by auto
    then have "is_trivial x s1 = is_trivial x s2" by (simp add: is_trivial_def)
    also have "\<dots> = is_trivial x sm" using bspec[OF W(3) that] by blast
    also have "\<dots> = is_trivial x s" using M(2)[of x] by (cases "heap s x") (auto simp: is_trivial_def)
    finally show ?thesis .
  qed
  show "ring_partition o' ?kP ?kS s1"
    using rp unfolding ring_partition_def list_all_iff by (auto simp: tr)
  show "unmarked (?kP @ ?kS) s1"
    unfolding unmarked_def list_all_iff
  proof
    fix x assume x: "x \<in> set (?kP @ ?kS)"
    then have "heap s1 x = heap s2 x" using heq[of x] by auto
    then have "get_class x s1 = get_class x s2" by (simp add: get_class_def)
    with W(2) x show "get_class x s1 = Some UNMARKED" unfolding unmarked_def list_all_iff by simp
  qed
  from sweep_post_region[OF sp] obtain r0 r2 where r2: "regions sm this = Some r0"
      "regions s2 this = Some r2"
      "\<forall>x. x \<noteq> this \<longrightarrow> regions s2 x = regions sm x"
      "current_memory_used r2 =
        sum_list (map (\<lambda>x. the (obj_size x sm)) (filter (\<lambda>x. get_class x sm = Some MARKED) ps)) +
        sum_list (map (\<lambda>x. the (obj_size x sm)) (filter (\<lambda>x. get_class x sm = Some MARKED) ss)) +
        (if No = No then the (obj_size o' sm) else 0)"
      "previous_memory_used r2 = s2sc (current_memory_used r2)"
      "next_not_root r2 = hd (filter (\<lambda>x. get_class x sm = Some MARKED) ss @ [this])"
      "last_not_root r2 = last (this # filter (\<lambda>x. get_class x sm = Some MARKED) ss)"
      "ext_refs r2 = ext_refs r0 -
         {x \<in> set (if is_trivial o' sm = Some True
                   then filter (\<lambda>x. get_class x sm = Some UNMARKED) ps @ (if No = Yes then [o'] else [])
                   else filter (\<lambda>x. get_class x sm = Some UNMARKED) ss). has_ext_ref x sm = Some True}"
      "hash_set r2 = (\<lambda>a. if hash_set r0 a = Some True then Some False else None)" .
  have sz: "obj_size x s1 = obj_size x sm" if "x \<in> set (o' # ?kP @ ?kS)" for x
  proof -
    have "heap s1 x = heap s2 x" using heq[of x] that by auto
    then have "obj_size x s1 = obj_size x s2" by (simp add: obj_size_def)
    then show ?thesis using bspec[OF W(3) that] by simp
  qed
  have szP: "map (\<lambda>x. the (obj_size x s1)) ?kP = map (\<lambda>x. the (obj_size x sm)) ?kP"
    and szS: "map (\<lambda>x. the (obj_size x s1)) ?kS = map (\<lambda>x. the (obj_size x sm)) ?kS"
    by (rule map_cong[OF refl], simp add: sz)+
  have "regions s1 this = Some r2" using F(1) r2(2) by simp
  moreover have "current_memory_used r2 =
          sum_list (map (\<lambda>x. the (obj_size x s1)) ?kP) + sum_list (map (\<lambda>x. the (obj_size x s1)) ?kS) +
          the (obj_size o' s1)"
    unfolding szP szS sz[of o', simplified] r2(4) fP fS by simp
  ultimately show "\<exists>r1. regions s1 this = Some r1 \<and>
        current_memory_used r1 =
          sum_list (map (\<lambda>x. the (obj_size x s1)) ?kP) + sum_list (map (\<lambda>x. the (obj_size x s1)) ?kS) +
          the (obj_size o' s1) \<and>
        previous_memory_used r1 = s2sc (current_memory_used r1)"
    using r2(5) by blast
qed

lemma release_frame_refl: "release_frame this o' xs s s"
  by (simp add: release_frame_def)

lemma sweep_post_dom:
  assumes wf: "wf_rings this o' ps ss s" and sp: "sweep_post s2sc sa this o' ps ss marked s s'"
  shows "dom (heap s') \<subseteq> dom (heap s)"
proof
  fix x assume x: "x \<in> dom (heap s')"
  show "x \<in> dom (heap s)"
  proof (cases "x \<in> set (this # ps @ o' # ss)")
    case True
    from wf_rings_heap[OF wf True] show ?thesis by auto
  next
    case False
    with sweep_postD(1)[OF sp] have "heap s' x = heap s x" by blast
    with x show ?thesis by (auto simp: dom_def)
  qed
qed

text \<open>
  The second collection, given the outcome of the first. Let the first \<open>gc\<close> run:
  \<open>mark\<close> gives \<open>sm\<close>, \<open>sweep\<close> gives \<open>s2\<close> and the stack \<open>c\<close> of unreachable
  subregions, and their release gives \<open>s1\<close>, leaving alone the region and what its
  survivors refer to. Then \<open>gc\<close> on \<open>s1\<close> changes neither the heap nor, up to the
  marks of the remembered set, the metadata, and logs \<open>sweep_set\<close> only.
\<close>

lemma gc_twice_framed:
  assumes fin: "finite (dom (heap s))" and fin1: "finite (dom (heap s1))"
    and wf: "wf_rings this o' ps ss s" and rp: "ring_partition o' ps ss s"
    and um: "unmarked (ps @ ss) s" and cl: "region_closed o' (ps @ ss) s"
    and fa: "fields_alloc (ps @ o' # ss) s"
    and mk: "mark this o' [] 0 s = Some (m, sm)"
    and sw: "sweep s2sc No this o' [] [] m sm = Some (f, c, s2)"
    and gl: "gc_loop s2sc iar ari this f c s2 = Some s1"
    and fr: "release_frame this o' (ps @ ss) s2 s1"
  shows "gc s2sc iar ari o' s = Some s1 \<and>
     (\<exists>s' r1 h' m'. gc s2sc iar ari o' s1 = Some s' \<and> heap s' = heap s1 \<and>
        regions s1 this = Some r1 \<and> regions s' = (regions s1)(this \<mapsto> r1\<lparr>hash_set := h'\<rparr>) \<and>
        events s' = events s1 @ [SweepSet this m'])"
proof -
  let ?kP = "filter (reach s o') ps" and ?kS = "filter (reach s o') ss"
  from wf obtain mt r where f: "heap s this = Some mt" "regions s this = Some r" "cls mt = UNMARKED"
    "path (heap s) (next mt) (ps @ [o']) this" "path (heap s) (next_not_root r) ss this"
    "last_not_root r = last (this # ss)" "distinct (this # ps @ o' # ss)"
    "nullptr \<notin> set (this # ps @ o' # ss)" "get_class o' s = Some ISO"
    "list_all (\<lambda>a. get_class a s = Some UNMARKED \<or> get_class a s = Some MARKED) (ps @ ss)"
    by (rule wf_ringsD)
  have gr: "get_region o' s = Some this" by (rule wf_rings_iso(2)[OF wf])
  have g1: "gc s2sc iar ari o' s = Some s1"
    unfolding gc_def get_def
    by (simp add: f(9) gr assert_def is_trace_region_def f(2) mk sw gl)
  note V = first_gc_view[OF fin wf rp um cl fa mk sw fr]
  note rt = reach_transfer[OF um cl V(4) V(5)]
  have mu: "get_class x s = Some UNMARKED" if "x \<in> set (ps @ ss)" for x
    using um that unfolding unmarked_def list_all_iff by blast
  have T: "p = o' \<or> (p \<in> set (ps @ ss) \<and> reach s o' p)"
    if "reach s o' p" "p = o' \<or> get_class p s = Some UNMARKED" for p
    using that cl unfolding region_closed_def by blast
  have cl1: "region_closed o' (?kP @ ?kS) s1"
    unfolding region_closed_def
  proof (intro allI impI)
    fix p assume p: "reach s1 o' p" "get_class p s1 = Some UNMARKED"
    then have rp': "reach s o' p" using rt by simp
    have "p \<noteq> o'" using V(4)[of o'] f(9) p(2) by auto
    from reach_pred[OF rp' this] obtain p0 ob0 where p0: "reach s o' p0" "heap s p0 = Some ob0"
      "p0 = o' \<or> cls ob0 = UNMARKED" "p \<in> set (flds ob0)" by blast
    have "p0 = o' \<or> get_class p0 s = Some UNMARKED" using p0(2,3) by (auto simp: get_class_def)
    from V(5)[OF T[OF p0(1) this] p0(2,4)] rp' have "get_class p s1 = get_class p s" by blast
    then have "get_class p s = Some UNMARKED" using p(2) by simp
    from T[OF rp' disjI2[OF this]] \<open>p \<noteq> o'\<close> show "p \<in> set (?kP @ ?kS)" by auto
  qed
  have ar1: "\<forall>x\<in>set (?kP @ ?kS). reach s1 o' x" using rt by auto
  have fa1: "fields_alloc (?kP @ o' # ?kS) s1"
    unfolding fields_alloc_def list_all_iff
  proof
    fix x assume x: "x \<in> set (?kP @ o' # ?kS)"
    then have Tx: "x = o' \<or> (x \<in> set (ps @ ss) \<and> reach s o' x)" by auto
    then have rx: "reach s o' x" using reach_iso by auto
    show "case heap s1 x of None \<Rightarrow> True | Some ob \<Rightarrow> Ball (set (flds ob)) (\<lambda>q. heap s1 q \<noteq> None)"
    proof (cases "heap s1 x")
      case (Some ob1)
      from V(4)[OF Tx] Some obtain ob where ob: "heap s x = Some ob" "flds ob = flds ob1"
        by (cases "heap s x") auto
      have tv: "x = o' \<or> cls ob = UNMARKED" using Tx mu[of x] ob(1) by (auto simp: get_class_def)
      have xin: "x \<in> set (ps @ o' # ss)" using Tx by auto
      have "\<forall>q\<in>set (flds ob1). heap s1 q \<noteq> None"
      proof
        fix q assume "q \<in> set (flds ob1)"
        then have qf: "q \<in> set (flds ob)" using ob(2) by simp
        from fields_allocD[OF fa xin ob(1) qf] have al: "heap s q \<noteq> None" .
        from V(5)[OF Tx ob(1) qf] show "heap s1 q \<noteq> None"
        proof
          assume "get_class q s1 = get_class q s"
          then show ?thesis using al by (auto simp: get_class_def)
        next
          assume d: "q \<in> set (ps @ ss) \<and> \<not> reach s o' q \<and> heap s1 q = None"
          then have "get_class q s = Some UNMARKED" using mu by blast
          from reach_field[OF rx ob(1) tv qf disjI1[OF this]] d show ?thesis by simp
        qed
      qed
      then show ?thesis using Some by simp
    qed simp
  qed
  from V(6) obtain r1 where r1: "regions s1 this = Some r1"
    "current_memory_used r1 =
          sum_list (map (\<lambda>x. the (obj_size x s1)) ?kP) + sum_list (map (\<lambda>x. the (obj_size x s1)) ?kS) +
          the (obj_size o' s1)"
    "previous_memory_used r1 = s2sc (current_memory_used r1)" by blast
  from gc_quiescent[OF fin1 V(1) V(2) V(3) cl1 ar1 fa1 r1(1), of s2sc iar ari]
  obtain s' r' m' where g2: "gc s2sc iar ari o' s1 = Some s'" and hh: "heap s' = heap s1"
    and rg: "regions s' = (regions s1)(this \<mapsto> r')"
    and rf: "current_memory_used r' =
       sum_list (map (\<lambda>x. the (obj_size x s1)) ?kP) + sum_list (map (\<lambda>x. the (obj_size x s1)) ?kS) +
       the (obj_size o' s1)"
      "previous_memory_used r' = s2sc (current_memory_used r')"
      "next_not_root r' = next_not_root r1" "last_not_root r' = last_not_root r1"
      "ext_refs r' = ext_refs r1"
    and ev: "events s' = events s1 @ [SweepSet this m']" by blast
  have "r' = r1\<lparr>hash_set := hash_set r'\<rparr>"
    by (intro RegionTrace.equality) (simp_all add: rf r1(2,3))
  then have rg': "regions s' = (regions s1)(this \<mapsto> r1\<lparr>hash_set := hash_set r'\<rparr>)"
    using rg by simp
  from g1 g2 hh r1(1) rg' ev show ?thesis by blast
qed

lemma release_internal_effect:
  assumes wf: "wf_rings this o' ps ss s" and rp: "ring_partition o' ps ss s"
    and um: "unmarked (ps @ ss) s"
    and fa: "fields_alloc (ps @ o' # ss) s"
  shows "\<exists>s'. release_internal s2sc this o' [] collect s =
        Some ([], pushed_isos Yes o' ps ss s @ collect, s') \<and>
     heap s' = heap s |` (- set (this # ps @ o' # ss)) \<and>
     regions s' = (regions s)(this := None) \<and>
     (\<exists>es. events s' = events s @ es)"
proof -
  from wf obtain m r where f: "heap s this = Some m" "regions s this = Some r" "cls m = UNMARKED"
    "path (heap s) (next m) (ps @ [o']) this" "path (heap s) (next_not_root r) ss this"
    "last_not_root r = last (this # ss)" "distinct (this # ps @ o' # ss)"
    "nullptr \<notin> set (this # ps @ o' # ss)" "get_class o' s = Some ISO"
    "list_all (\<lambda>a. get_class a s = Some UNMARKED \<or> get_class a s = Some MARKED) (ps @ ss)"
    by (rule wf_ringsD)
  from sweep_total[OF wf rp um fa, where collect=collect and marked=0 and ?s2sc.0=s2sc and sa=Yes]
  obtain c' s1 where res: "sweep s2sc Yes this o' [] collect 0 s = Some ([], c', s1)"
    and sp: "sweep_post s2sc Yes this o' ps ss 0 s s1"
    and cx: "c' = pushed_isos Yes o' ps ss s @ collect" by blast
  have umP: "list_all (\<lambda>x. get_class x s = Some UNMARKED) ps"
    and umS: "list_all (\<lambda>x. get_class x s = Some UNMARKED) ss"
    using um unfolding unmarked_def by simp_all
  have uP: "filter (\<lambda>x. get_class x s = Some UNMARKED) ps = ps"
    and uS: "filter (\<lambda>x. get_class x s = Some UNMARKED) ss = ss"
    by (rule filter_all[OF umP], rule filter_all[OF umS])
  note q = sweep_postD[OF sp, unfolded uP uS]
  from sweep_post_region[OF sp] obtain r0 r1 where r1: "regions s this = Some r0"
      "regions s1 this = Some r1"
      "\<forall>x. x \<noteq> this \<longrightarrow> regions s1 x = regions s x"
      "current_memory_used r1 =
        sum_list (map (\<lambda>x. the (obj_size x s)) (filter (\<lambda>x. get_class x s = Some MARKED) ps)) +
        sum_list (map (\<lambda>x. the (obj_size x s)) (filter (\<lambda>x. get_class x s = Some MARKED) ss)) +
        (if Yes = No then the (obj_size o' s) else 0)"
      "previous_memory_used r1 = s2sc (current_memory_used r1)"
      "next_not_root r1 = hd (filter (\<lambda>x. get_class x s = Some MARKED) ss @ [this])"
      "last_not_root r1 = last (this # filter (\<lambda>x. get_class x s = Some MARKED) ss)"
      "ext_refs r1 = ext_refs r0 -
         {x \<in> set (if is_trivial o' s = Some True
                   then filter (\<lambda>x. get_class x s = Some UNMARKED) ps @ (if Yes = Yes then [o'] else [])
                   else filter (\<lambda>x. get_class x s = Some UNMARKED) ss). has_ext_ref x s = Some True}"
      "hash_set r1 = (\<lambda>a. if hash_set r0 a = Some True then Some False else None)" .
  have m1: "\<exists>m1. heap s1 this = Some m1" using q(3) f(1) by simp
  define s' where "s' = s1\<lparr>heap := (heap s1)(this := None), regions := (regions s1)(this := None),
                  events := events s1 @ [Dealloc this]\<rparr>"
  have rd: "region_dealloc this s1 = Some s'"
    using m1 r1(2) by (auto simp: region_dealloc_def s'_def)
  have rel: "release_internal s2sc this o' [] collect s = Some ([], pushed_isos Yes o' ps ss s @ collect, s')"
    by (simp add: release_internal_def f(9) assert_def res rd cx[symmetric])
  have hp: "heap s' = heap s |` (- set (this # ps @ o' # ss))"
  proof
    fix x show "heap s' x = (heap s |` (- set (this # ps @ o' # ss))) x"
    proof (cases "x \<in> set (this # ps @ o' # ss)")
      case False
      then have "heap s1 x = heap s x" using q(1) by blast
      moreover from False have "x \<in> - set (this # ps @ o' # ss)" "x \<noteq> this" by auto
      ultimately show ?thesis by (simp add: s'_def restrict_in del: set_simps set_append)
    next
      case True
      have "heap s' x = None"
      proof (cases "x = this")
        case True then show ?thesis by (simp add: s'_def)
      next
        case nt: False
        then have "x \<in> set ((ps @ (if Yes = Yes then [o'] else [])) @ ss)" using True by auto
        with q(7) have "heap s1 x = None" unfolding list_all_iff by blast
        then show ?thesis using nt by (simp add: s'_def)
      qed
      moreover from True have "x \<notin> - set (this # ps @ o' # ss)" by blast
      then have "(heap s |` (- set (this # ps @ o' # ss))) x = None" by (rule restrict_out)
      ultimately show ?thesis by (rule trans[OF _ sym])
    qed
  qed
  have rg: "regions s' = (regions s)(this := None)"
    using r1(3) by (auto simp: s'_def fun_eq_iff)
  have ev: "\<exists>es. events s' = events s @ es" using q(8) by (simp add: s'_def)
  from rel hp rg ev show ?thesis by blast
qed

lemma fields_allocI:
  assumes "\<And>x ob q. x \<in> set xs \<Longrightarrow> heap s x = Some ob \<Longrightarrow> q \<in> set (flds ob) \<Longrightarrow> heap s q \<noteq> None"
  shows "fields_alloc xs s"
  unfolding fields_alloc_def list_all_iff
proof
  fix x assume x: "x \<in> set xs"
  show "case heap s x of None \<Rightarrow> True | Some ob \<Rightarrow> \<forall>q\<in>set (flds ob). heap s q \<noteq> None"
  proof (cases "heap s x")
    case (Some ob)
    then show ?thesis using assms[OF x Some] by simp
  qed simp
qed

lemma region_ok_cong:
  assumes ok: "region_ok s (this, o', ps, ss)"
    and h: "\<And>y. y \<in> set (this # ps @ o' # ss) \<Longrightarrow> heap s1 y = heap s y"
    and r: "regions s1 this = regions s this"
    and q: "\<And>x ob q. x \<in> set (ps @ o' # ss) \<Longrightarrow> heap s x = Some ob \<Longrightarrow> q \<in> set (flds ob) \<Longrightarrow>
        heap s1 q = heap s q"
  shows "region_ok s1 (this, o', ps, ss)"
    and "region_kids s1 (this, o', ps, ss) = region_kids s (this, o', ps, ss)"
proof -
  from ok have wf: "wf_rings this o' ps ss s" and rp: "ring_partition o' ps ss s"
    and um: "unmarked (ps @ ss) s" and fa: "fields_alloc (ps @ o' # ss) s"
    by (simp_all add: region_ok_def)
  have wf1: "wf_rings this o' ps ss s1"
    by (subst wf_rings_cong[of this ps o' ss s1 s]) (use h r wf in auto)
  have ob: "\<And>y. y \<in> set (this # ps @ o' # ss) \<Longrightarrow> get_class y s1 = get_class y s \<and>
      is_trivial y s1 = is_trivial y s"
    using h by (simp add: get_class_def is_trivial_def)
  have rp1: "ring_partition o' ps ss s1"
    by (subst ring_partition_cong[of ps o' ss s1 s]) (use ob rp in auto)
  have um1: "unmarked (ps @ ss) s1"
    using um ob unfolding unmarked_def list_all_iff by auto
  have fa1: "fields_alloc (ps @ o' # ss) s1"
  proof (rule fields_allocI)
    fix x ob q assume a: "x \<in> set (ps @ o' # ss)" "heap s1 x = Some ob" "q \<in> set (flds ob)"
    have hx: "heap s x = Some ob" using h[of x] a(1,2) by auto
    from fields_allocD[OF fa a(1) hx a(3)] q[OF a(1) hx a(3)] show "heap s1 q \<noteq> None" by simp
  qed
  show "region_ok s1 (this, o', ps, ss)"
    using wf1 rp1 um1 fa1 by (simp add: region_ok_def)
  have co: "collected NonTrivialRing Yes o' ps ss s1 = collected NonTrivialRing Yes o' ps ss s"
  proof -
    have "is_trivial o' s1 = is_trivial o' s" using ob[of o'] by simp
    moreover have "filter (\<lambda>x. get_class x s1 = Some UNMARKED) ps = filter (\<lambda>x. get_class x s = Some UNMARKED) ps"
      by (rule filter_cong[OF refl]) (use ob in simp)
    moreover have "filter (\<lambda>x. get_class x s1 = Some UNMARKED) ss = filter (\<lambda>x. get_class x s = Some UNMARKED) ss"
      by (rule filter_cong[OF refl]) (use ob in simp)
    ultimately show ?thesis by (simp add: collected_def)
  qed
  have sub: "set (collected NonTrivialRing Yes o' ps ss s) \<subseteq> set (ps @ o' # ss)"
    by (auto simp: collected_def)
  have ir: "iso_refs o' s1 d = iso_refs o' s d" if d: "d \<in> set (collected NonTrivialRing Yes o' ps ss s)" for d
  proof (cases "heap s d")
    case None
    then show ?thesis using h[of d] d sub by (auto simp: iso_refs_def)
  next
    case (Some ob)
    have dm: "d \<in> set (ps @ o' # ss)" using d sub by blast
    have h1: "heap s1 d = Some ob" using h[of d] dm Some by auto
    have "filter (\<lambda>q. get_class q s1 = Some ISO \<and> q \<noteq> o') (flds ob) =
        filter (\<lambda>q. get_class q s = Some ISO \<and> q \<noteq> o') (flds ob)"
      by (rule filter_cong[OF refl]) (use q[OF dm Some] in \<open>simp add: get_class_def\<close>)
    then show ?thesis by (simp add: iso_refs_def Some h1)
  qed
  show "region_kids s1 (this, o', ps, ss) = region_kids s (this, o', ps, ss)"
    unfolding region_kids_def prod.case pushed_isos_def co
    by (rule arg_cong[where f=concat], rule map_cong[OF refl]) (rule ir)
qed

lemma concat_remove1_set:
  assumes "X \<in> set T"
  shows "set (concat (map f T)) = set (f X) \<union> set (concat (map f (remove1 X T)))"
  using assms by (induction T) auto

lemma concat_remove1_distinct:
  assumes "X \<in> set T" and "distinct (concat (map f T))"
  shows "distinct (f X @ concat (map f (remove1 X T)))"
  using assms
proof (induction T)
  case Nil
  then show ?case by simp
next
  case (Cons a T)
  show ?case
  proof (cases "a = X")
    case True
    then show ?thesis using Cons.prems(2) by simp
  next
    case False
    then have X: "X \<in> set T" using Cons.prems(1) by simp
    from Cons.prems(2) have d: "distinct (f a)" "distinct (concat (map f T))"
      "set (f a) \<inter> set (concat (map f T)) = {}" by simp_all
    note s = concat_remove1_set[OF X, of f]
    from Cons.IH[OF X d(2)] d(1) d(3)[unfolded s] show ?thesis
      using False by auto
  qed
qed

lemma forestD:
  assumes "forest T c s"
  shows "\<And>Y. Y \<in> set T \<Longrightarrow> region_ok s Y"
    and "distinct T"
    and "\<And>Y Z. Y \<in> set T \<Longrightarrow> Z \<in> set T \<Longrightarrow> Y \<noteq> Z \<Longrightarrow> region_objs Y \<inter> region_objs Z = {}"
    and "distinct (c @ concat (map (region_kids s) T))"
    and "set (c @ concat (map (region_kids s) T)) \<subseteq> region_iso ` set T"
    and "\<And>Y Z x ob q. Y \<in> set T \<Longrightarrow> Z \<in> set T \<Longrightarrow> Y \<noteq> Z \<Longrightarrow> x \<in> set (region_members Y) \<Longrightarrow>
          heap s x = Some ob \<Longrightarrow> q \<in> set (flds ob) \<Longrightarrow> q \<in> region_objs Z \<Longrightarrow>
          q \<in> set (region_kids s Y)"
proof -
  from assms have a: "list_all (region_ok s) T" and b: "distinct T"
    and c: "\<forall>X\<in>set T. \<forall>Y\<in>set T. X \<noteq> Y \<longrightarrow> region_objs X \<inter> region_objs Y = {}"
    and d: "distinct (c @ concat (map (region_kids s) T))"
    and e: "set (c @ concat (map (region_kids s) T)) \<subseteq> region_iso ` set T"
    and f: "\<forall>X\<in>set T. \<forall>Y\<in>set T. X \<noteq> Y \<longrightarrow>
        (\<forall>x\<in>set (region_members X). \<forall>ob. heap s x = Some ob \<longrightarrow>
           (\<forall>q\<in>set (flds ob). q \<in> region_objs Y \<longrightarrow> q \<in> set (region_kids s X)))"
    unfolding forest_def by simp_all
  show "\<And>Y. Y \<in> set T \<Longrightarrow> region_ok s Y" using a unfolding list_all_iff by simp
  show "distinct T" by (rule b)
  show "\<And>Y Z. Y \<in> set T \<Longrightarrow> Z \<in> set T \<Longrightarrow> Y \<noteq> Z \<Longrightarrow> region_objs Y \<inter> region_objs Z = {}"
    using c by simp
  show "distinct (c @ concat (map (region_kids s) T))" by (rule d)
  show "set (c @ concat (map (region_kids s) T)) \<subseteq> region_iso ` set T" by (rule e)
  show "\<And>Y Z x ob q. Y \<in> set T \<Longrightarrow> Z \<in> set T \<Longrightarrow> Y \<noteq> Z \<Longrightarrow> x \<in> set (region_members Y) \<Longrightarrow>
          heap s x = Some ob \<Longrightarrow> q \<in> set (flds ob) \<Longrightarrow> q \<in> region_objs Z \<Longrightarrow>
          q \<in> set (region_kids s Y)"
  proof -
    fix Y Z x ob q
    assume h: "Y \<in> set T" "Z \<in> set T" "Y \<noteq> Z" "x \<in> set (region_members Y)"
      "heap s x = Some ob" "q \<in> set (flds ob)" "q \<in> region_objs Z"
    from bspec[OF bspec[OF f h(1)] h(2)] h(3)
    have "\<forall>x\<in>set (region_members Y). \<forall>ob. heap s x = Some ob \<longrightarrow>
           (\<forall>q\<in>set (flds ob). q \<in> region_objs Z \<longrightarrow> q \<in> set (region_kids s Y))" by simp
    from bspec[OF this h(4)] h(5) have "\<forall>q\<in>set (flds ob). q \<in> region_objs Z \<longrightarrow> q \<in> set (region_kids s Y)"
      by simp
    from bspec[OF this h(6)] h(7) show "q \<in> set (region_kids s Y)" by simp
  qed
qed

lemma region_iso_objs: "region_iso X \<in> region_objs X"
  by (cases X) (simp add: region_iso_def region_objs_def region_members_def)

lemma region_meta_objs: "region_meta X \<in> region_objs X"
  by (simp add: region_objs_def)

lemma region_members_objs: "x \<in> set (region_members X) \<Longrightarrow> x \<in> region_objs X"
  by (simp add: region_objs_def)

lemma region_objs_tuple: "region_objs (t, o1, ps, ss) = set (t # ps @ o1 # ss)"
  by (simp add: region_objs_def region_members_def region_meta_def)

lemma forest_step:
  assumes fo: "forest T (o1 # c) s" and X: "X \<in> set T" and io: "region_iso X = o1"
    and h1: "heap s1 = heap s |` (- region_objs X)"
    and r1: "regions s1 = (regions s)(region_meta X := None)"
  shows "forest (remove1 X T) (region_kids s X @ c) s1"
proof -
  note F = forestD[OF fo]
  have sT: "set (remove1 X T) = set T - {X}" by (rule set_remove1_eq[OF F(2)])
  let ?K = "concat (map (region_kids s) T)"
  let ?K' = "concat (map (region_kids s) (remove1 X T))"
  have o1K: "o1 \<notin> set c" "o1 \<notin> set ?K" and dc: "distinct c" and dK: "distinct ?K"
    and cK: "set c \<inter> set ?K = {}"
    using F(4) by auto
  have sK: "set ?K = set (region_kids s X) \<union> set ?K'" by (rule concat_remove1_set[OF X])
  have dK': "distinct (region_kids s X @ ?K')" by (rule concat_remove1_distinct[OF X dK])
  have kidsub: "set (region_kids s Y) \<subseteq> set ?K" if "Y \<in> set T" for Y using that by auto
  have isoT: "\<exists>Z\<in>set T. Z \<noteq> X \<and> region_iso Z = q" if "q \<in> set c \<union> set ?K" for q
  proof -
    from that F(5) have "q \<in> region_iso ` set T" by auto
    then obtain Z where Z: "Z \<in> set T" "region_iso Z = q" by auto
    have "q \<noteq> o1" using that o1K by auto
    then have "Z \<noteq> X" using Z(2) io by auto
    with Z show ?thesis by blast
  qed
  have kid_notX: "q \<notin> region_objs X" if "q \<in> set c \<union> set ?K" for q
  proof
    assume qx: "q \<in> region_objs X"
    from isoT[OF that] obtain Z where Z: "Z \<in> set T" "Z \<noteq> X" "region_iso Z = q" by blast
    have "q \<in> region_objs Z" using region_iso_objs[of Z] Z(3) by simp
    with qx F(3)[OF Z(1) X Z(2)] show False by auto
  qed
  have cong: "region_ok s1 Y \<and> region_kids s1 Y = region_kids s Y" if Y: "Y \<in> set T" "Y \<noteq> X" for Y
  proof -
    obtain t o2 ps ss where Yt: "Y = (t, o2, ps, ss)" by (cases Y) auto
    note dj = F(3)[OF Y(1) X Y(2)]
    have ok: "region_ok s (t, o2, ps, ss)" using F(1)[OF Y(1)] Yt by simp
    have h: "heap s1 y = heap s y" if "y \<in> set (t # ps @ o2 # ss)" for y
    proof -
      have "y \<in> region_objs Y" using that unfolding Yt region_objs_tuple .
      with dj have "y \<notin> region_objs X" by auto
      then show ?thesis by (simp add: h1)
    qed
    have r: "regions s1 t = regions s t"
    proof -
      have "t \<in> region_objs Y" unfolding Yt region_objs_tuple by simp
      with dj region_meta_objs[of X] have "t \<noteq> region_meta X" by auto
      then show ?thesis by (simp add: r1)
    qed
    have q: "heap s1 q = heap s q"
      if a: "x \<in> set (ps @ o2 # ss)" "heap s x = Some ob" "q \<in> set (flds ob)" for x ob q
    proof -
      have xm: "x \<in> set (region_members Y)" using a(1) by (simp add: Yt region_members_def)
      have "q \<notin> region_objs X"
      proof
        assume qx: "q \<in> region_objs X"
        from F(6)[OF Y(1) X Y(2) xm a(2) a(3) qx] have "q \<in> set (region_kids s Y)" .
        with kidsub[OF Y(1)] have "q \<in> set c \<union> set ?K" by auto
        from kid_notX[OF this] qx show False by simp
      qed
      then show ?thesis by (simp add: h1)
    qed
    from region_ok_cong[OF ok h r q] show ?thesis unfolding Yt by simp
  qed
  have km: "map (region_kids s1) (remove1 X T) = map (region_kids s) (remove1 X T)"
    by (rule map_cong[OF refl]) (use cong sT in auto)
  have c1: "list_all (region_ok s1) (remove1 X T)"
    unfolding list_all_iff using cong sT by auto
  have c2: "distinct (remove1 X T)" using F(2) by simp
  have c3: "\<forall>Y\<in>set (remove1 X T). \<forall>Z\<in>set (remove1 X T). Y \<noteq> Z \<longrightarrow> region_objs Y \<inter> region_objs Z = {}"
    using F(3) sT by auto
  have c4: "distinct ((region_kids s X @ c) @ concat (map (region_kids s1) (remove1 X T)))"
    unfolding km using dK' dc cK[unfolded sK] by auto
  have c5: "set ((region_kids s X @ c) @ concat (map (region_kids s1) (remove1 X T))) \<subseteq>
      region_iso ` set (remove1 X T)"
  proof
    fix q assume "q \<in> set ((region_kids s X @ c) @ concat (map (region_kids s1) (remove1 X T)))"
    then have "q \<in> set c \<union> set ?K" unfolding km sK by auto
    from isoT[OF this] show "q \<in> region_iso ` set (remove1 X T)" unfolding sT by auto
  qed
  have c6: "\<forall>Y\<in>set (remove1 X T). \<forall>Z\<in>set (remove1 X T). Y \<noteq> Z \<longrightarrow>
        (\<forall>x\<in>set (region_members Y). \<forall>ob. heap s1 x = Some ob \<longrightarrow>
           (\<forall>q\<in>set (flds ob). q \<in> region_objs Z \<longrightarrow> q \<in> set (region_kids s1 Y)))"
  proof (intro ballI impI allI)
    fix Y Z x ob q
    assume a: "Y \<in> set (remove1 X T)" "Z \<in> set (remove1 X T)" "Y \<noteq> Z"
      "x \<in> set (region_members Y)" "heap s1 x = Some ob" "q \<in> set (flds ob)" "q \<in> region_objs Z"
    have Y: "Y \<in> set T" "Y \<noteq> X" and Z: "Z \<in> set T" using a(1,2) sT by auto
    have hx: "heap s x = Some ob" using a(5) unfolding h1 by (auto simp: restrict_map_def split: if_splits)
    from F(6)[OF Y(1) Z a(3) a(4) hx a(6) a(7)] cong[OF Y]
    show "q \<in> set (region_kids s1 Y)" by simp
  qed
  show ?thesis unfolding forest_def using c1 c2 c3 c4 c5 c6 by blast
qed

lemma gc_loop_forest:
  assumes "forest T c s" and "\<forall>X\<in>set T. region_meta X \<noteq> reg"
  shows "\<exists>s'. gc_loop s2sc iar ari reg [] c s = Some s' \<and>
     (\<forall>x. x \<notin> \<Union>(region_objs ` set T) \<longrightarrow> heap s' x = heap s x) \<and>
     (\<forall>x. x \<notin> region_meta ` set T \<longrightarrow> regions s' x = regions s x) \<and>
     dom (heap s') \<subseteq> dom (heap s) \<and> (\<forall>x\<in>set c. heap s' x = None)"
  using assms
proof (induct "length T" arbitrary: T c s rule: less_induct)
  case less
  note fo = less.prems(1) and ne = less.prems(2)
  show ?case
  proof (cases c)
    case Nil
    show ?thesis unfolding Nil by (subst gc_loop.simps) simp
  next
    case (Cons o1 c')
    note F = forestD[OF fo[unfolded Cons]]
    from F(5) have "o1 \<in> region_iso ` set T" by simp
    then obtain X where X: "X \<in> set T" "region_iso X = o1" by auto
    obtain t o2 ps ss where Xt0: "X = (t, o2, ps, ss)" by (cases X) auto
    with X(2) have Xt: "X = (t, o1, ps, ss)" by (simp add: region_iso_def)
    from F(1)[OF X(1)] have wf: "wf_rings t o1 ps ss s" and rp: "ring_partition o1 ps ss s"
      and um: "unmarked (ps @ ss) s" and fa: "fields_alloc (ps @ o1 # ss) s"
      unfolding Xt region_ok_def by simp_all
    from wf obtain m r where f: "heap s t = Some m" "regions s t = Some r" "cls m = UNMARKED"
      "path (heap s) (next m) (ps @ [o1]) t" "path (heap s) (next_not_root r) ss t"
      "last_not_root r = last (t # ss)" "distinct (t # ps @ o1 # ss)"
      "nullptr \<notin> set (t # ps @ o1 # ss)" "get_class o1 s = Some ISO"
      "list_all (\<lambda>a. get_class a s = Some UNMARKED \<or> get_class a s = Some MARKED) (ps @ ss)"
      by (rule wf_ringsD)
    have gr: "get_region o1 s = Some t" by (rule wf_rings_iso(2)[OF wf])
    have tr: "t \<noteq> reg" using ne X(1) by (auto simp: Xt region_meta_def)
    from release_internal_effect[OF wf rp um fa, of s2sc c']
    obtain s1 where ri: "release_internal s2sc t o1 [] c' s =
        Some ([], pushed_isos Yes o1 ps ss s @ c', s1)"
      and h1: "heap s1 = heap s |` (- set (t # ps @ o1 # ss))"
      and r1: "regions s1 = (regions s)(t := None)" by blast
    have kx: "region_kids s X = pushed_isos Yes o1 ps ss s" by (simp add: Xt region_kids_def)
    have h1': "heap s1 = heap s |` (- region_objs X)" unfolding Xt region_objs_tuple by (rule h1)
    have r1': "regions s1 = (regions s)(region_meta X := None)"
      unfolding Xt region_meta_def by (simp add: r1)
    note fo1 = forest_step[OF fo[unfolded Cons] X h1' r1', unfolded kx]
    have ln: "length (remove1 X T) < length T"
    proof -
      have "length T > 0" using X(1) by (cases T) auto
      then show ?thesis using X(1) by (simp add: length_remove1)
    qed
    have ne1: "\<forall>Y\<in>set (remove1 X T). region_meta Y \<noteq> reg"
      using ne notin_set_remove1 by fast
    from less.hyps[OF ln fo1 ne1] obtain s' where
      g: "gc_loop s2sc iar ari reg [] (pushed_isos Yes o1 ps ss s @ c') s1 = Some s'"
      and hh: "\<forall>x. x \<notin> \<Union>(region_objs ` set (remove1 X T)) \<longrightarrow> heap s' x = heap s1 x"
      and rr: "\<forall>x. x \<notin> region_meta ` set (remove1 X T) \<longrightarrow> regions s' x = regions s1 x"
      and dd: "dom (heap s') \<subseteq> dom (heap s1)"
      and nn: "\<forall>x\<in>set (pushed_isos Yes o1 ps ss s @ c'). heap s' x = None" by blast
    have sub: "set (remove1 X T) \<subseteq> set T" by (rule set_remove1_subset)
    have g0: "gc_loop s2sc iar ari reg [] c s = Some s'"
      unfolding Cons
      by (subst gc_loop.simps) (simp add: f(9) gr assert_def tr is_trace_region_def f(2) ri g)
    have a: "\<forall>x. x \<notin> \<Union>(region_objs ` set T) \<longrightarrow> heap s' x = heap s x"
    proof (intro allI impI)
      fix x assume x: "x \<notin> \<Union>(region_objs ` set T)"
      then have "x \<notin> \<Union>(region_objs ` set (remove1 X T))" using sub by auto
      with hh have "heap s' x = heap s1 x" by simp
      moreover have "x \<notin> region_objs X" using x X(1) by auto
      ultimately show "heap s' x = heap s x" by (simp add: h1')
    qed
    have b: "\<forall>x. x \<notin> region_meta ` set T \<longrightarrow> regions s' x = regions s x"
    proof (intro allI impI)
      fix x assume x: "x \<notin> region_meta ` set T"
      then have "x \<notin> region_meta ` set (remove1 X T)" using sub by auto
      with rr have "regions s' x = regions s1 x" by simp
      moreover have "x \<noteq> region_meta X" using x X(1) by auto
      ultimately show "regions s' x = regions s x" by (simp add: r1')
    qed
    have "dom (heap s1) \<subseteq> dom (heap s)" unfolding h1 by (auto simp: restrict_map_def split: if_splits)
    with dd have c: "dom (heap s') \<subseteq> dom (heap s)" by blast
    have "heap s1 o1 = None" unfolding h1 by simp
    then have "heap s' o1 = None" using dd by blast
    then have d: "\<forall>x\<in>set c. heap s' x = None" unfolding Cons using nn by simp
    from g0 a b c d show ?thesis by blast
  qed
qed

lemma forest_cong:
  assumes fo: "forest T c s"
    and h: "\<And>X y. X \<in> set T \<Longrightarrow> y \<in> region_objs X \<Longrightarrow> heap s1 y = heap s y"
    and r: "\<And>X. X \<in> set T \<Longrightarrow> regions s1 (region_meta X) = regions s (region_meta X)"
    and q: "\<And>X x ob q. X \<in> set T \<Longrightarrow> x \<in> set (region_members X) \<Longrightarrow> heap s x = Some ob \<Longrightarrow>
        q \<in> set (flds ob) \<Longrightarrow> heap s1 q = heap s q"
  shows "forest T c s1"
proof -
  note F = forestD[OF fo]
  have cong: "region_ok s1 Y \<and> region_kids s1 Y = region_kids s Y" if Y: "Y \<in> set T" for Y
  proof -
    obtain t o2 ps ss where Yt: "Y = (t, o2, ps, ss)" by (cases Y) auto
    have ok: "region_ok s (t, o2, ps, ss)" using F(1)[OF Y] Yt by simp
    have h': "heap s1 y = heap s y" if "y \<in> set (t # ps @ o2 # ss)" for y
      using h[OF Y, of y] that unfolding Yt region_objs_tuple .
    have r': "regions s1 t = regions s t" using r[OF Y] by (simp add: Yt region_meta_def)
    have q': "heap s1 q = heap s q"
      if a: "x \<in> set (ps @ o2 # ss)" "heap s x = Some ob" "q \<in> set (flds ob)" for x ob q
    proof -
      have xm: "x \<in> set (region_members Y)" using a(1) by (simp add: Yt region_members_def)
      from q[OF Y xm a(2) a(3)] show ?thesis .
    qed
    from region_ok_cong[OF ok h' r' q'] show ?thesis unfolding Yt by simp
  qed
  have km: "map (region_kids s1) T = map (region_kids s) T"
    by (rule map_cong[OF refl]) (use cong in auto)
  have c1: "list_all (region_ok s1) T"
    unfolding list_all_iff using cong by auto
  have c3: "\<forall>Y\<in>set T. \<forall>Z\<in>set T. Y \<noteq> Z \<longrightarrow> region_objs Y \<inter> region_objs Z = {}"
    using F(3) by auto
  have c4: "distinct (c @ concat (map (region_kids s1) T))"
    unfolding km by (rule F(4))
  have c5: "set (c @ concat (map (region_kids s1) T)) \<subseteq> region_iso ` set T"
    unfolding km by (rule F(5))
  have c6: "\<forall>Y\<in>set T. \<forall>Z\<in>set T. Y \<noteq> Z \<longrightarrow>
        (\<forall>x\<in>set (region_members Y). \<forall>ob. heap s1 x = Some ob \<longrightarrow>
           (\<forall>q\<in>set (flds ob). q \<in> region_objs Z \<longrightarrow> q \<in> set (region_kids s1 Y)))"
  proof (intro ballI impI allI)
    fix Y Z x ob q
    assume a: "Y \<in> set T" "Z \<in> set T" "Y \<noteq> Z"
      "x \<in> set (region_members Y)" "heap s1 x = Some ob" "q \<in> set (flds ob)" "q \<in> region_objs Z"
    have hx: "heap s x = Some ob" using a(5) h[OF a(1) region_members_objs[OF a(4)]] by simp
    from F(6)[OF a(1) a(2) a(3) a(4) hx a(6) a(7)] cong[OF a(1)]
    show "q \<in> set (region_kids s1 Y)" by simp
  qed
  show ?thesis unfolding forest_def using c1 F(2) c3 c4 c5 c6 by blast
qed

lemma subregionsD:
  assumes "subregions this o' ps ss T s"
  shows "forest T (gc_kids o' ps ss s) s"
    and "\<And>X y. X \<in> set T \<Longrightarrow> y \<in> region_objs X \<Longrightarrow> y \<notin> set (this # ps @ o' # ss)"
    and "\<And>X x ob q. X \<in> set T \<Longrightarrow> x \<in> set (region_members X) \<Longrightarrow> heap s x = Some ob \<Longrightarrow>
        q \<in> set (flds ob) \<Longrightarrow> q \<notin> set (this # ps @ o' # ss)"
    and "\<And>x ob q X. x \<in> set (o' # ps @ ss) \<Longrightarrow> reach s o' x \<Longrightarrow> heap s x = Some ob \<Longrightarrow>
        q \<in> set (flds ob) \<Longrightarrow> X \<in> set T \<Longrightarrow> q \<notin> region_objs X"
proof -
  from assms have a: "forest T (gc_kids o' ps ss s) s"
    and b: "\<forall>X\<in>set T. region_objs X \<inter> set (this # ps @ o' # ss) = {}"
    and c: "\<forall>X\<in>set T. \<forall>x\<in>set (region_members X). \<forall>ob. heap s x = Some ob \<longrightarrow>
        set (flds ob) \<inter> set (this # ps @ o' # ss) = {}"
    and d: "\<forall>x\<in>set (o' # ps @ ss). reach s o' x \<longrightarrow>
        (\<forall>ob. heap s x = Some ob \<longrightarrow> (\<forall>X\<in>set T. set (flds ob) \<inter> region_objs X = {}))"
    unfolding subregions_def by simp_all
  show "forest T (gc_kids o' ps ss s) s" by (rule a)
  show "\<And>X y. X \<in> set T \<Longrightarrow> y \<in> region_objs X \<Longrightarrow> y \<notin> set (this # ps @ o' # ss)"
  proof -
    fix X y assume h: "X \<in> set T" "y \<in> region_objs X"
    from bspec[OF b h(1)] h(2) show "y \<notin> set (this # ps @ o' # ss)" by blast
  qed
  show "\<And>X x ob q. X \<in> set T \<Longrightarrow> x \<in> set (region_members X) \<Longrightarrow> heap s x = Some ob \<Longrightarrow>
        q \<in> set (flds ob) \<Longrightarrow> q \<notin> set (this # ps @ o' # ss)"
  proof -
    fix X x ob q assume h: "X \<in> set T" "x \<in> set (region_members X)" "heap s x = Some ob"
      "q \<in> set (flds ob)"
    from bspec[OF bspec[OF c h(1)] h(2)] h(3)
    have "set (flds ob) \<inter> set (this # ps @ o' # ss) = {}" by simp
    with h(4) show "q \<notin> set (this # ps @ o' # ss)" by blast
  qed
  show "\<And>x ob q X. x \<in> set (o' # ps @ ss) \<Longrightarrow> reach s o' x \<Longrightarrow> heap s x = Some ob \<Longrightarrow>
        q \<in> set (flds ob) \<Longrightarrow> X \<in> set T \<Longrightarrow> q \<notin> region_objs X"
  proof -
    fix x ob q X assume h: "x \<in> set (o' # ps @ ss)" "reach s o' x" "heap s x = Some ob"
      "q \<in> set (flds ob)" "X \<in> set T"
    from bspec[OF d h(1)] h(2) h(3) have "\<forall>X\<in>set T. set (flds ob) \<inter> region_objs X = {}" by simp
    from bspec[OF this h(5)] h(4) show "q \<notin> region_objs X" by blast
  qed
qed

lemma gc_first_run:
  assumes fin: "finite (dom (heap s))"
    and wf: "wf_rings this o' ps ss s" and rp: "ring_partition o' ps ss s"
    and um: "unmarked (ps @ ss) s" and cl: "region_closed o' (ps @ ss) s"
    and fa: "fields_alloc (ps @ o' # ss) s"
    and sub: "subregions this o' ps ss T s"
  shows "\<exists>m sm c s2 s1. mark this o' [] 0 s = Some (m, sm) \<and>
     sweep s2sc No this o' [] [] m sm = Some ([], c, s2) \<and>
     c = gc_kids o' ps ss s \<and>
     gc_loop s2sc iar ari this [] c s2 = Some s1 \<and>
     release_frame this o' (ps @ ss) s2 s1 \<and> finite (dom (heap s1)) \<and>
     (\<forall>x\<in>set c. heap s1 x = None)"
proof -
  from wf obtain mt r where f: "heap s this = Some mt" "regions s this = Some r" "cls mt = UNMARKED"
    "path (heap s) (next mt) (ps @ [o']) this" "path (heap s) (next_not_root r) ss this"
    "last_not_root r = last (this # ss)" "distinct (this # ps @ o' # ss)"
    "nullptr \<notin> set (this # ps @ o' # ss)" "get_class o' s = Some ISO"
    "list_all (\<lambda>a. get_class a s = Some UNMARKED \<or> get_class a s = Some MARKED) (ps @ ss)"
    by (rule wf_ringsD)
  from f(9) obtain iob where io: "heap s o' = Some iob" by (auto simp: get_class_def)
  note ra = refs_alloc_closed[OF cl fa]
  note S = subregionsD[OF sub]
  from mark_total[OF fin ra io f(2), of 0] obtain m sm where
    mk: "mark this o' [] 0 s = Some (m, sm)" by blast
  note M = mark_region[OF fin wf rp um cl fa mk]
  have mu: "\<exists>ob. heap s x = Some ob \<and> cls ob = UNMARKED" if "x \<in> set (ps @ ss)" for x
    using um that unfolding unmarked_def list_all_iff by (auto simp: get_class_def)
  have fP: "filter (\<lambda>x. get_class x sm = Some MARKED) ps = filter (reach s o') ps"
    and fS: "filter (\<lambda>x. get_class x sm = Some MARKED) ss = filter (reach s o') ss"
    by (rule filter_cong[OF refl], simp add: M(6))+
  have uP: "filter (\<lambda>x. get_class x sm = Some UNMARKED) ps = filter (\<lambda>x. \<not> reach s o' x) ps"
    and uS: "filter (\<lambda>x. get_class x sm = Some UNMARKED) ss = filter (\<lambda>x. \<not> reach s o' x) ss"
    by (rule filter_cong[OF refl], simp add: M(6))+
  from sweep_total[where sa=No and collect="[]" and marked=m and ?s2sc.0=s2sc, OF M(3) M(4) _ M(5)]
  obtain c s2 where sw: "sweep s2sc No this o' [] [] m sm = Some ([], c, s2)"
    and sp: "sweep_post s2sc No this o' ps ss m sm s2"
    and cx: "c = pushed_isos No o' ps ss sm @ []" by auto
  note q = sweep_postD[OF sp, unfolded fP fS uP uS]
  have tn: "this \<notin> set (ps @ ss)" "o' \<notin> set (ps @ ss)" "o' \<noteq> this" using f(7) by auto
  have hm0: "heap sm x = heap s x" if "x \<notin> set (ps @ ss)" for x
    using M(2)[of x] that by simp
  have hm1: "heap sm x = heap s x" if "\<not> reach s o' x" for x
    using M(2)[of x] that by simp
  have iso_eq: "(get_class y sm = Some ISO) = (get_class y s = Some ISO)" for y
  proof (cases "y \<in> set (ps @ ss) \<and> reach s o' y")
    case True
    with mu[of y] obtain ob where "heap s y = Some ob" "cls ob = UNMARKED" by blast
    then show ?thesis using M(2)[of y] True by (simp add: get_class_def)
  next
    case False
    have "heap sm y = heap s y" by (simp only: M(2)[of y] False if_False)
    then show ?thesis by (simp add: get_class_def)
  qed
  have ir: "iso_refs o' sm d = iso_refs o' s d" if "\<not> reach s o' d" for d
    using hm1[OF that] by (simp add: iso_refs_def iso_eq split: option.splits)
  have it: "is_trivial o' sm = is_trivial o' s" using hm0[OF tn(2)] by (simp add: is_trivial_def)
  have ck: "c = gc_kids o' ps ss s"
  proof -
    have "collected NonTrivialRing No o' ps ss sm =
        filter (\<lambda>x. \<not> reach s o' x) (if is_trivial o' s = Some True then ss else ps)"
      by (simp add: collected_def it uP uS)
    then have "pushed_isos No o' ps ss sm =
        concat (map (iso_refs o' sm)
          (filter (\<lambda>x. \<not> reach s o' x) (if is_trivial o' s = Some True then ss else ps)))"
      by (simp only: pushed_isos_def)
    also have "\<dots> = gc_kids o' ps ss s"
      unfolding gc_kids_def
      by (rule arg_cong[where f=concat], rule map_cong[OF refl]) (simp add: ir)
    finally show ?thesis using cx by simp
  qed
  obtain r0 r2 where rg: "regions sm this = Some r0" "regions s2 this = Some r2"
    "\<forall>x. x \<noteq> this \<longrightarrow> regions s2 x = regions sm x"
    using sweep_post_region[OF sp] by metis
  have h2: "heap s2 y = heap s y" if "y \<notin> set (this # ps @ o' # ss)" for y
  proof -
    from q(1) that have "heap s2 y = heap sm y" by blast
    moreover have "heap sm y = heap s y" using hm0[of y] that by simp
    ultimately show ?thesis by simp
  qed
  have fo2: "forest T c s2"
    unfolding ck
  proof (rule forest_cong[OF S(1)])
    fix X y assume "X \<in> set T" "y \<in> region_objs X"
    from h2[OF S(2)[OF this]] show "heap s2 y = heap s y" .
  next
    fix X assume X: "X \<in> set T"
    from S(2)[OF X region_meta_objs] have ne: "region_meta X \<noteq> this" by auto
    with rg(3) have "regions s2 (region_meta X) = regions sm (region_meta X)" by blast
    also have "\<dots> = regions s (region_meta X)" by (rule mark_invD(5)[OF M(1) ne])
    finally show "regions s2 (region_meta X) = regions s (region_meta X)" .
  next
    fix X x ob q assume "X \<in> set T" "x \<in> set (region_members X)" "heap s x = Some ob"
      "q \<in> set (flds ob)"
    from h2[OF S(3)[OF this]] show "heap s2 q = heap s q" .
  qed
  have ne: "\<forall>X\<in>set T. region_meta X \<noteq> this"
  proof
    fix X assume X: "X \<in> set T"
    from S(2)[OF X region_meta_objs] show "region_meta X \<noteq> this" by auto
  qed
  from gc_loop_forest[OF fo2 ne, of s2sc iar ari] obtain s1 where
    gl: "gc_loop s2sc iar ari this [] c s2 = Some s1"
    and hh: "\<forall>x. x \<notin> \<Union>(region_objs ` set T) \<longrightarrow> heap s1 x = heap s2 x"
    and rr: "\<forall>x. x \<notin> region_meta ` set T \<longrightarrow> regions s1 x = regions s2 x"
    and dd: "dom (heap s1) \<subseteq> dom (heap s2)"
    and nn: "\<forall>x\<in>set c. heap s1 x = None" by blast
  have out: "x \<notin> \<Union>(region_objs ` set T)" if "x \<in> set (this # ps @ o' # ss)" for x
    using S(2) that by blast
  have dead: "heap s2 x = None" if "x \<in> set (ps @ ss)" "\<not> reach s o' x" for x
    using q(7) that unfolding list_all_iff by auto
  have flds2: "\<exists>ob0. heap s p = Some ob0 \<and> flds ob0 = flds ob \<and> reach s o' p"
    if p: "p \<in> set (o' # ps @ ss)" "heap s2 p = Some ob" for p ob
  proof (cases "p = o'")
    case True
    have "heap s2 o' = heap sm o'" using q(2) by simp
    then have "heap s2 o' = heap s o'" using hm0[OF tn(2)] by simp
    then show ?thesis using p(2) True reach_iso by auto
  next
    case False
    then have pm: "p \<in> set (ps @ ss)" using p(1) by auto
    have rc: "reach s o' p" using dead[OF pm] p(2) by auto
    from mu[OF pm] obtain ob0 where ob0: "heap s p = Some ob0" "cls ob0 = UNMARKED" by blast
    have hsm: "heap sm p = Some (ob0\<lparr>cls := MARKED\<rparr>)" using M(2)[of p] pm rc ob0 by simp
    have k: "p \<in> set (filter (reach s o') ps @ filter (reach s o') ss)" using pm rc by auto
    from q(6) k obtain obm n where "heap sm p = Some obm"
      "heap s2 p = Some (obm\<lparr>next := n, cls := UNMARKED\<rparr>)" unfolding list_all_iff by blast
    with hsm p(2) have "flds ob0 = flds ob" by auto
    with ob0 rc show ?thesis by blast
  qed
  have fr: "release_frame this o' (ps @ ss) s2 s1"
    unfolding release_frame_def
  proof (intro conjI ballI allI impI)
    have "this \<notin> region_meta ` set T" using ne by auto
    with rr show "regions s1 this = regions s2 this" by blast
  next
    fix p ob assume p: "p \<in> set (this # o' # ps @ ss)" "heap s2 p = Some ob"
    have "p \<in> set (this # ps @ o' # ss)" using p(1) by auto
    from out[OF this] hh p(2) show "heap s1 p = Some ob" by simp
  next
    fix p ob q' assume p: "p \<in> set (this # o' # ps @ ss)" "heap s2 p = Some ob" "p \<noteq> this"
      "q' \<in> set (flds ob)"
    have pm: "p \<in> set (o' # ps @ ss)" using p(1,3) by auto
    from flds2[OF pm p(2)] obtain ob0 where ob0: "heap s p = Some ob0" "flds ob0 = flds ob"
      "reach s o' p" by blast
    have qf: "q' \<in> set (flds ob0)" using p(4) ob0(2) by simp
    have "q' \<notin> \<Union>(region_objs ` set T)" using S(4)[OF pm ob0(3) ob0(1) qf] by blast
    with hh show "heap s1 q' = heap s2 q'" by blast
  qed
  have "dom (heap s2) \<subseteq> dom (heap sm)" by (rule sweep_post_dom[OF M(3) sp])
  with dd mark_inv_dom[OF M(1)] have "dom (heap s1) \<subseteq> dom (heap s)" by blast
  then have f1: "finite (dom (heap s1))" using fin by (rule finite_subset)
  from mk sw ck gl fr f1 nn show ?thesis by blast
qed

text \<open>
  C7 (a second collection changes nothing). Let \<open>s\<close> hold, on a finite heap, a
  well-formed, partitioned trace region \<open>(this, o', ps, ss)\<close> with all members
  UNMARKED, whose references stay inside the region and are not dangling, and let
  the subregions that its unreachable members own, at any depth, be the trace
  regions \<open>T\<close> (an arena subregion is released by code outside the source tree).
  Then \<open>gc\<close> returns, in a state \<open>s1\<close> where the subregions on its \<open>collect\<close> stack
  are gone, and \<open>gc\<close> on \<open>s1\<close> returns a state with the same heap (the same objects,
  with the same class tags and ring links) and the same region metadata up to the
  marks of the remembered set, and its only event is \<open>sweep_set\<close>: it finalises,
  destroys and deallocates nothing.
\<close>

theorem gc_idempotent:
  assumes fin: "finite (dom (heap s))"
    and wf: "wf_rings this o' ps ss s" and rp: "ring_partition o' ps ss s"
    and um: "unmarked (ps @ ss) s" and cl: "region_closed o' (ps @ ss) s"
    and fa: "fields_alloc (ps @ o' # ss) s"
    and sub: "subregions this o' ps ss T s"
  shows "\<exists>s1. gc s2sc iar ari o' s = Some s1 \<and>
     (\<forall>x\<in>set (gc_kids o' ps ss s). heap s1 x = None) \<and>
     (\<exists>s' r1 h' m'. gc s2sc iar ari o' s1 = Some s' \<and> heap s' = heap s1 \<and>
        regions s1 this = Some r1 \<and> regions s' = (regions s1)(this \<mapsto> r1\<lparr>hash_set := h'\<rparr>) \<and>
        events s' = events s1 @ [SweepSet this m'])"
proof -
  from gc_first_run[OF fin wf rp um cl fa sub, of s2sc iar ari]
  obtain m sm c s2 s1 where mk: "mark this o' [] 0 s = Some (m, sm)"
    and sw: "sweep s2sc No this o' [] [] m sm = Some ([], c, s2)"
    and ck: "c = gc_kids o' ps ss s"
    and gl: "gc_loop s2sc iar ari this [] c s2 = Some s1"
    and fr: "release_frame this o' (ps @ ss) s2 s1" and fin1: "finite (dom (heap s1))"
    and nn: "\<forall>x\<in>set c. heap s1 x = None" by blast
  from gc_twice_framed[OF fin fin1 wf rp um cl fa mk sw gl fr]
  have G: "gc s2sc iar ari o' s = Some s1 \<and>
     (\<exists>s' r1 h' m'. gc s2sc iar ari o' s1 = Some s' \<and> heap s' = heap s1 \<and>
        regions s1 this = Some r1 \<and> regions s' = (regions s1)(this \<mapsto> r1\<lparr>hash_set := h'\<rparr>) \<and>
        events s' = events s1 @ [SweepSet this m'])" .
  show ?thesis
    apply (rule exI[of _ s1])
    apply (intro conjI)
      apply (rule conjunct1[OF G])
     apply (rule nn[unfolded ck])
    apply (rule conjunct2[OF G])
    done
qed

section \<open>Instances\<close>

lemmas ex_defs = ex_state_def ex_heap_def ex_region_def D_t_def D_nt_def desc_def trivial_def
  nullptr_def empty_state_def

theorem create_sole_member_witness:
  "(1::nat) \<noteq> nullptr \<and> (2::nat) \<noteq> nullptr \<and> (1::nat) \<noteq> 2 \<and>
   heap empty_state 1 = None \<and> heap empty_state 2 = None \<and>
   (\<exists>s'. create 64 D_t 1 2 empty_state = Some (1, s') \<and>
     get_next_any_mark 1 s' = Some 2 \<and> get_next 2 s' = Some 1 \<and>
     get_class 1 s' = Some ISO \<and> get_region 1 s' = Some 2 \<and>
     map_option descriptor (heap s' 1) = Some D_t \<and>
     map_option next_not_root (regions s' 2) = Some 2 \<and>
     map_option last_not_root (regions s' 2) = Some 2 \<and>
     map_option current_memory_used (regions s' 2) = Some (size_d D_t))"
proof -
  have h: "(1::nat) \<noteq> nullptr" "(2::nat) \<noteq> nullptr" "(1::nat) \<noteq> 2"
    "heap empty_state 1 = None" "heap empty_state 2 = None"
    by (simp_all add: nullptr_def empty_state_def)
  from create_sole_member[OF h, of 64 D_t] h show ?thesis by blast
qed

theorem append_splices_witness:
  "append 10 15 15 (ex_state\<lparr>heap := ex_heap(15 \<mapsto> raw_object\<lparr>descriptor := D_t\<rparr>)\<rparr>) = Some
    (ex_state\<lparr>heap := ex_heap(15 \<mapsto> raw_object\<lparr>descriptor := D_t, next := 12, cls := UNMARKED\<rparr>),
       regions := [10 \<mapsto> ex_region\<lparr>next_not_root := 15\<rparr>]\<rparr>)"
proof -
  let ?s = "ex_state\<lparr>heap := ex_heap(15 \<mapsto> raw_object\<lparr>descriptor := D_t\<rparr>)\<rparr>"
  have h: "heap ?s 10 = Some \<lparr>descriptor = desc 64, next = 13, cls = UNMARKED, flds = [], ext_ref = False\<rparr>"
    "cls \<lparr>descriptor = desc 64, next = 13, cls = UNMARKED, flds = [], ext_ref = False\<rparr> \<noteq> ISO"
    "heap ?s 15 = Some (raw_object\<lparr>descriptor := D_t\<rparr>)"
    "heap ?s (next \<lparr>descriptor = desc 64, next = 13, cls = UNMARKED, flds = [], ext_ref = False\<rparr>)
       = Some \<lparr>descriptor = D_nt, next = 11, cls = UNMARKED, flds = [], ext_ref = False\<rparr>"
    "heap ?s 15 = Some (raw_object\<lparr>descriptor := D_t\<rparr>)"
    "regions ?s 10 = Some ex_region" "(15::nat) \<noteq> 10"
    by (simp_all add: ex_defs)
  show ?thesis
    using append_splices[OF h] by (simp add: ex_defs raw_object_def)
qed

lemma ex_wf: "wf_rings 10 11 [13] [12, 14] ex_state"
  by (simp add: wf_rings_def ex_defs get_class_def)

lemma ex_partition: "ring_partition 11 [13] [12, 14] ex_state"
  by (simp add: ring_partition_def ex_defs is_trivial_def)

theorem swap_root_round_trip_witness:
  "wf_rings 10 11 [13] [12, 14] ex_state \<and> ring_partition 11 [13] [12, 14] ex_state \<and>
   13 \<in> set [13] \<union> set [12, 14::nat] \<and> get_class 13 ex_state = Some UNMARKED \<and>
   is_trivial 11 ex_state = is_trivial 13 ex_state \<and>
   (\<exists>s1. swap_root 11 13 ex_state = Some s1 \<and> swap_root 13 11 s1 = Some ex_state)"
proof -
  have b: "13 \<in> set [13] \<union> set [12, 14::nat]" by simp
  have c: "get_class 13 ex_state = Some UNMARKED" by (simp add: ex_defs get_class_def)
  have t: "is_trivial 11 ex_state = is_trivial 13 ex_state" by (simp add: ex_defs is_trivial_def)
  from swap_root_round_trip[OF ex_wf ex_partition b c] t
  have "\<exists>s1. swap_root 11 13 ex_state = Some s1 \<and> swap_root 13 11 s1 = Some ex_state"
    by auto
  with ex_wf ex_partition b c t show ?thesis by blast
qed


lemma ex2_wf: "wf_rings 10 11 [13] [12, 14] ex2_state" "wf_rings 20 21 [22] [] ex2_state"
  by (simp_all add: wf_rings_def ex2_state_def ex2_region_def ex_defs get_class_def)

lemma ex2_partition: "ring_partition 11 [13] [12, 14] ex2_state" "ring_partition 21 [22] [] ex2_state"
  by (simp_all add: ring_partition_def ex2_state_def ex_defs is_trivial_def)

theorem ring_partition_preserved_witness:
  "wf_rings 10 11 [13] [12, 14] ex_state \<and> ring_partition 11 [13] [12, 14] ex_state \<and>
   wf_rings 10 11 [13] [12, 14] ex2_state \<and> ring_partition 11 [13] [12, 14] ex2_state \<and>
   wf_rings 20 21 [22] [] ex2_state \<and> ring_partition 21 [22] [] ex2_state \<and>
   (\<exists>s'. create 64 D_t 1 2 empty_state = Some (1, s') \<and>
      wf_rings 2 1 [] [] s' \<and> ring_partition 1 [] [] s') \<and>
   (\<exists>s'. alloc D_t 11 15 ex_state = Some (15, s') \<and>
      wf_rings 10 11 [13] [15, 12, 14] s' \<and> ring_partition 11 [13] [15, 12, 14] s') \<and>
   (\<exists>s'. merge_internal unat of_nat 10 21 20 ex2_state = Some s' \<and>
      wf_rings 10 11 [13] [22, 21, 12, 14] s' \<and> ring_partition 11 [13] [22, 21, 12, 14] s') \<and>
   (\<exists>s' ps' ss'. swap_root_internal 10 11 12 ex_state = Some s' \<and>
      wf_rings 10 12 ps' ss' s' \<and> ring_partition 12 ps' ss' s' \<and>
      set (ps' @ 12 # ss') = {11, 12, 13, 14})"
proof -
  note T1 = ring_partition_preserved[where s=empty_state and o'=1 and p=2 and sz=64 and dsc=D_t]
  note T2 = ring_partition_preserved[where s=ex_state and this=10 and a=11 and ps="[13]"
      and ss="[12,14]" and n=15 and dsc=D_t and c=12]
  note T3 = ring_partition_preserved[where s=ex2_state and this=10 and a=11 and ps="[13]"
      and ss="[12,14]" and other=20 and b=21 and ?ps2.0="[22]" and ?ss2.0="[]"
      and s2sc=unat and sc2s=of_nat]
  have 1: "\<exists>s'. create 64 D_t 1 2 empty_state = Some (1, s') \<and>
      wf_rings 2 1 [] [] s' \<and> ring_partition 1 [] [] s'"
    using T1 by (simp add: nullptr_def empty_state_def)
  have 2: "\<exists>s'. alloc D_t 11 15 ex_state = Some (15, s') \<and>
      wf_rings 10 11 [13] [15, 12, 14] s' \<and> ring_partition 11 [13] [15, 12, 14] s'"
    using T2 ex_wf ex_partition by (simp add: ex_defs is_trivial_def)
  have 3: "\<exists>s'. merge_internal unat of_nat 10 21 20 ex2_state = Some s' \<and>
      wf_rings 10 11 [13] [22, 21, 12, 14] s' \<and> ring_partition 11 [13] [22, 21, 12, 14] s'"
    using T3 ex2_wf ex2_partition by (simp add: ex2_state_def ex_defs is_trivial_def)
  have 4: "\<exists>s' ps' ss'. swap_root_internal 10 11 12 ex_state = Some s' \<and>
      wf_rings 10 12 ps' ss' s' \<and> ring_partition 12 ps' ss' s' \<and>
      set (ps' @ 12 # ss') = {11, 12, 13, 14}"
    using T2 ex_wf ex_partition by (simp add: insert_commute)
  show ?thesis using 1 2 3 4 ex_wf ex_partition ex2_wf ex2_partition by blast
qed

theorem merge_internal_previous_memory_used_witness:
  "wf_rings 10 11 [13] [12, 14] ex2_state \<and> ring_partition 11 [13] [12, 14] ex2_state \<and>
   wf_rings 20 21 [22] [] ex2_state \<and> ring_partition 21 [22] [] ex2_state \<and>
   set (10 # [13] @ 11 # [12, 14]) \<inter> set (20 # [22] @ 21 # []) = ({} :: addr set) \<and>
   regions ex2_state 20 = Some ex2_region \<and> previous_memory_used ex_region = 5 \<and>
   (\<exists>s' r'. merge_internal unat of_nat 10 21 20 ex2_state = Some s' \<and>
      regions s' 10 = Some r' \<and> previous_memory_used r' = 6)"
proof -
  have d: "set (10 # [13] @ 11 # [12, 14]) \<inter> set (20 # [22] @ 21 # []) = ({} :: addr set)"
    by simp
  have r: "regions ex2_state 20 = Some ex2_region" by (simp add: ex2_state_def)
  have p: "previous_memory_used ex_region = 5" by (simp add: ex_region_def)
  from merge_internal_previous_memory_used[OF ex2_wf(1) ex2_partition(1) ex2_wf(2)
      ex2_partition(2) d r, of unat of_nat]
  have "\<exists>s' r'. merge_internal unat of_nat 10 21 20 ex2_state = Some s' \<and>
      regions s' 10 = Some r' \<and> previous_memory_used r' = 6"
    by (simp add: ex2_region_def)
  with ex2_wf ex2_partition d r p show ?thesis by blast
qed

lemma ex_marked_wf: "wf_rings 10 11 [13] [12, 14] ex_marked"
  by (simp add: wf_rings_def ex_marked_def ex_defs get_class_def nullptr_def)

lemma ex_marked_partition: "ring_partition 11 [13] [12, 14] ex_marked"
  by (simp add: ring_partition_def ex_marked_def ex_defs is_trivial_def)

lemma ex_marked_fields: "fields_alloc ([13] @ 11 # [12, 14]) ex_marked"
  by (simp add: fields_alloc_def ex_marked_def ex_defs)

lemma ex_marked_class:
  "get_class 12 ex_marked = Some MARKED" "get_class 13 ex_marked = Some UNMARKED"
  "get_class 14 ex_marked = Some UNMARKED" "is_trivial 11 ex_marked = Some False"
  by (simp_all add: ex_marked_def ex_defs get_class_def is_trivial_def)

theorem sweep_post_state_witness:
  "wf_rings 10 11 [13] [12, 14] ex_marked \<and> ring_partition 11 [13] [12, 14] ex_marked \<and>
   fields_alloc ([13] @ 11 # [12, 14]) ex_marked \<and>
   (\<exists>c' s' r'. sweep unat No 10 11 [] [] 0 ex_marked = Some ([], c', s') \<and>
      regions s' 10 = Some r' \<and> heap s' 13 = None \<and> heap s' 14 = None \<and>
      get_class 12 s' = Some UNMARKED \<and> wf_rings 10 11 [] [12] s' \<and>
      current_memory_used r' = the (obj_size 12 s') + the (obj_size 11 s'))"
proof -
  from sweep_post_state[OF ex_marked_wf ex_marked_partition ex_marked_fields,
      where ?s2sc.0=unat and collect="[]" and marked=0]
  have "\<exists>c' s' r'. sweep unat No 10 11 [] [] 0 ex_marked = Some ([], c', s') \<and>
      regions s' 10 = Some r' \<and> heap s' 13 = None \<and> heap s' 14 = None \<and>
      get_class 12 s' = Some UNMARKED \<and> wf_rings 10 11 [] [12] s' \<and>
      current_memory_used r' = the (obj_size 12 s') + the (obj_size 11 s')"
    by (simp add: ex_marked_class)
  with ex_marked_wf ex_marked_partition ex_marked_fields show ?thesis by blast
qed

lemma ex_fields: "fields_alloc ([13] @ 11 # [12, 14]) ex_state"
  by (simp add: fields_alloc_def ex_defs)

theorem sweep_event_order_witness:
  "wf_rings 10 11 [13] [12, 14] ex_marked \<and> ring_partition 11 [13] [12, 14] ex_marked \<and>
   No \<noteq> Yes \<and> fields_alloc ([13] @ 11 # [12, 14]) ex_marked \<and>
   (\<exists>c' s'. sweep unat No 10 11 [] [] 0 ex_marked = Some ([], c', s') \<and>
      events s' = [Finalise 13, FindIsoFields 13, Destructor 13, Dealloc 13, Dealloc 14,
                   SweepSet 10 0])"
proof -
  from sweep_event_order[where sa=No and ?s2sc.0=unat and collect="[]" and marked=0,
      OF ex_marked_wf ex_marked_partition _ ex_marked_fields]
  have "\<exists>c' s'. sweep unat No 10 11 [] [] 0 ex_marked = Some ([], c', s') \<and>
      events s' = [Finalise 13, FindIsoFields 13, Destructor 13, Dealloc 13, Dealloc 14,
                   SweepSet 10 0]"
    by (simp add: collected_def ex_marked_class) (simp add: ex_marked_def ex_defs)
  with ex_marked_wf ex_marked_partition ex_marked_fields show ?thesis by simp
qed







lemma ex_reach: "reach ex_state 11 p \<longleftrightarrow> p = 11 \<or> p = 12"
proof
  assume "reach ex_state 11 p"
  then show "p = 11 \<or> p = 12"
    by (induction rule: reach.induct) (auto simp: ex_defs split: if_splits)
next
  assume "p = 11 \<or> p = 12"
  then show "reach ex_state 11 p"
  proof
    assume "p = 11" then show ?thesis by (simp add: reach_iso)
  next
    assume p: "p = 12"
    have "reach ex_state 11 12"
      by (rule reach_field[OF reach_iso, of _ _ "\<lparr>descriptor = D_nt, next = 10, cls = ISO, flds = [12], ext_ref = False\<rparr>"])
         (simp_all add: ex_defs get_class_def)
    then show ?thesis using p by simp
  qed
qed

lemma ex_unmarked: "unmarked ([13] @ [12, 14]) ex_state"
  by (simp add: unmarked_def ex_defs get_class_def)

lemma ex_finite: "finite (dom (heap ex_state))"
  by (simp add: ex_defs)

lemma ex_refs_alloc: "refs_alloc ex_state 11"
  unfolding refs_alloc_def ex_reach by (auto simp: ex_defs)

theorem mark_post_witness:
  "finite (dom (heap ex_state)) \<and> wf_rings 10 11 [13] [12, 14] ex_state \<and>
   unmarked ([13] @ [12, 14]) ex_state \<and> refs_alloc ex_state 11 \<and>
   reach ex_state 11 12 \<and> \<not> reach ex_state 11 13 \<and> \<not> reach ex_state 11 14 \<and>
   (\<exists>marked' s'. mark 10 11 [] 0 ex_state = Some (marked', s') \<and>
      (get_class 11 s' = Some MARKED \<or> get_class 11 s' = Some ISO) \<and>
      (get_class 12 s' = Some MARKED \<or> get_class 12 s' = Some ISO) \<and>
      get_class 13 s' \<noteq> Some MARKED \<and> get_class 14 s' \<noteq> Some MARKED)"
proof -
  from mark_post[OF ex_finite ex_wf ex_unmarked ex_refs_alloc, of 0]
  obtain marked' s' where r: "mark 10 11 [] 0 ex_state = Some (marked', s')"
    and a: "\<forall>p. reach ex_state 11 p \<longrightarrow> get_class p s' = Some MARKED \<or> get_class p s' = Some ISO"
    and b: "\<forall>p. get_class p s' = Some MARKED \<longrightarrow> reach ex_state 11 p \<or> get_class p ex_state = Some MARKED"
    and c: "\<forall>p\<in>set ([13] @ [12, 14]). get_class p s' = Some MARKED \<longrightarrow> reach ex_state 11 p"
    by blast
  have 1: "get_class 13 s' \<noteq> Some MARKED" "get_class 14 s' \<noteq> Some MARKED"
    using c by (auto simp: ex_reach)
  have 3: "get_class 11 s' = Some MARKED \<or> get_class 11 s' = Some ISO"
    using a[rule_format, of 11] by (simp add: ex_reach)
  have 4: "get_class 12 s' = Some MARKED \<or> get_class 12 s' = Some ISO"
    using a[rule_format, of 12] by (simp add: ex_reach)
  show ?thesis using ex_finite ex_wf ex_unmarked ex_refs_alloc r 1 3 4 by (auto simp: ex_reach)
qed

lemma ex_gc_reach: "reach ex_gc 11 p \<longleftrightarrow> p = 11 \<or> p = 12 \<or> p = 13"
proof
  assume "reach ex_gc 11 p"
  then show "p = 11 \<or> p = 12 \<or> p = 13"
    by (induction rule: reach.induct) (auto simp: ex_gc_def ex_defs split: if_splits)
next
  have i: "heap ex_gc 11 = Some \<lparr>descriptor = D_nt, next = 10, cls = ISO, flds = [12, 13], ext_ref = False\<rparr>"
    by (simp add: ex_gc_def ex_defs)
  have "reach ex_gc 11 12"
    by (rule reach_field[OF reach_iso i]) (simp_all add: ex_gc_def ex_defs get_class_def)
  moreover have "reach ex_gc 11 13"
    by (rule reach_field[OF reach_iso i]) (simp_all add: ex_gc_def ex_defs get_class_def)
  moreover assume "p = 11 \<or> p = 12 \<or> p = 13"
  ultimately show "reach ex_gc 11 p" using reach_iso[of ex_gc 11] by auto
qed

lemma ex_gc_wf: "wf_rings 10 11 [13] [12, 14] ex_gc"
  by (simp add: wf_rings_def ex_gc_def ex_defs get_class_def nullptr_def)

lemma ex_gc_partition: "ring_partition 11 [13] [12, 14] ex_gc"
  by (simp add: ring_partition_def ex_gc_def ex_defs is_trivial_def)

lemma ex_gc_unmarked: "unmarked ([13] @ [12, 14]) ex_gc"
  by (simp add: unmarked_def ex_gc_def ex_defs get_class_def)

lemma ex_gc_fields: "fields_alloc ([13] @ 11 # [12, 14]) ex_gc"
  by (simp add: fields_alloc_def ex_gc_def ex_defs)

lemma ex_gc_finite: "finite (dom (heap ex_gc))"
  by (simp add: ex_gc_def ex_defs)

lemma ex_gc_closed: "region_closed 11 ([13] @ [12, 14]) ex_gc"
  unfolding region_closed_def ex_gc_reach by (auto simp: get_class_def ex_gc_def ex_defs)

lemma ex_gc_twice:
  "finite (dom (heap ex_gc)) \<and> wf_rings 10 11 [13] [12, 14] ex_gc \<and>
   ring_partition 11 [13] [12, 14] ex_gc \<and> unmarked ([13] @ [12, 14]) ex_gc \<and>
   region_closed 11 ([13] @ [12, 14]) ex_gc \<and> fields_alloc ([13] @ 11 # [12, 14]) ex_gc \<and>
   (\<exists>m sm c s2 s1.
      mark 10 11 [] 0 ex_gc = Some (m, sm) \<and>
      sweep unat No 10 11 [] [] m sm = Some ([], c, s2) \<and>
      gc_loop unat (\<lambda>_ _. False) (\<lambda>_ _ _ _ _. None) 10 [] c s2 = Some s1 \<and>
      release_frame 10 11 ([13] @ [12, 14]) s2 s1 \<and> finite (dom (heap s1)) \<and>
      heap s1 14 = None \<and>
      gc unat (\<lambda>_ _. False) (\<lambda>_ _ _ _ _. None) 11 ex_gc = Some s1 \<and>
      (\<exists>s' r1 h' m'. gc unat (\<lambda>_ _. False) (\<lambda>_ _ _ _ _. None) 11 s1 = Some s' \<and>
         heap s' = heap s1 \<and> regions s1 10 = Some r1 \<and>
         regions s' = (regions s1)(10 \<mapsto> r1\<lparr>hash_set := h'\<rparr>) \<and>
         events s' = events s1 @ [SweepSet 10 m']))"
proof -
  note ra = refs_alloc_closed[OF ex_gc_closed ex_gc_fields]
  have io: "heap ex_gc 11 = Some \<lparr>descriptor = D_nt, next = 10, cls = ISO, flds = [12, 13], ext_ref = False\<rparr>"
    and rg: "regions ex_gc 10 = Some ex_region"
    by (simp_all add: ex_gc_def ex_defs)
  from mark_total[OF ex_gc_finite ra io rg, of 0] obtain m sm where
    mk: "mark 10 11 [] 0 ex_gc = Some (m, sm)" by blast
  note M = mark_region[OF ex_gc_finite ex_gc_wf ex_gc_partition ex_gc_unmarked ex_gc_closed
      ex_gc_fields mk]
  from sweep_total[where sa=No and collect="[]" and marked=m and ?s2sc.0=unat, OF M(3) M(4) _ M(5)]
  obtain c s2 where sw: "sweep unat No 10 11 [] [] m sm = Some ([], c, s2)"
    and sp: "sweep_post unat No 10 11 [13] [12, 14] m sm s2"
    and cc: "collected NonTrivialRing No 11 [13] [12, 14] sm = [] \<longrightarrow> c = []" by auto
  have c13: "get_class 13 sm = Some MARKED" "get_class 14 sm = Some UNMARKED"
    using M(6)[of 13] M(6)[of 14] by (simp_all add: ex_gc_reach)
  have t11: "is_trivial 11 sm = Some False"
    using M(2)[of 11] by (simp add: is_trivial_def ex_gc_def ex_defs)
  have c0: "c = []" using cc by (simp add: collected_def c13 t11)
  have gl: "gc_loop unat (\<lambda>_ _. False) (\<lambda>_ _ _ _ _. None) 10 [] c s2 = Some s2"
    unfolding c0 by (subst gc_loop.simps) simp
  have fr: "release_frame 10 11 ([13] @ [12, 14]) s2 s2" by (rule release_frame_refl)
  have "dom (heap sm) = dom (heap ex_gc)" by (rule mark_inv_dom[OF M(1)])
  with sweep_post_dom[OF M(3) sp] ex_gc_finite have fin1: "finite (dom (heap s2))"
    by (metis finite_subset)
  have c12: "get_class 12 sm = Some MARKED" using M(6)[of 12] by (simp add: ex_gc_reach)
  have d14: "heap s2 14 = None"
    using sweep_postD(7)[OF sp] by (simp add: c13 c12)
  from gc_twice_framed[OF ex_gc_finite fin1 ex_gc_wf ex_gc_partition ex_gc_unmarked ex_gc_closed
      ex_gc_fields mk sw gl fr]
  have G: "gc unat (\<lambda>_ _. False) (\<lambda>_ _ _ _ _. None) 11 ex_gc = Some s2 \<and>
      (\<exists>s' r1 h' m'. gc unat (\<lambda>_ _. False) (\<lambda>_ _ _ _ _. None) 11 s2 = Some s' \<and>
         heap s' = heap s2 \<and> regions s2 10 = Some r1 \<and>
         regions s' = (regions s2)(10 \<mapsto> r1\<lparr>hash_set := h'\<rparr>) \<and>
         events s' = events s2 @ [SweepSet 10 m'])" .
  have "\<exists>m sm c s2 s1.
      mark 10 11 [] 0 ex_gc = Some (m, sm) \<and>
      sweep unat No 10 11 [] [] m sm = Some ([], c, s2) \<and>
      gc_loop unat (\<lambda>_ _. False) (\<lambda>_ _ _ _ _. None) 10 [] c s2 = Some s1 \<and>
      release_frame 10 11 ([13] @ [12, 14]) s2 s1 \<and> finite (dom (heap s1)) \<and>
      heap s1 14 = None \<and>
      gc unat (\<lambda>_ _. False) (\<lambda>_ _ _ _ _. None) 11 ex_gc = Some s1 \<and>
      (\<exists>s' r1 h' m'. gc unat (\<lambda>_ _. False) (\<lambda>_ _ _ _ _. None) 11 s1 = Some s' \<and>
         heap s' = heap s1 \<and> regions s1 10 = Some r1 \<and>
         regions s' = (regions s1)(10 \<mapsto> r1\<lparr>hash_set := h'\<rparr>) \<and>
         events s' = events s1 @ [SweepSet 10 m'])"
    apply (rule exI[of _ m], rule exI[of _ sm], rule exI[of _ c], rule exI[of _ s2], rule exI[of _ s2])
    apply (intro conjI)
           apply (rule mk)
          apply (rule sw)
         apply (rule gl)
        apply (rule fr)
       apply (rule fin1)
      apply (rule d14)
     apply (rule conjunct1[OF G])
    apply (rule conjunct2[OF G])
    done
  with ex_gc_finite ex_gc_wf ex_gc_partition ex_gc_unmarked ex_gc_closed ex_gc_fields
  show ?thesis by (intro conjI)
qed

lemmas ex_forest_defs = ex_forest_def ex_subs_def sub_region_def ex_heap_def ex_region_def
  D_t_def D_nt_def desc_def trivial_def nullptr_def

lemma ex_forest_reach: "reach ex_forest 11 p \<longleftrightarrow> p = 11 \<or> p = 12"
proof
  assume "reach ex_forest 11 p"
  then show "p = 11 \<or> p = 12"
    by (induction rule: reach.induct) (auto simp: ex_forest_defs split: if_splits)
next
  have i: "heap ex_forest 11 = Some \<lparr>descriptor = D_nt, next = 10, cls = ISO, flds = [12], ext_ref = False\<rparr>"
    by (simp add: ex_forest_defs)
  have "reach ex_forest 11 12"
    by (rule reach_field[OF reach_iso i]) (simp_all add: ex_forest_defs get_class_def)
  moreover assume "p = 11 \<or> p = 12"
  ultimately show "reach ex_forest 11 p" using reach_iso[of ex_forest 11] by auto
qed

lemma ex_forest_wf: "wf_rings 10 11 [13] [12, 14] ex_forest"
  by (simp add: wf_rings_def ex_forest_defs get_class_def)

lemma ex_forest_partition: "ring_partition 11 [13] [12, 14] ex_forest"
  by (simp add: ring_partition_def ex_forest_defs is_trivial_def)

lemma ex_forest_unmarked: "unmarked ([13] @ [12, 14]) ex_forest"
  by (simp add: unmarked_def ex_forest_defs get_class_def)

lemma ex_forest_fields: "fields_alloc ([13] @ 11 # [12, 14]) ex_forest"
  by (simp add: fields_alloc_def ex_forest_defs)

lemma ex_forest_finite: "finite (dom (heap ex_forest))"
  by (simp add: ex_forest_defs)

lemma ex_forest_closed: "region_closed 11 ([13] @ [12, 14]) ex_forest"
  unfolding region_closed_def ex_forest_reach by (auto simp: get_class_def ex_forest_defs)

lemma ex_forest_kids: "gc_kids 11 [13] [12, 14] ex_forest = [21]"
proof -
  have t: "is_trivial 11 ex_forest = Some False" by (simp add: is_trivial_def ex_forest_defs)
  have i: "iso_refs 11 ex_forest 13 = [21]"
    by (simp add: iso_refs_def get_class_def ex_forest_defs)
  show ?thesis unfolding gc_kids_def t by (simp add: ex_forest_reach i)
qed

lemma ex_forest_region_kids:
  "region_kids ex_forest (20, 21, [], []) = [31]"
  "region_kids ex_forest (30, 31, [32], []) = []"
  by (simp_all add: region_kids_def pushed_isos_def collected_def is_trivial_def iso_refs_def
      get_class_def ex_forest_defs)

lemma ex_forest_ok:
  "region_ok ex_forest (20, 21, [], [])"
  "region_ok ex_forest (30, 31, [32], [])"
  by (simp_all add: region_ok_def wf_rings_def ring_partition_def unmarked_def fields_alloc_def
      is_trivial_def get_class_def ex_forest_defs)

lemma ex_forest_forest: "forest ex_subs [21] ex_forest"
  unfolding forest_def
  apply (intro conjI)
       apply (simp add: ex_subs_def ex_forest_ok)
      apply (simp add: ex_subs_def)
     apply (simp add: ex_subs_def region_objs_def region_members_def region_meta_def)
    apply (simp add: ex_subs_def ex_forest_region_kids)
   apply (simp add: ex_subs_def ex_forest_region_kids region_iso_def)
  apply (simp add: ex_subs_def ex_forest_region_kids region_objs_def region_members_def region_meta_def)
  apply (simp add: ex_forest_defs)
  done

lemma ex_forest_subregions: "subregions 10 11 [13] [12, 14] ex_subs ex_forest"
  unfolding subregions_def ex_forest_kids
  apply (intro conjI)
     apply (rule ex_forest_forest)
    apply (simp add: ex_subs_def region_objs_def region_members_def region_meta_def)
   apply (simp add: ex_subs_def region_objs_def region_members_def region_meta_def)
   apply (simp add: ex_forest_defs)
  apply (simp add: ex_forest_reach ex_subs_def region_objs_def region_members_def region_meta_def)
  apply (simp add: ex_forest_defs)
  done

theorem gc_idempotent_witness:
  "finite (dom (heap ex_forest)) \<and> wf_rings 10 11 [13] [12, 14] ex_forest \<and>
   ring_partition 11 [13] [12, 14] ex_forest \<and> unmarked ([13] @ [12, 14]) ex_forest \<and>
   region_closed 11 ([13] @ [12, 14]) ex_forest \<and>
   fields_alloc ([13] @ 11 # [12, 14]) ex_forest \<and>
   subregions 10 11 [13] [12, 14] ex_subs ex_forest \<and>
   gc_kids 11 [13] [12, 14] ex_forest = [21] \<and>
   (\<exists>s1. gc unat (\<lambda>_ _. False) (\<lambda>_ _ _ _ _. None) 11 ex_forest = Some s1 \<and>
      heap s1 21 = None \<and>
      (\<exists>s' r1 h' m'. gc unat (\<lambda>_ _. False) (\<lambda>_ _ _ _ _. None) 11 s1 = Some s' \<and>
         heap s' = heap s1 \<and> regions s1 10 = Some r1 \<and>
         regions s' = (regions s1)(10 \<mapsto> r1\<lparr>hash_set := h'\<rparr>) \<and>
         events s' = events s1 @ [SweepSet 10 m']))"
proof -
  from gc_idempotent[OF ex_forest_finite ex_forest_wf ex_forest_partition ex_forest_unmarked
      ex_forest_closed ex_forest_fields ex_forest_subregions,
      of unat "\<lambda>_ _. False" "\<lambda>_ _ _ _ _. None"]
  have "\<exists>s1. gc unat (\<lambda>_ _. False) (\<lambda>_ _ _ _ _. None) 11 ex_forest = Some s1 \<and>
      heap s1 21 = None \<and>
      (\<exists>s' r1 h' m'. gc unat (\<lambda>_ _. False) (\<lambda>_ _ _ _ _. None) 11 s1 = Some s' \<and>
         heap s' = heap s1 \<and> regions s1 10 = Some r1 \<and>
         regions s' = (regions s1)(10 \<mapsto> r1\<lparr>hash_set := h'\<rparr>) \<and>
         events s' = events s1 @ [SweepSet 10 m'])"
    unfolding ex_forest_kids by simp
  with ex_forest_finite ex_forest_wf ex_forest_partition ex_forest_unmarked ex_forest_closed
    ex_forest_fields ex_forest_subregions ex_forest_kids
  show ?thesis by (intro conjI)
qed

end
